(* ===== verification/Prelude.thy ===== *)
theory Prelude
  imports Main "HOL-Library.Word"
begin

text \<open>
  Shared vocabulary of the development: bytes and C strings, arrays that are written in
  place, the character classes of the kernel's \<open>ctype\<close> table, decimal numerals as
  \<open>printf\<close> prints them, the error numbers the module returns, and the parameters that
  stand for kernel functions whose source is not part of this repository.

  Conventions.
  \<^item> A C array of \<open>n\<close> bytes is a list of length \<open>n\<close>. \<open>memcpy_at\<close> writes a block at an
    offset; it changes the length of the list exactly when the C code would write outside
    the array, so a lemma "the length is kept" is a memory-safety statement.
  \<^item> A C string is the list of its characters up to the terminating NUL; reading at or past
    the end yields NUL (\<open>char_at\<close>).
  \<^item> An \<open>int\<close> or \<open>long\<close> result is an \<open>int\<close>, negative for an error number.
\<close>

unbundle bit_operations_syntax

type_synonym byte = "8 word"
type_synonym ulong = "64 word"

named_theorems arr_simps "arrays written in place"
named_theorems wf_intros "introduction rules for the invariants of the model"
named_theorems op_defs "definitions of operations, for unfolding"

section \<open>Arrays\<close>

definition memcpy_at :: "'a list \<Rightarrow> nat \<Rightarrow> 'a list \<Rightarrow> 'a list" where
  "memcpy_at a off bs = take off a @ bs @ drop (off + length bs) a"

definition memset_at :: "'a list \<Rightarrow> nat \<Rightarrow> 'a \<Rightarrow> nat \<Rightarrow> 'a list" where
  "memset_at a off c n = memcpy_at a off (replicate n c)"

definition read_at :: "'a list \<Rightarrow> nat \<Rightarrow> nat \<Rightarrow> 'a list" where
  "read_at a off n = take n (drop off a)"

section \<open>C strings\<close>

definition NUL :: char where
  "NUL = CHR 0x00"

definition char_at :: "string \<Rightarrow> nat \<Rightarrow> char" where
  "char_at s i = (if i < length s then s ! i else NUL)"

definition c_string :: "string \<Rightarrow> string" where
  "c_string s = takeWhile (\<lambda>c. c \<noteq> NUL) s"

abbreviation code :: "char \<Rightarrow> nat" where
  "code c \<equiv> of_char c"

definition isdigit :: "char \<Rightarrow> bool" where
  "isdigit c \<longleftrightarrow> 48 \<le> code c \<and> code c \<le> 57"

definition isupper :: "char \<Rightarrow> bool" where
  "isupper c \<longleftrightarrow> 65 \<le> code c \<and> code c \<le> 90 \<or> 192 \<le> code c \<and> code c \<le> 222 \<and> code c \<noteq> 215"

definition islower :: "char \<Rightarrow> bool" where
  "islower c \<longleftrightarrow> 97 \<le> code c \<and> code c \<le> 122 \<or> 223 \<le> code c \<and> code c \<noteq> 247"

definition isalpha :: "char \<Rightarrow> bool" where
  "isalpha c \<longleftrightarrow> isupper c \<or> islower c"

definition isxdigit :: "char \<Rightarrow> bool" where
  "isxdigit c \<longleftrightarrow> isdigit c \<or> 65 \<le> code c \<and> code c \<le> 70 \<or> 97 \<le> code c \<and> code c \<le> 102"

definition isspace :: "char \<Rightarrow> bool" where
  "isspace c \<longleftrightarrow> 9 \<le> code c \<and> code c \<le> 13 \<or> code c = 32 \<or> code c = 160"

definition isprint :: "char \<Rightarrow> bool" where
  "isprint c \<longleftrightarrow> 32 \<le> code c \<and> code c \<le> 126 \<or> 160 \<le> code c"

definition tolower :: "char \<Rightarrow> char" where
  "tolower c = (if isupper c then char_of (code c + 32) else c)"

section \<open>Decimal numerals\<close>

fun dec_str :: "nat \<Rightarrow> string" where
  "dec_str n =
     (if n < 10 then [char_of (48 + n)] else dec_str (n div 10) @ [char_of (48 + n mod 10)])"

declare dec_str.simps [simp del]

definition dec_val :: "string \<Rightarrow> nat" where
  "dec_val s = foldl (\<lambda>a c. a * 10 + (code c - 48)) 0 s"

section \<open>Error numbers and integer limits\<close>

abbreviation ENOENT :: int where "ENOENT \<equiv> 2"
abbreviation EIO :: int where "EIO \<equiv> 5"
abbreviation E2BIG :: int where "E2BIG \<equiv> 7"
abbreviation ENOMEM :: int where "ENOMEM \<equiv> 12"
abbreviation EFAULT :: int where "EFAULT \<equiv> 14"
abbreviation EEXIST :: int where "EEXIST \<equiv> 17"
abbreviation ENODEV :: int where "ENODEV \<equiv> 19"
abbreviation EINVAL :: int where "EINVAL \<equiv> 22"
abbreviation ENOTTY :: int where "ENOTTY \<equiv> 25"
abbreviation EOPNOTSUPP :: int where "EOPNOTSUPP \<equiv> 95"

abbreviation UINT_MAX :: nat where "UINT_MAX \<equiv> 4294967295"
abbreviation INT_MAX :: nat where "INT_MAX \<equiv> 2147483647"

section \<open>The outcome of running kernel code\<close>

text \<open>
  \<open>Done\<close>: the code returned. \<open>Blocked\<close>: it waits for a semaphore that nobody can release
  while it waits. \<open>Oops\<close>: it dereferenced a null pointer.
\<close>

datatype 'a run = Done 'a | Blocked | Oops

section \<open>Kernel functions that are parameters\<close>

text \<open>
  \<open>simple_strtoull(s, &ep, 10)\<close> (value and rest of the string), \<open>msecs_to_jiffies\<close> (depends
  on the kernel's \<open>HZ\<close>), \<open>kstrtouint(s, 0, &v)\<close> and \<open>kstrtol(s, 0, &v)\<close> (\<open>None\<close> for an error
  return).
\<close>

record klib =
  kl_strtoull :: "string \<Rightarrow> nat \<times> string"
  kl_msecs_to_jiffies :: "nat \<Rightarrow> ulong"
  kl_kstrtouint :: "string \<Rightarrow> nat option"
  kl_kstrtol :: "string \<Rightarrow> int option"

text \<open>
  The documented behaviour of \<open>strtoull\<close> that the parser relies on. It holds of the kernel's
  \<open>simple_strtoull\<close> (which ignores overflow) and of the C library's \<open>strtoull\<close> (which
  saturates, skips blanks and accepts a sign), the two functions the source is built with.
\<close>

definition strtoull_ok :: "(string \<Rightarrow> nat \<times> string) \<Rightarrow> bool" where
  "strtoull_ok f \<longleftrightarrow>
     (\<forall>ds rest. ds \<noteq> [] \<longrightarrow> list_all isdigit ds \<longrightarrow> \<not> isdigit (char_at rest 0) \<longrightarrow>
        dec_val ds < 2 ^ 64 \<longrightarrow> f (ds @ rest) = (dec_val ds, rest)) \<and>
     (\<forall>s. \<exists>k. snd (f s) = drop k s)"

text \<open>A function with this behaviour, used to instantiate the parameter in witnesses.\<close>

definition dec_strtoull :: "string \<Rightarrow> nat \<times> string" where
  "dec_strtoull s =
     (let ds = takeWhile isdigit s in (dec_val ds mod 2 ^ 64, dropWhile isdigit s))"

definition sample_klib :: klib where
  "sample_klib = \<lparr>kl_strtoull = dec_strtoull, kl_msecs_to_jiffies = (\<lambda>ms. of_nat (ms div 4)),
     kl_kstrtouint = (\<lambda>s. if s \<noteq> [] \<and> list_all isdigit s then Some (dec_val s) else None),
     kl_kstrtol = (\<lambda>s. if s \<noteq> [] \<and> list_all isdigit s then Some (int (dec_val s)) else None)\<rparr>"

section \<open>Lemmas on arrays\<close>

lemma length_memcpy_at [simp, arr_simps]:
  "off + length bs \<le> length a \<Longrightarrow> length (memcpy_at a off bs) = length a"
  by (simp add: memcpy_at_def)

lemma memcpy_at_Nil [simp, arr_simps]: "memcpy_at a off [] = a"
  by (simp add: memcpy_at_def)

lemma memcpy_at_overflow:
  "length a < off + length bs \<Longrightarrow> bs \<noteq> [] \<Longrightarrow> off \<le> length a \<Longrightarrow> length (memcpy_at a off bs) > length a"
  by (simp add: memcpy_at_def)

lemma length_memset_at [simp, arr_simps]:
  "off + n \<le> length a \<Longrightarrow> length (memset_at a off c n) = length a"
  by (simp add: memset_at_def)

lemma take_memcpy_at_0 [simp, arr_simps]:
  "n = length bs \<Longrightarrow> take n (memcpy_at a 0 bs) = bs"
  by (simp add: memcpy_at_def)

lemma read_memcpy_at [arr_simps]:
  "off \<le> length a \<Longrightarrow> n = length bs \<Longrightarrow> read_at (memcpy_at a off bs) off n = bs"
  by (simp add: memcpy_at_def read_at_def)

lemma length_read_at [simp, arr_simps]:
  "off + n \<le> length a \<Longrightarrow> length (read_at a off n) = n"
  by (simp add: read_at_def)

lemma read_at_0 [simp, arr_simps]: "read_at a off 0 = []"
  by (simp add: read_at_def)

lemma read_at_split [arr_simps]: "read_at a off (m + n) = read_at a off m @ read_at a (off + m) n"
  by (simp add: read_at_def take_add add.commute)

lemma memcpy_at_append:
  "off \<le> length a \<Longrightarrow>
     memcpy_at (memcpy_at a off xs) (off + length xs) ys = memcpy_at a off (xs @ ys)"
  by (simp add: memcpy_at_def ac_simps)

lemma nth_memcpy_at:
  "off + length bs \<le> length a \<Longrightarrow> k < length a \<Longrightarrow>
     memcpy_at a off bs ! k = (if off \<le> k \<and> k < off + length bs then bs ! (k - off) else a ! k)"
  by (auto simp: memcpy_at_def nth_append)

section \<open>Lemmas on C strings and characters\<close>

lemma char_at_Nil [simp]: "char_at [] i = NUL"
  by (simp add: char_at_def)

lemma char_at_0 [simp]: "char_at (c # s) 0 = c"
  by (simp add: char_at_def)

lemma char_at_Suc [simp]: "char_at (c # s) (Suc i) = char_at s i"
  by (simp add: char_at_def)

lemma char_at_1 [simp]: "char_at (c # s) 1 = char_at s 0"
  by (simp add: char_at_def)

lemma char_at_append: "char_at (xs @ ys) i = (if i < length xs then xs ! i else char_at ys (i - length xs))"
  by (auto simp: char_at_def nth_append)

lemma char_at_append_0: "char_at (xs @ ys) 0 = (if xs = [] then char_at ys 0 else hd xs)"
  by (cases xs) auto

lemma char_at_drop: "char_at (drop k s) i = char_at s (k + i)"
  by (auto simp: char_at_def)

lemma char_of_code [simp]: "char_of (code c) = c"
  by simp

lemma code_char_of: "n < 256 \<Longrightarrow> code (char_of n) = n"
  by simp

lemma c_string_no_NUL: "NUL \<notin> set s \<Longrightarrow> c_string s = s"
  unfolding c_string_def by (induction s) auto

section \<open>Lemmas on decimal numerals\<close>

lemma dec_val_Nil [simp]: "dec_val [] = 0"
  by (simp add: dec_val_def)

lemma dec_val_snoc [simp]: "dec_val (s @ [c]) = dec_val s * 10 + (code c - 48)"
  by (simp add: dec_val_def)

lemma dec_str_not_Nil [simp]: "dec_str n \<noteq> []"
  by (subst dec_str.simps) simp

lemma dec_val_dec_str [simp]: "dec_val (dec_str n) = n"
proof (induction n rule: dec_str.induct)
  case (1 n)
  show ?case
  proof (cases "n < 10")
    case True
    then show ?thesis using dec_val_snoc [of "[]"] by (simp add: dec_str.simps [of n])
  next
    case False
    with 1 show ?thesis by (simp add: dec_str.simps [of n])
  qed
qed

lemma dec_str_digits: "list_all isdigit (dec_str n)"
proof (induction n rule: dec_str.induct)
  case (1 n)
  then show ?case
    by (cases "n < 10") (simp_all add: dec_str.simps [of n] isdigit_def)
qed

lemma dec_str_inject [simp]: "dec_str m = dec_str n \<longleftrightarrow> m = n"
  by (metis dec_val_dec_str)

lemma length_dec_str: "n < 10 ^ k \<Longrightarrow> 0 < k \<Longrightarrow> length (dec_str n) \<le> k"
proof (induction n arbitrary: k rule: dec_str.induct)
  case (1 n)
  show ?case
  proof (cases "n < 10")
    case True
    with 1 show ?thesis by (simp add: dec_str.simps [of n])
  next
    case False
    with "1.prems" obtain j where k: "k = Suc j" and "0 < j"
      by (cases k; cases "k - 1") auto
    moreover from "1.prems" k have "n div 10 < 10 ^ j" by (simp add: less_mult_imp_div_less mult.commute)
    ultimately show ?thesis using False "1.IH" by (simp add: dec_str.simps [of n])
  qed
qed

lemma dec_str_no_NUL: "NUL \<notin> set (dec_str n)"
  using dec_str_digits [of n] by (auto simp: list_all_iff isdigit_def NUL_def)

section \<open>The contract of strtoull\<close>

lemma strtoull_ok_dec_str:
  "strtoull_ok f \<Longrightarrow> n < 2 ^ 64 \<Longrightarrow> \<not> isdigit (char_at rest 0) \<Longrightarrow> f (dec_str n @ rest) = (n, rest)"
  by (simp add: strtoull_ok_def dec_str_digits)

lemma strtoull_ok_suffix: "strtoull_ok f \<Longrightarrow> \<exists>k. snd (f s) = drop k s"
  by (simp add: strtoull_ok_def)

lemma isdigit_NUL [simp]: "\<not> isdigit NUL"
  by (simp add: isdigit_def NUL_def)

lemma dec_strtoull_ok: "strtoull_ok dec_strtoull"
proof -
  have "takeWhile isdigit rest = [] \<and> dropWhile isdigit rest = rest"
    if "\<not> isdigit (char_at rest 0)" for rest
    using that by (cases rest) auto
  then show ?thesis
    by (auto simp: strtoull_ok_def dec_strtoull_def list_all_iff takeWhile_append dropWhile_append
        intro: exI [of _ "length (takeWhile isdigit s)" for s] dropWhile_eq_drop)
qed

lemma sample_klib_ok: "strtoull_ok (kl_strtoull sample_klib)"
  by (simp add: sample_klib_def dec_strtoull_ok)

end
