(* ===== verification/Iface.thy ===== *)
theory Iface
  imports Prelude
begin

text \<open>
  The constants of \<open>hwe_consts.h\<close> and the interface names of \<open>hwe_utils.c\<close>. The enumeration
  is expanded from the list \<open>HWE_FOREACH_IFACE\<close>, in its order; \<open>iface_num\<close> is the value the C
  compiler gives each constructor, and \<open>iface_of_num\<close> the cast back, defined below
  \<open>HWE_IFACE_COUNT\<close> only (the code checks the bound before it casts). The \<open>default\<close> branch of
  \<open>iface_to_str\<close> is for values outside the enumeration, which this type does not have.
\<close>

section \<open>Constants\<close>

definition HWE_MAX_REQUEST :: nat where
  "HWE_MAX_REQUEST = (4096 - 1) div 4"

definition HWE_MAX_RESPONSE :: nat where
  "HWE_MAX_RESPONSE = (4096 - 1) div 4"

definition HWE_MAX_PAIR_STR :: nat where
  "HWE_MAX_PAIR_STR = HWE_MAX_REQUEST * 2 + HWE_MAX_RESPONSE * 2 + 1"

definition HWE_MAX_PAIRS :: nat where
  "HWE_MAX_PAIRS = 1000"

definition HWE_MAX_DEVICES :: nat where
  "HWE_MAX_DEVICES = 256"

lemmas hwe_consts =
  HWE_MAX_REQUEST_def HWE_MAX_RESPONSE_def HWE_MAX_PAIR_STR_def HWE_MAX_PAIRS_def HWE_MAX_DEVICES_def

section \<open>Interfaces\<close>

datatype HWE_IFACE = HWE_TTY | HWE_I2C | HWE_NET | HWE_SPI

definition HWE_IFACE_COUNT :: nat where
  "HWE_IFACE_COUNT = 4"

definition all_ifaces :: "HWE_IFACE list" where
  "all_ifaces = [HWE_TTY, HWE_I2C, HWE_NET, HWE_SPI]"

fun iface_num :: "HWE_IFACE \<Rightarrow> nat" where
  "iface_num HWE_TTY = 0"
| "iface_num HWE_I2C = 1"
| "iface_num HWE_NET = 2"
| "iface_num HWE_SPI = 3"

definition iface_of_num :: "nat \<Rightarrow> HWE_IFACE" where
  "iface_of_num n = all_ifaces ! n"

fun iface_to_str :: "HWE_IFACE \<Rightarrow> string" where
  "iface_to_str HWE_TTY = ''tty''"
| "iface_to_str HWE_I2C = ''i2c''"
| "iface_to_str HWE_NET = ''net''"
| "iface_to_str HWE_SPI = ''spi''"

definition str_to_iface :: "string \<Rightarrow> HWE_IFACE option" where
  "str_to_iface str =
     (if str = ''TTY'' \<or> str = ''tty'' then Some HWE_TTY
      else if str = ''I2C'' \<or> str = ''i2c'' then Some HWE_I2C
      else if str = ''NET'' \<or> str = ''net'' then Some HWE_NET
      else if str = ''SPI'' \<or> str = ''spi'' then Some HWE_SPI
      else None)"

section \<open>Lemmas\<close>

lemma all_ifaces_UNIV: "set all_ifaces = UNIV"
  by (auto simp: all_ifaces_def intro: HWE_IFACE.exhaust)

lemma distinct_all_ifaces: "distinct all_ifaces"
  by (simp add: all_ifaces_def)

lemma iface_num_less [simp]: "iface_num i < HWE_IFACE_COUNT"
  by (cases i) (simp_all add: HWE_IFACE_COUNT_def)

lemma iface_num_le_3: "iface_num i \<le> 3"
  by (cases i) simp_all

lemma iface_of_num_iface_num [simp]: "iface_of_num (iface_num i) = i"
  by (cases i) (simp_all add: iface_of_num_def all_ifaces_def)

lemma iface_num_iface_of_num: "n < HWE_IFACE_COUNT \<Longrightarrow> iface_num (iface_of_num n) = n"
  by (auto simp: iface_of_num_def all_ifaces_def HWE_IFACE_COUNT_def less_Suc_eq numeral_eq_Suc)

lemma iface_num_inject [simp]: "iface_num i = iface_num j \<longleftrightarrow> i = j"
  by (metis iface_of_num_iface_num)

lemma str_to_iface_to_str [simp]: "str_to_iface (iface_to_str i) = Some i"
  by (cases i) (simp_all add: str_to_iface_def)

lemma iface_to_str_inject [simp]: "iface_to_str i = iface_to_str j \<longleftrightarrow> i = j"
  by (metis option.inject str_to_iface_to_str)

lemma length_iface_to_str [simp]: "length (iface_to_str i) = 3"
  by (cases i) simp_all

instantiation HWE_IFACE :: linorder
begin

definition less_eq_HWE_IFACE :: "HWE_IFACE \<Rightarrow> HWE_IFACE \<Rightarrow> bool" where
  "less_eq_HWE_IFACE i j \<longleftrightarrow> iface_num i \<le> iface_num j"

definition less_HWE_IFACE :: "HWE_IFACE \<Rightarrow> HWE_IFACE \<Rightarrow> bool" where
  "less_HWE_IFACE i j \<longleftrightarrow> iface_num i < iface_num j"

instance
  by standard (auto simp: less_eq_HWE_IFACE_def less_HWE_IFACE_def dest: antisym)

end

lemma sorted_all_ifaces: "sorted all_ifaces"
  by (simp add: all_ifaces_def less_eq_HWE_IFACE_def)

end
