(* ===== verification/Kernel_Utils.thy ===== *)
theory Kernel_Utils
  imports Prelude
begin

text \<open>
  The kernel routines whose source the repository carries in \<open>tests/kernel_utils.c\<close>: the
  hexadecimal codec (\<open>hex_to_bin\<close>, \<open>hex2bin\<close>, \<open>bin2hex\<close>), the bounded character search
  \<open>strnchr\<close> and the truncating \<open>scnprintf\<close>. \<open>hex2bin\<close> writes into the caller's array, so it
  takes the array and returns it with the bytes written before an error, as the C code leaves
  it; \<open>bin2hex\<close> and \<open>scnprintf\<close> yield the characters they append to the output buffer.
\<close>

section \<open>Operations\<close>

definition hex_asc :: string where
  "hex_asc = ''0123456789abcdef''"

definition hex_asc_lo :: "byte \<Rightarrow> char" where
  "hex_asc_lo x = hex_asc ! unat (x AND 0x0f)"

definition hex_asc_hi :: "byte \<Rightarrow> char" where
  "hex_asc_hi x = hex_asc ! unat (drop_bit 4 (x AND 0xf0))"

definition hex_byte_pack :: "byte \<Rightarrow> string" where
  "hex_byte_pack b = [hex_asc_hi b, hex_asc_lo b]"

definition hex_to_bin :: "char \<Rightarrow> int" where
  "hex_to_bin ch =
     (if isdigit ch then int (code ch) - 48
      else let ch = tolower ch in
        if 97 \<le> code ch \<and> code ch \<le> 102 then int (code ch) - 97 + 10 else -1)"

fun hex2bin :: "byte list \<Rightarrow> nat \<Rightarrow> string \<Rightarrow> nat \<Rightarrow> int \<times> byte list" where
  "hex2bin dst i src 0 = (0, dst)"
| "hex2bin dst i src (Suc count) =
     (let hi = hex_to_bin (char_at src 0);
          lo = hex_to_bin (char_at src 1)
      in if hi < 0 \<or> lo < 0 then (- EINVAL, dst)
         else hex2bin (memcpy_at dst i [word_of_int (push_bit 4 hi OR lo)]) (Suc i)
                (drop 2 src) count)"

primrec bin2hex :: "byte list \<Rightarrow> string" where
  "bin2hex [] = []"
| "bin2hex (b # src) = hex_byte_pack b @ bin2hex src"

fun strnchr :: "string \<Rightarrow> nat \<Rightarrow> char \<Rightarrow> nat option" where
  "strnchr s 0 c = None"
| "strnchr s (Suc count) c =
     (if char_at s 0 = c then Some 0
      else if char_at s 0 = NUL then None
      else map_option Suc (strnchr (drop 1 s) count c))"

definition scnprintf :: "nat \<Rightarrow> string \<Rightarrow> string" where
  "scnprintf sz text = (if sz = 0 then [] else take (sz - 1) text)"

section \<open>The hexadecimal digits\<close>

definition nibbles :: "byte \<Rightarrow> nat \<times> nat" where
  "nibbles b = (unat b div 16, unat b mod 16)"

lemma lo_nibble: "unat (b AND 0x0f :: byte) = unat b mod 16"
proof -
  have "unat (b AND 0x0f) = unat b AND mask 4"
    by (simp add: unsigned_and_eq mask_eq_exp_minus_1)
  also have "\<dots> = unat b mod 16"
    by (simp only: take_bit_eq_mask [symmetric] take_bit_eq_mod) simp
  finally show ?thesis .
qed

lemma hi_nibble: "unat (drop_bit 4 (b AND 0xf0) :: byte) = unat b div 16"
proof -
  have "drop_bit 4 (b AND 0xf0) = drop_bit 4 b AND (0x0f :: byte)"
    by (simp add: drop_bit_and)
  then have "unat (drop_bit 4 (b AND 0xf0)) = unat (drop_bit 4 b) mod 16"
    by (simp only: lo_nibble)
  also have "unat (drop_bit 4 b) = unat b div 16"
    by (simp add: drop_bit_eq_div unat_div)
  finally show ?thesis
    using unsigned_less [of b, where 'a = nat] by simp
qed

lemma hex_asc_digit:
  "n < 16 \<Longrightarrow> isxdigit (hex_asc ! n) \<and> hex_to_bin (hex_asc ! n) = int n"
proof -
  assume "n < 16"
  then have "n \<in> set [0..<16]" by simp
  moreover have "list_all (\<lambda>n. isxdigit (hex_asc ! n) \<and> hex_to_bin (hex_asc ! n) = int n) [0..<16]"
    by code_simp
  ultimately show ?thesis by (simp add: list_all_iff)
qed

lemma nibble_bounds: "unat (b :: byte) div 16 < 16" "unat b mod 16 < 16"
  using unsigned_less [of b, where 'a = nat] by simp_all

lemma hex_asc_nth:
  "hex_asc_hi b = hex_asc ! (unat b div 16)" "hex_asc_lo b = hex_asc ! (unat b mod 16)"
  by (simp_all only: hex_asc_hi_def hex_asc_lo_def lo_nibble hi_nibble)

lemma hex_to_bin_hex_asc:
  "hex_to_bin (hex_asc_hi b) = int (unat b div 16)" "hex_to_bin (hex_asc_lo b) = int (unat b mod 16)"
  using hex_asc_digit [OF nibble_bounds(1)] hex_asc_digit [OF nibble_bounds(2)]
  by (simp_all only: hex_asc_nth)

lemma hex_asc_nonneg [simp]: "\<not> hex_to_bin (hex_asc_hi b) < 0" "\<not> hex_to_bin (hex_asc_lo b) < 0"
  by (simp_all only: hex_to_bin_hex_asc)

lemma isxdigit_hex_asc: "isxdigit (hex_asc_hi b)" "isxdigit (hex_asc_lo b)"
  using hex_asc_digit [OF nibble_bounds(1)] hex_asc_digit [OF nibble_bounds(2)]
  by (simp_all only: hex_asc_nth)

lemma hex_to_bin_range: "- 1 \<le> hex_to_bin c \<and> hex_to_bin c < 16"
  by (auto simp: hex_to_bin_def isdigit_def Let_def)

lemma hex_to_bin_isxdigit: "0 \<le> hex_to_bin c \<longleftrightarrow> isxdigit c"
proof (cases "isupper c")
  case True
  then have "code c + 32 < 256" by (auto simp: isupper_def)
  then have "code (tolower c) = code c + 32"
    using True by (simp add: tolower_def code_char_of)
  with True show ?thesis
    by (auto simp: hex_to_bin_def isxdigit_def isdigit_def isupper_def Let_def)
next
  case False
  then show ?thesis
    by (auto simp: hex_to_bin_def isxdigit_def isdigit_def isupper_def tolower_def Let_def)
qed

lemma or_nibbles:
  "0 \<le> lo \<Longrightarrow> lo < 16 \<Longrightarrow> push_bit 4 (hi :: int) OR lo = hi * 16 + lo"
proof -
  assume "0 \<le> lo" and "lo < 16"
  then have "take_bit 4 lo = lo"
    by (simp add: take_bit_int_eq_self_iff)
  then have "push_bit 4 hi OR lo = concat_bit 4 lo hi"
    by (simp add: concat_bit_def or.commute)
  also have "\<dots> = lo + push_bit 4 hi"
    using \<open>take_bit 4 lo = lo\<close> by (simp add: concat_bit_eq)
  finally show ?thesis by (simp add: push_bit_eq_mult)
qed

lemma hex_byte_value:
  "word_of_int (push_bit 4 (int (unat b div 16)) OR int (unat b mod 16)) = (b :: byte)"
proof -
  have "push_bit 4 (int (unat b div 16)) OR int (unat b mod 16)
      = int (unat b div 16) * 16 + int (unat b mod 16)"
    by (rule or_nibbles) simp_all
  also have "\<dots> = int (unat b div 16 * 16 + unat b mod 16)"
    by (simp only: of_nat_add of_nat_mult of_nat_numeral)
  finally have "push_bit 4 (int (unat b div 16)) OR int (unat b mod 16) = int (unat b)"
    by (simp only: div_mult_mod_eq)
  then show ?thesis
    by (simp only:) simp
qed

section \<open>The codec\<close>

text \<open>A byte written as two digits is read back; the digits are those \<open>isxdigit\<close> accepts.\<close>

lemma length_bin2hex [simp]: "length (bin2hex src) = 2 * length src"
  by (induction src) (simp_all add: hex_byte_pack_def)

lemma bin2hex_append [simp]: "bin2hex (xs @ ys) = bin2hex xs @ bin2hex ys"
  by (induction xs) simp_all

lemma bin2hex_isxdigit: "list_all isxdigit (bin2hex src)"
  by (induction src) (simp_all add: hex_byte_pack_def isxdigit_hex_asc)

lemma hex2bin_bin2hex:
  "off \<le> length dst \<Longrightarrow> hex2bin dst off (bin2hex src @ rest) (length src) = (0, memcpy_at dst off src)"
proof (induction src arbitrary: dst off)
  case Nil
  then show ?case by simp
next
  case (Cons b src)
  let ?dst = "memcpy_at dst off [b]"
  have "Suc off \<le> length ?dst"
    using Cons.prems by (simp add: memcpy_at_def)
  then have "hex2bin ?dst (Suc off) (bin2hex src @ rest) (length src) = (0, memcpy_at ?dst (Suc off) src)"
    by (rule Cons.IH)
  moreover have "memcpy_at ?dst (Suc off) src = memcpy_at dst off (b # src)"
    using memcpy_at_append [of off dst "[b]" src] Cons.prems by simp
  moreover have "word_of_int (push_bit 4 (hex_to_bin (hex_asc_hi b)) OR hex_to_bin (hex_asc_lo b)) = b"
    by (simp only: hex_to_bin_hex_asc hex_byte_value)
  ultimately show ?case
    by (simp add: hex_byte_pack_def Let_def
        del: push_bit_of_int)
qed

text \<open>\<open>hex2bin\<close> stays inside an array that has room for the bytes asked for.\<close>

lemma length_hex2bin:
  "off + count \<le> length dst \<Longrightarrow> length (snd (hex2bin dst off src count)) = length dst"
  by (induction dst off src count rule: hex2bin.induct) (auto simp: Let_def)

lemma hex2bin_result: "fst (hex2bin dst off src count) = 0 \<or> fst (hex2bin dst off src count) = - EINVAL"
  by (induction dst off src count rule: hex2bin.induct) (auto simp: Let_def)

text \<open>It succeeds exactly on strings of hexadecimal digits.\<close>

lemma all_less_2_Suc:
  "(\<forall>i < 2 * Suc n. P i) \<longleftrightarrow> P 0 \<and> P 1 \<and> (\<forall>i < 2 * n. P (2 + i))"
proof -
  have "i = 0 \<or> i = 1 \<or> (\<exists>j < 2 * n. i = 2 + j)" if "i < 2 * Suc n" for i
    using that by (cases i; cases "i - 1") auto
  then show ?thesis by auto
qed

lemma hex2bin_ok_iff:
  "fst (hex2bin dst off src count) = 0 \<longleftrightarrow> (\<forall>i < 2 * count. isxdigit (char_at src i))"
proof (induction dst off src count rule: hex2bin.induct)
  case (1 dst i src)
  then show ?case by simp
next
  case (2 dst i src count)
  then show ?case
    by (simp add: all_less_2_Suc Let_def char_at_drop hex_to_bin_isxdigit [symmetric] not_less
        del: mult_Suc_right)
qed

text \<open>The bytes a text of hexadecimal digits stands for.\<close>

fun hex_bytes :: "string \<Rightarrow> byte list" where
  "hex_bytes (a # b # s) = word_of_int (hex_to_bin a * 16 + hex_to_bin b) # hex_bytes s"
| "hex_bytes s = []"

lemma length_hex_bytes [simp]: "length (hex_bytes s) = length s div 2"
  by (induction s rule: hex_bytes.induct) simp_all

lemma hex2bin_hex_bytes:
  "list_all isxdigit s \<Longrightarrow> even (length s) \<Longrightarrow> off \<le> length dst \<Longrightarrow>
     hex2bin dst off (s @ rest) (length s div 2) = (0, memcpy_at dst off (hex_bytes s))"
proof (induction s arbitrary: dst off rule: hex_bytes.induct)
  case (1 a b s)
  define w :: byte where "w = word_of_int (hex_to_bin a * 16 + hex_to_bin b)"
  have a: "0 \<le> hex_to_bin a" and b: "0 \<le> hex_to_bin b"
    using "1.prems" by (simp_all add: hex_to_bin_isxdigit)
  have w: "word_of_int (push_bit 4 (hex_to_bin a) OR hex_to_bin b) = w"
    unfolding w_def using or_nibbles [OF b] hex_to_bin_range [of b] by (simp only:)
  have "hex2bin (memcpy_at dst off [w]) (Suc off) (s @ rest) (length s div 2)
      = (0, memcpy_at (memcpy_at dst off [w]) (Suc off) (hex_bytes s))"
    using "1.prems" by (intro "1.IH") (simp_all add: memcpy_at_def)
  also have "memcpy_at (memcpy_at dst off [w]) (Suc off) (hex_bytes s) = memcpy_at dst off (w # hex_bytes s)"
    using memcpy_at_append [of off dst "[w]" "hex_bytes s"] "1.prems"(3) by simp
  finally have "hex2bin dst off ((a # b # s) @ rest) (Suc (length s div 2)) = (0, memcpy_at dst off (w # hex_bytes s))"
    using a b w by (simp add: Let_def del: push_bit_of_int)
  moreover have "hex_bytes (a # b # s) = w # hex_bytes s"
    by (simp only: hex_bytes.simps w_def)
  ultimately show ?case by simp
qed simp_all

lemma hex_bytes_bin2hex [simp]: "hex_bytes (bin2hex bs) = bs"
proof (induction bs)
  case Nil
  then show ?case by simp
next
  case (Cons b bs)
  have "word_of_int (hex_to_bin (hex_asc_hi b) * 16 + hex_to_bin (hex_asc_lo b)) = b"
    using hex_byte_value [of b] or_nibbles [of "int (unat b mod 16)" "int (unat b div 16)"]
    by (simp only: hex_to_bin_hex_asc)
  with Cons show ?case by (simp add: hex_byte_pack_def)
qed

section \<open>Bounded search\<close>

lemma strnchr_Some:
  "strnchr s n c = Some i \<Longrightarrow> i < n \<and> char_at s i = c \<and> (\<forall>j < i. char_at s j \<noteq> c \<and> char_at s j \<noteq> NUL)"
proof (induction s n c arbitrary: i rule: strnchr.induct)
  case (1 s c)
  then show ?case by simp
next
  case (2 s count c)
  show ?case
  proof (cases i)
    case 0
    with 2 show ?thesis by (auto split: if_splits)
  next
    case (Suc k)
    with 2 have "strnchr (drop 1 s) count c = Some k" and h: "char_at s 0 \<noteq> c \<and> char_at s 0 \<noteq> NUL"
      by (auto split: if_splits)
    with 2 have "k < count \<and> char_at (drop 1 s) k = c \<and>
        (\<forall>j < k. char_at (drop 1 s) j \<noteq> c \<and> char_at (drop 1 s) j \<noteq> NUL)"
      by blast
    with h Suc show ?thesis
      by (auto simp: char_at_drop less_Suc_eq_0_disj)
  qed
qed

lemma strnchr_append:
  "c \<notin> set xs \<Longrightarrow> NUL \<notin> set xs \<Longrightarrow> length xs < n \<Longrightarrow> strnchr (xs @ c # ys) n c = Some (length xs)"
proof (induction xs arbitrary: n)
  case Nil
  then show ?case by (cases n) simp_all
next
  case (Cons x xs)
  then show ?case by (cases n) auto
qed

lemma strnchr_None:
  "c \<notin> set (take n s) \<Longrightarrow> c \<noteq> NUL \<Longrightarrow> strnchr s n c = None"
proof (induction s n c rule: strnchr.induct)
  case (1 s c)
  then show ?case by simp
next
  case (2 s count c)
  then show ?case by (cases s) auto
qed

lemma strnchr_char_at_None: "strnchr s n c = None \<Longrightarrow> i < n \<Longrightarrow> char_at s i = c \<Longrightarrow> \<exists>j < i. char_at s j = NUL"
proof (induction s n c arbitrary: i rule: strnchr.induct)
  case (1 s c)
  then show ?case by simp
next
  case (2 s count c)
  show ?case
  proof (cases i)
    case 0
    with 2 show ?thesis by (auto split: if_splits)
  next
    case (Suc k)
    with 2 show ?thesis
      by (cases "char_at s 0 = NUL") (fastforce simp: char_at_drop split: if_splits)+
  qed
qed

section \<open>Truncation\<close>

lemma scnprintf_fits: "length text < sz \<Longrightarrow> scnprintf sz text = text"
  by (simp add: scnprintf_def)

lemma length_scnprintf: "0 < sz \<Longrightarrow> length (scnprintf sz text) < sz"
  by (simp add: scnprintf_def)

end
