(* ===== verification/Duration.thy ===== *)
theory Duration
  imports Kernel_Utils
begin

text \<open>
  The timer periods of \<open>hwe_utils.c\<close>: \<open>hwe_str_to_time\<close> parses \<open>1h2m3s4ms\<close> into milliseconds,
  \<open>hwe_time_to_str\<close> prints them. The table \<open>pattern\<close> is the C array without its terminating null
  entry, so \<open>p->unit\<close> is "the list is not empty". A pointer into the string is the rest of the
  string from there; the parser's loop returns the final \<open>ret\<close>, \<open>s\<close> and \<open>ep\<close>. The loop moves
  \<open>p\<close> forward at least one entry in each round, so it ends after at most four rounds.
\<close>

section \<open>Operations\<close>

record pattern_struct =
  unit :: string
  max_value :: nat
  mult :: nat

definition pattern :: "pattern_struct list" where
  "pattern =
     [\<lparr>unit = ''h'', max_value = INT_MAX, mult = 60 * 60 * 1000\<rparr>,
      \<lparr>unit = ''m'', max_value = 59, mult = 60 * 1000\<rparr>,
      \<lparr>unit = ''s'', max_value = 59, mult = 1 * 1000\<rparr>,
      \<lparr>unit = ''ms'', max_value = 999, mult = 1\<rparr>]"

definition IS_SEP :: "char \<Rightarrow> bool" where
  "IS_SEP c \<longleftrightarrow> c = NUL \<or> c = CHR '','' \<or> c = CHR ''=''"

definition unit_matches :: "string \<Rightarrow> pattern_struct \<Rightarrow> bool" where
  "unit_matches ep p \<longleftrightarrow>
     take (length (unit p)) ep = unit p \<and> \<not> isalpha (char_at ep (length (unit p)))"

function str_to_time_loop ::
  "klib \<Rightarrow> string \<Rightarrow> string \<Rightarrow> pattern_struct list \<Rightarrow> nat \<Rightarrow> nat \<times> string \<times> string" where
  "str_to_time_loop K str s ps ret =
     (let (n, ep) = kl_strtoull K s
      in if ep = s then (0, s, ep)
         else
           (case dropWhile (\<lambda>p. \<not> unit_matches ep p) ps of
              [] \<Rightarrow> (0, s, s)
            | p # ps' \<Rightarrow>
                if n > max_value p then (0, s, s)
                else
                  let ret' = ret + n * mult p
                  in if ret' > UINT_MAX then (0, s, str)
                     else
                       let s' = drop (length (unit p)) ep
                       in if ps' \<noteq> [] \<and> \<not> IS_SEP (char_at s' 0)
                          then str_to_time_loop K str s' ps' ret'
                          else (ret', s', s')))"
  by pat_completeness auto
termination
proof (relation "measure (\<lambda>(K, str, s, ps, ret). length ps)", goal_cases)
  case 1
  show ?case by simp
next
  case (2 K str s ps ret x n ep p ps')
  then have "length (p # ps') \<le> length ps"
    by (metis length_dropWhile_le)
  then show ?case by simp
qed

declare str_to_time_loop.simps [simp del]

definition hwe_str_to_time :: "klib \<Rightarrow> string \<Rightarrow> nat \<times> string" where
  "hwe_str_to_time K str =
     (let (ret, s, ep) = str_to_time_loop K str str pattern 0
      in (if IS_SEP (char_at s 0) then ret else 0, ep))"

definition hwe_time_to_str :: "nat \<Rightarrow> nat \<Rightarrow> string" where
  "hwe_time_to_str sz t =
     (let ms = t mod 1000;
          t = t div 1000;
          h = t div 3600;
          m = (t - 3600 * h) div 60;
          s = t - 3600 * h - m * 60;
          out = (if h \<noteq> 0 then scnprintf sz (dec_str h @ ''h'') else []);
          out = out @ (if m \<noteq> 0 \<or> h \<noteq> 0 \<and> (s \<noteq> 0 \<or> ms \<noteq> 0)
                       then scnprintf (sz - length out) (dec_str m @ ''m'') else []);
          out = out @ (if s \<noteq> 0 \<or> (h \<noteq> 0 \<or> m \<noteq> 0) \<and> ms \<noteq> 0
                       then scnprintf (sz - length out) (dec_str s @ ''s'') else []);
          out = out @ (if ms \<noteq> 0
                       then scnprintf (sz - length out) (dec_str ms @ ''ms'') else [])
      in out)"

section \<open>The grammar of durations\<close>

text \<open>
  A duration is a list of items, each a string of digits and a unit; the units follow the
  order of the table, each at most once. \<open>duration_value\<close> is the milliseconds it denotes.
\<close>

type_synonym item = "string \<times> pattern_struct"

definition render :: "item list \<Rightarrow> string" where
  "render its = concat (map (\<lambda>(ds, u). ds @ unit u) its)"

definition duration_value :: "item list \<Rightarrow> nat" where
  "duration_value its = (\<Sum>(ds, u)\<leftarrow>its. dec_val ds * mult u)"

fun in_order :: "item list \<Rightarrow> pattern_struct list \<Rightarrow> bool" where
  "in_order [] ps = True"
| "in_order ((ds, u) # its) ps = (u \<in> set ps \<and> in_order its (tl (dropWhile (\<lambda>p. p \<noteq> u) ps)))"

definition item_ok :: "item \<Rightarrow> bool" where
  "item_ok it \<longleftrightarrow> fst it \<noteq> [] \<and> list_all isdigit (fst it) \<and> dec_val (fst it) \<le> max_value (snd it)"

definition duration_ok :: "item list \<Rightarrow> bool" where
  "duration_ok its \<longleftrightarrow>
     its \<noteq> [] \<and> in_order its pattern \<and> list_all item_ok its \<and> duration_value its \<le> UINT_MAX"

section \<open>The parser accepts every duration\<close>

lemma pattern_units:
  "p \<in> set pattern \<Longrightarrow> unit p \<in> {''h'', ''m'', ''s'', ''ms''}"
  by (auto simp: pattern_def)

lemma unit_not_digit: "u \<in> set pattern \<Longrightarrow> \<not> isdigit (char_at (unit u @ r) 0)"
  by (auto simp: pattern_def isdigit_def)

lemma isalpha_unit_chars [simp]:
  "isalpha (CHR ''s'')" "isalpha (CHR ''m'')" "isalpha (CHR ''h'')"
  by code_simp+

lemma unit_matches_string:
  assumes "unit p \<in> {''h'', ''m'', ''s'', ''ms''}" and "v \<in> {''h'', ''m'', ''s'', ''ms''}"
    and "\<not> isalpha (char_at r 0)"
  shows "unit_matches (v @ r) p \<longleftrightarrow> unit p = v"
  using assms by (cases r) (auto simp: unit_matches_def)

lemma pattern_unit_inject:
  "p \<in> set pattern \<Longrightarrow> u \<in> set pattern \<Longrightarrow> unit p = unit u \<Longrightarrow> p = u"
  by (simp only: pattern_def list.set insert_iff empty_iff) (elim disjE; simp)

lemma unit_matches_unit:
  "p \<in> set pattern \<Longrightarrow> u \<in> set pattern \<Longrightarrow> \<not> isalpha (char_at r 0) \<Longrightarrow>
     unit_matches (unit u @ r) p \<longleftrightarrow> p = u"
  using unit_matches_string [OF pattern_units pattern_units] pattern_unit_inject by blast

lemma max_value_less: "u \<in> set pattern \<Longrightarrow> n \<le> max_value u \<Longrightarrow> n < 2 ^ 64"
  by (auto simp: pattern_def)

lemma isdigit_not_alpha: "isdigit c \<Longrightarrow> \<not> isalpha c"
  by (auto simp: isdigit_def isalpha_def isupper_def islower_def)

lemma isdigit_not_sep: "isdigit c \<Longrightarrow> \<not> IS_SEP c"
  by (auto simp: isdigit_def IS_SEP_def NUL_def)

lemma sep_not_alpha: "IS_SEP c \<Longrightarrow> \<not> isalpha c"
  by (auto simp: IS_SEP_def isalpha_def isupper_def islower_def NUL_def)

lemma find_unit:
  "set ps \<subseteq> set pattern \<Longrightarrow> u \<in> set ps \<Longrightarrow> \<not> isalpha (char_at r 0) \<Longrightarrow>
     dropWhile (\<lambda>p. \<not> unit_matches (unit u @ r) p) ps = u # tl (dropWhile (\<lambda>p. p \<noteq> u) ps)"
proof (induction ps)
  case Nil
  then show ?case by simp
next
  case (Cons p ps)
  then have "u \<in> set pattern" by auto
  with Cons show ?case by (auto simp: unit_matches_unit)
qed

lemma render_Cons: "render ((ds, u) # its) = ds @ unit u @ render its"
  by (simp add: render_def)

lemma render_first:
  "list_all item_ok its \<Longrightarrow> its \<noteq> [] \<Longrightarrow> isdigit (char_at (render its @ r) 0)"
  by (cases its; cases "fst (hd its)") (auto simp: render_def item_ok_def split: prod.splits)

lemma set_tl_dropWhile: "set (tl (dropWhile P xs)) \<subseteq> set xs"
proof -
  have "set (tl ys) \<subseteq> set ys" for ys :: "'a list"
    by (cases ys) auto
  from this [of "dropWhile P xs"] show ?thesis
    by (auto dest: set_dropWhileD)
qed

lemma str_to_time_loop_complete:
  assumes K: "strtoull_ok (kl_strtoull K)" and sep: "IS_SEP (char_at rest 0)"
  shows "its \<noteq> [] \<Longrightarrow> in_order its ps \<Longrightarrow> list_all item_ok its \<Longrightarrow> set ps \<subseteq> set pattern \<Longrightarrow>
    ret + duration_value its \<le> UINT_MAX \<Longrightarrow>
    str_to_time_loop K str (render its @ rest) ps ret = (ret + duration_value its, rest, rest)"
proof (induction its arbitrary: ps ret)
  case Nil
  then show ?case by simp
next
  case (Cons it its)
  obtain ds u where it: "it = (ds, u)" by (cases it)
  define r where "r = render its @ rest"
  define ps' where "ps' = tl (dropWhile (\<lambda>p. p \<noteq> u) ps)"
  have u: "u \<in> set ps" "u \<in> set pattern" and ord: "in_order its ps'"
    using Cons.prems by (auto simp: it ps'_def)
  have ds: "ds \<noteq> []" "list_all isdigit ds" "dec_val ds \<le> max_value u" 
    using Cons.prems by (auto simp: it item_ok_def)
  have oks: "list_all item_ok its" using Cons.prems by simp
  have r0: "its \<noteq> [] \<Longrightarrow> isdigit (char_at r 0)" and r1: "its = [] \<Longrightarrow> r = rest"
    using render_first [OF oks] by (simp_all add: r_def render_def)
  then have "\<not> isalpha (char_at r 0)"
    using sep_not_alpha [OF sep] isdigit_not_alpha by blast
  then have dw: "dropWhile (\<lambda>p. \<not> unit_matches (unit u @ r) p) ps = u # ps'"
    using Cons.prems u unfolding ps'_def by (intro find_unit) auto
  have str: "kl_strtoull K (ds @ unit u @ r) = (dec_val ds, unit u @ r)"
    using K ds u unit_not_digit max_value_less by (auto simp: strtoull_ok_def)
  have val: "ret + dec_val ds * mult u + duration_value its = ret + duration_value (it # its)"
    by (simp add: it duration_value_def)
  have step: "str_to_time_loop K str (render (it # its) @ rest) ps ret =
      (if ps' \<noteq> [] \<and> \<not> IS_SEP (char_at r 0)
       then str_to_time_loop K str r ps' (ret + dec_val ds * mult u)
       else (ret + dec_val ds * mult u, r, r))"
    using Cons.prems(5) val ds
    by (subst str_to_time_loop.simps) (simp add: it render_Cons r_def [symmetric] str dw Let_def)
  show ?case
  proof (cases "its = []")
    case True
    then show ?thesis using step sep r1 val by (simp add: duration_value_def)
  next
    case False
    have "ps' \<noteq> []" using ord False by (cases its) auto
    then have "str_to_time_loop K str (render (it # its) @ rest) ps ret
        = str_to_time_loop K str (render its @ rest) ps' (ret + dec_val ds * mult u)"
      using step r0 [OF False] isdigit_not_sep by (simp add: r_def)
    also have "\<dots> = (ret + dec_val ds * mult u + duration_value its, rest, rest)"
      using False ord oks Cons.prems(4,5) val set_tl_dropWhile [of "\<lambda>p. p \<noteq> u" ps]
      by (intro Cons.IH) (auto simp: ps'_def)
    finally show ?thesis by (simp only: val)
  qed
qed

lemma hwe_str_to_time_complete:
  assumes "strtoull_ok (kl_strtoull K)" and "IS_SEP (char_at rest 0)" and "duration_ok its"
  shows "hwe_str_to_time K (render its @ rest) = (duration_value its, rest)"
  using str_to_time_loop_complete [OF assms(1,2), of its pattern 0 "render its @ rest"] assms
  by (simp add: hwe_str_to_time_def duration_ok_def)

section \<open>Bounds\<close>

text \<open>
  Whatever the string, a result other than 0 fits an \<open>unsigned\<close>; the arithmetic of the loop
  stays below \<open>2 ^ 64\<close>, so the \<open>unsigned long long\<close> accumulator never wraps.
\<close>

lemma str_to_time_loop_bound:
  "ret \<le> UINT_MAX \<Longrightarrow> fst (str_to_time_loop K str s ps ret) \<le> UINT_MAX"
proof (induction K str s ps ret rule: str_to_time_loop.induct)
  case (1 K str s ps ret)
  show ?case
    using 1 by (subst str_to_time_loop.simps) (auto simp: Let_def split: prod.splits list.splits)
qed

lemma hwe_str_to_time_bound: "fst (hwe_str_to_time K str) \<le> UINT_MAX"
  using str_to_time_loop_bound [of 0 K str str pattern]
  by (auto simp: hwe_str_to_time_def split: prod.splits)

lemma accumulator_no_wrap:
  "p \<in> set pattern \<Longrightarrow> n \<le> max_value p \<Longrightarrow> ret \<le> UINT_MAX \<Longrightarrow> ret + n * mult p < 2 ^ 64"
  by (auto simp: pattern_def)

text \<open>A result other than 0 leaves the end pointer at a separator, inside the string.\<close>

lemma str_to_time_loop_end:
  "str_to_time_loop K str s ps ret = (t, s', ep) \<Longrightarrow> t \<noteq> 0 \<Longrightarrow> ep = s'"
proof (induction K str s ps ret rule: str_to_time_loop.induct)
  case (1 K str s ps ret)
  show ?case
    using 1 by (subst (asm) (2) str_to_time_loop.simps)
      (auto simp: Let_def split: prod.splits list.splits if_splits)
qed

lemma hwe_str_to_time_sep:
  "hwe_str_to_time K str = (t, e) \<Longrightarrow> t \<noteq> 0 \<Longrightarrow> IS_SEP (char_at e 0)"
  by (auto simp: hwe_str_to_time_def split: prod.splits if_splits dest: str_to_time_loop_end)

section \<open>Printing\<close>

definition unit_h :: pattern_struct where
  "unit_h = \<lparr>unit = ''h'', max_value = INT_MAX, mult = 60 * 60 * 1000\<rparr>"

definition unit_m :: pattern_struct where
  "unit_m = \<lparr>unit = ''m'', max_value = 59, mult = 60 * 1000\<rparr>"

definition unit_s :: pattern_struct where
  "unit_s = \<lparr>unit = ''s'', max_value = 59, mult = 1 * 1000\<rparr>"

definition unit_ms :: pattern_struct where
  "unit_ms = \<lparr>unit = ''ms'', max_value = 999, mult = 1\<rparr>"

lemmas unit_defs = unit_h_def unit_m_def unit_s_def unit_ms_def

text \<open>The items \<open>hwe_time_to_str\<close> prints for given hours, minutes, seconds and milliseconds.\<close>

definition hms_items :: "nat \<Rightarrow> nat \<Rightarrow> nat \<Rightarrow> nat \<Rightarrow> item list" where
  "hms_items h m s ms =
     (if h \<noteq> 0 then [(dec_str h, unit_h)] else []) @
     (if m \<noteq> 0 \<or> h \<noteq> 0 \<and> (s \<noteq> 0 \<or> ms \<noteq> 0) then [(dec_str m, unit_m)] else []) @
     (if s \<noteq> 0 \<or> (h \<noteq> 0 \<or> m \<noteq> 0) \<and> ms \<noteq> 0 then [(dec_str s, unit_s)] else []) @
     (if ms \<noteq> 0 then [(dec_str ms, unit_ms)] else [])"

definition time_items :: "nat \<Rightarrow> item list" where
  "time_items t =
     hms_items (t div 1000 div 3600) (t div 1000 mod 3600 div 60) (t div 1000 mod 3600 mod 60)
       (t mod 1000)"

lemma pattern_eq_units: "pattern = [unit_h, unit_m, unit_s, unit_ms]"
  by (simp add: pattern_def unit_defs)

lemma units_distinct [simp]:
  "unit_h \<noteq> unit_m" "unit_h \<noteq> unit_s" "unit_h \<noteq> unit_ms" "unit_m \<noteq> unit_h" "unit_m \<noteq> unit_s"
  "unit_m \<noteq> unit_ms" "unit_s \<noteq> unit_h" "unit_s \<noteq> unit_m" "unit_s \<noteq> unit_ms" "unit_ms \<noteq> unit_h"
  "unit_ms \<noteq> unit_m" "unit_ms \<noteq> unit_s"
  by (simp_all add: unit_defs)

lemma hms_items_in_order: "in_order (hms_items h m s ms) pattern"
  by (simp add: hms_items_def pattern_eq_units)

lemma hms_items_ok:
  "h \<le> INT_MAX \<Longrightarrow> m \<le> 59 \<Longrightarrow> s \<le> 59 \<Longrightarrow> ms \<le> 999 \<Longrightarrow> list_all item_ok (hms_items h m s ms)"
  by (simp add: hms_items_def item_ok_def dec_str_digits unit_defs)

lemma hms_items_value:
  "duration_value (hms_items h m s ms) = h * 3600000 + m * 60000 + s * 1000 + ms"
  by (simp add: hms_items_def duration_value_def unit_defs)

lemma time_items_value: "duration_value (time_items t) = t"
proof -
  have "t = t div 1000 * 1000 + t mod 1000"
    by (simp only: div_mult_mod_eq)
  moreover have "t div 1000 = t div 1000 div 3600 * 3600 + t div 1000 mod 3600"
    by (simp only: div_mult_mod_eq)
  moreover have "t div 1000 mod 3600 = t div 1000 mod 3600 div 60 * 60 + t div 1000 mod 3600 mod 60"
    by (simp only: div_mult_mod_eq)
  ultimately show ?thesis
    unfolding time_items_def hms_items_value by linarith
qed

lemma time_items_not_Nil: "0 < t \<Longrightarrow> time_items t \<noteq> []"
  using time_items_value [of t] by (cases "time_items t") (auto simp: duration_value_def)

lemma time_items_duration: "0 < t \<Longrightarrow> t \<le> UINT_MAX \<Longrightarrow> duration_ok (time_items t)"
proof -
  assume t: "0 < t" "t \<le> UINT_MAX"
  have "t div 1000 div 3600 \<le> t"
    by (meson div_le_dividend le_trans)
  moreover have "t \<le> UINT_MAX" by (rule t)
  ultimately have "t div 1000 div 3600 \<le> INT_MAX" by linarith
  moreover have "t div 1000 mod 3600 div 60 \<le> 59"
    by (simp add: less_mult_imp_div_less [of _ 60 60, simplified] less_Suc_eq_le [symmetric])
  ultimately have "list_all item_ok (time_items t)"
    unfolding time_items_def by (intro hms_items_ok) (simp_all add: less_Suc_eq_le [symmetric])
  with t show ?thesis
    by (simp add: duration_ok_def time_items_not_Nil time_items_value)
      (simp add: time_items_def hms_items_in_order)
qed

lemma render_append: "render (xs @ ys) = render xs @ render ys"
  by (simp add: render_def)

lemma render_hms:
  "render (hms_items h m s ms) =
     (if h \<noteq> 0 then dec_str h @ ''h'' else []) @
     (if m \<noteq> 0 \<or> h \<noteq> 0 \<and> (s \<noteq> 0 \<or> ms \<noteq> 0) then dec_str m @ ''m'' else []) @
     (if s \<noteq> 0 \<or> (h \<noteq> 0 \<or> m \<noteq> 0) \<and> ms \<noteq> 0 then dec_str s @ ''s'' else []) @
     (if ms \<noteq> 0 then dec_str ms @ ''ms'' else [])"
  by (simp add: hms_items_def render_def unit_defs)

lemma length_if_le: "length xs \<le> n \<Longrightarrow> length (if b then xs else []) \<le> n"
  by simp

lemma length_time_parts:
  assumes "t \<le> UINT_MAX"
  shows "length (dec_str (t div 1000 div 3600)) \<le> 4"
    and "length (dec_str (t div 1000 mod 3600 div 60)) \<le> 2"
    and "length (dec_str (t div 1000 mod 3600 mod 60)) \<le> 2"
    and "length (dec_str (t mod 1000)) \<le> 3"
proof -
  have "t div 1000 \<le> 4294967" using assms by linarith
  then have "t div 1000 div 3600 < 10000" by linarith
  then have "t div 1000 div 3600 < 10 ^ 4" by simp
  then show "length (dec_str (t div 1000 div 3600)) \<le> 4" by (intro length_dec_str) simp_all
  have "t div 1000 mod 3600 div 60 < 60"
    by (intro less_mult_imp_div_less) simp
  then show "length (dec_str (t div 1000 mod 3600 div 60)) \<le> 2" by (intro length_dec_str) simp_all
  have "t div 1000 mod 3600 mod 60 < 60" by simp
  then show "length (dec_str (t div 1000 mod 3600 mod 60)) \<le> 2" by (intro length_dec_str) simp_all
  show "length (dec_str (t mod 1000)) \<le> 3" by (intro length_dec_str) simp_all
qed

lemma scnprintf_chain:
  assumes "length a \<le> 5" "length b \<le> 3" "length c \<le> 3" "length d \<le> 5" and "16 < sz"
  shows "scnprintf sz a = a" and "length o1 \<le> 5 \<Longrightarrow> scnprintf (sz - length o1) b = b"
    and "length o2 \<le> 8 \<Longrightarrow> scnprintf (sz - length o2) c = c"
    and "length o3 \<le> 11 \<Longrightarrow> scnprintf (sz - length o3) d = d"
  using assms by (auto intro!: scnprintf_fits)

text \<open>With room for 17 characters nothing is truncated: the text is the rendered duration.\<close>

lemma hwe_time_to_str_render:
  assumes t: "t \<le> UINT_MAX" and sz: "16 < sz"
  shows "hwe_time_to_str sz t = render (time_items t)"
proof -
  define h m s ms where "h = t div 1000 div 3600" and "m = t div 1000 mod 3600 div 60"
    and "s = t div 1000 mod 3600 mod 60" and "ms = t mod 1000"
  have len: "length (dec_str h @ ''h'') \<le> 5" "length (dec_str m @ ''m'') \<le> 3"
    "length (dec_str s @ ''s'') \<le> 3" "length (dec_str ms @ ''ms'') \<le> 5"
    using length_time_parts [OF t] by (simp_all add: h_def m_def s_def ms_def)
  note fits = scnprintf_chain [OF len sz]
  define o1 where "o1 = (if h \<noteq> 0 then dec_str h @ ''h'' else [])"
  define o2 where "o2 = o1 @ (if m \<noteq> 0 \<or> h \<noteq> 0 \<and> (s \<noteq> 0 \<or> ms \<noteq> 0) then dec_str m @ ''m'' else [])"
  define o3 where "o3 = o2 @ (if s \<noteq> 0 \<or> (h \<noteq> 0 \<or> m \<noteq> 0) \<and> ms \<noteq> 0 then dec_str s @ ''s'' else [])"
  have lens: "length o1 \<le> 5" "length o2 \<le> 8" "length o3 \<le> 11"
    using length_if_le [OF len(1), of "h \<noteq> 0"]
      length_if_le [OF len(2), of "m \<noteq> 0 \<or> h \<noteq> 0 \<and> (s \<noteq> 0 \<or> ms \<noteq> 0)"]
      length_if_le [OF len(3), of "s \<noteq> 0 \<or> (h \<noteq> 0 \<or> m \<noteq> 0) \<and> ms \<noteq> 0"]
    unfolding o3_def o2_def length_append o1_def [symmetric] by linarith+
  have "hwe_time_to_str sz t = o3 @ (if ms \<noteq> 0 then dec_str ms @ ''ms'' else [])"
    unfolding hwe_time_to_str_def Let_def minus_mult_div_eq_mod minus_div_mult_eq_mod
      h_def [symmetric] ms_def [symmetric] m_def [symmetric] s_def [symmetric] fits(1)
      o1_def [symmetric] fits(2) [OF lens(1)] o2_def [symmetric] fits(3) [OF lens(2)]
      o3_def [symmetric] fits(4) [OF lens(3)] ..
  also have "\<dots> = render (time_items t)"
    by (simp add: time_items_def render_hms o1_def o2_def o3_def h_def m_def s_def ms_def)
  finally show ?thesis .
qed

lemma hwe_time_round_trip:
  assumes "strtoull_ok (kl_strtoull K)" "IS_SEP (char_at rest 0)" "0 < t" "t \<le> UINT_MAX" "16 < sz"
  shows "hwe_str_to_time K (hwe_time_to_str sz t @ rest) = (t, rest)"
  using hwe_str_to_time_complete [OF assms(1,2) time_items_duration [OF assms(3,4)]]
    hwe_time_to_str_render [OF assms(4,5)] by (simp add: time_items_value)

lemma length_render_hms:
  assumes "length (dec_str h) \<le> 4" "length (dec_str m) \<le> 2" "length (dec_str s) \<le> 2"
    "length (dec_str ms) \<le> 3"
  shows "length (render (hms_items h m s ms)) \<le> 16"
proof -
  have "length (dec_str h @ ''h'') \<le> 5" "length (dec_str m @ ''m'') \<le> 3"
    "length (dec_str s @ ''s'') \<le> 3" "length (dec_str ms @ ''ms'') \<le> 5"
    using assms by simp_all
  note len = this [THEN length_if_le]
  have "length (render (hms_items h m s ms)) \<le> 5 + (3 + (3 + 5))"
    unfolding render_hms length_append by (intro add_mono len)
  then show ?thesis by simp
qed

lemma length_hwe_time_to_str: "t \<le> UINT_MAX \<Longrightarrow> 16 < sz \<Longrightarrow> length (hwe_time_to_str sz t) \<le> 16"
  unfolding hwe_time_to_str_render time_items_def
  by (intro length_render_hms length_time_parts)

text \<open>The text starts with a digit and holds only digits and unit letters.\<close>

lemma duration_chars: "list_all item_ok its \<Longrightarrow> set (map snd its) \<subseteq> set pattern \<Longrightarrow>
    c \<in> set (render its) \<Longrightarrow> isdigit c \<or> c \<in> {CHR ''h'', CHR ''m'', CHR ''s''}"
proof (induction its)
  case Nil
  then show ?case by (simp add: render_def)
next
  case (Cons it its)
  obtain ds u where it: "it = (ds, u)" by (cases it)
  have "set (unit u) \<subseteq> {CHR ''h'', CHR ''m'', CHR ''s''}"
    using Cons.prems(2) pattern_units [of u] by (auto simp: it)
  with Cons show ?case
    by (auto simp: it render_Cons item_ok_def list_all_iff)
qed

lemma in_order_units: "in_order its ps \<Longrightarrow> set (map snd its) \<subseteq> set ps"
proof (induction its ps rule: in_order.induct)
  case (1 ps)
  then show ?case by simp
next
  case (2 ds u its ps)
  then show ?case
    using set_tl_dropWhile [of "\<lambda>p. p \<noteq> u" ps] by auto
qed

end
