(* ===== verification/Pair.thy ===== *)
theory Pair
  imports Iface Duration
begin

text \<open>
  The request-response pair of \<open>hwemu.h\<close> and its text form (\<open>str_to_pair\<close>, \<open>pair_to_str\<close>,
  \<open>find_pair\<close>, \<open>get_pair_at_index\<close> of \<open>hwe_utils.c\<close>). The arrays \<open>req\<close> and \<open>resp\<close> keep their C
  size; \<open>req_size\<close> and \<open>resp_size\<close> say how much of them counts. The list links and the \<open>sysfs\<close>
  attribute of the C struct have no counterpart: a pair is an element of its device's list,
  which is also what its back pointer \<open>dev\<close> says. \<open>str_to_pair\<close> takes the freshly allocated
  struct, whose contents are arbitrary, and returns an error text or the struct filled in.

  What a pair means is its \<open>pair_view\<close>: a reply to a request, or a packet sent with a period.
\<close>

section \<open>Data\<close>

record hwe_pair =
  req :: "byte list"
  req_size :: nat
  resp :: "byte list"
  resp_size :: nat
  index :: nat
  filename :: string
  async_rx :: bool
  period_ms :: nat
  period :: ulong
  time :: ulong

definition pair_buf_ok :: "hwe_pair \<Rightarrow> bool" where
  "pair_buf_ok p \<longleftrightarrow> length (req p) = HWE_MAX_REQUEST \<and> length (resp p) = HWE_MAX_RESPONSE"

section \<open>Parsing\<close>

definition is_hex_str :: "string \<Rightarrow> nat \<Rightarrow> bool" where
  "is_hex_str str sz \<longleftrightarrow> list_all (\<lambda>i. isxdigit (char_at str i)) [0..<sz]"

definition str_to_pair_request :: "klib \<Rightarrow> string \<Rightarrow> nat \<Rightarrow> hwe_pair \<Rightarrow> string + hwe_pair" where
  "str_to_pair_request K s sz pair =
     (if is_hex_str s sz then
        if sz > HWE_MAX_REQUEST * 2 then Inl ''request string too long''
        else if odd sz then Inl ''odd number of characters in request string''
        else
          let (err, bs) = hex2bin (req pair) 0 s (sz div 2)
          in if err \<noteq> 0 then Inl ''invalid character in request string''
             else Inr (pair\<lparr>req := bs, req_size := sz div 2, async_rx := False\<rparr>)
      else
        let s = (if take 6 s = ''timer:'' then drop 6 s else s);
            (t, e) = hwe_str_to_time K s
        in if t = 0 \<or> char_at e 0 \<noteq> CHR ''='' then Inl ''invalid data definition''
           else Inr (pair\<lparr>req_size := 0, async_rx := True, period_ms := t,
                  period := kl_msecs_to_jiffies K t, time := 0\<rparr>))"

definition str_to_pair_response :: "string \<Rightarrow> nat \<Rightarrow> hwe_pair \<Rightarrow> string + hwe_pair" where
  "str_to_pair_response s sz pair =
     (let sz = (case strnchr s sz (CHR 0x0A) of Some e \<Rightarrow> e | None \<Rightarrow> sz)
      in if sz = 0 then Inl ''empty response''
         else if sz > HWE_MAX_RESPONSE * 2 then Inl ''response string too long''
         else if odd sz then Inl ''odd number of characters in response string''
         else
           let (err, bs) = hex2bin (resp pair) 0 s (sz div 2)
           in if err \<noteq> 0 then Inl ''invalid character in response string''
              else Inr (pair\<lparr>resp := bs, resp_size := sz div 2\<rparr>))"

definition str_to_pair :: "klib \<Rightarrow> string \<Rightarrow> nat \<Rightarrow> hwe_pair \<Rightarrow> string + hwe_pair" where
  "str_to_pair K str str_size pair =
     (if str_size = 0 then Inl ''empty string''
      else
        (case strnchr str str_size (CHR ''='') of
           None \<Rightarrow> Inl (''missing '' @ [CHR 0x27, CHR ''='', CHR 0x27])
         | Some sz \<Rightarrow>
             if sz = 0 then Inl ''empty request''
             else
               (case str_to_pair_request K str sz pair of
                  Inl err \<Rightarrow> Inl err
                | Inr pair \<Rightarrow>
                    str_to_pair_response (drop (sz + 1) str) (str_size - (sz + 1)) pair)))"

section \<open>Printing and searching\<close>

definition pair_to_str :: "hwe_pair \<Rightarrow> string" where
  "pair_to_str pair =
     (if \<not> async_rx pair \<and> (req_size pair < 1 \<or> req_size pair > HWE_MAX_REQUEST)
      then ''error: request size out of valid range''
      else if resp_size pair < 1 \<or> resp_size pair > HWE_MAX_RESPONSE
      then ''error: response size out of valid range''
      else
        (if async_rx pair
         then ''timer:'' @ hwe_time_to_str (HWE_MAX_PAIR_STR + 1 - 6) (period_ms pair mod 2 ^ 32)
         else bin2hex (take (req_size pair) (req pair))) @
        ''='' @ bin2hex (take (resp_size pair) (resp pair)))"

fun find_pair :: "hwe_pair list \<Rightarrow> byte list \<Rightarrow> nat \<Rightarrow> hwe_pair option" where
  "find_pair [] request sz = None"
| "find_pair (ret # ps) request sz =
     (if \<not> async_rx ret \<and> req_size ret = sz \<and> take sz (req ret) = take sz request
      then Some ret else find_pair ps request sz)"

fun get_pair_at_index :: "hwe_pair list \<Rightarrow> nat \<Rightarrow> hwe_pair option" where
  "get_pair_at_index [] i = None"
| "get_pair_at_index (ret # ps) i = (if i = index ret then Some ret else get_pair_at_index ps i)"

section \<open>What a pair means\<close>

datatype pair_view = Reply "byte list" "byte list" | Timer nat "byte list"

definition req_bytes :: "hwe_pair \<Rightarrow> byte list" where
  "req_bytes p = take (req_size p) (req p)"

definition resp_bytes :: "hwe_pair \<Rightarrow> byte list" where
  "resp_bytes p = take (resp_size p) (resp p)"

definition view :: "hwe_pair \<Rightarrow> pair_view" where
  "view p = (if async_rx p then Timer (period_ms p) (resp_bytes p)
             else Reply (req_bytes p) (resp_bytes p))"

definition wf_pair :: "hwe_pair \<Rightarrow> bool" where
  "wf_pair p \<longleftrightarrow> pair_buf_ok p \<and> 1 \<le> resp_size p \<and> resp_size p \<le> HWE_MAX_RESPONSE \<and>
     (if async_rx p then req_size p = 0 \<and> 0 < period_ms p \<and> period_ms p \<le> UINT_MAX
      else 1 \<le> req_size p \<and> req_size p \<le> HWE_MAX_REQUEST)"

lemma length_req_bytes [simp]: "wf_pair p \<Longrightarrow> length (req_bytes p) = req_size p"
  by (auto simp: wf_pair_def pair_buf_ok_def req_bytes_def split: if_splits)

lemma length_resp_bytes [simp]: "wf_pair p \<Longrightarrow> length (resp_bytes p) = resp_size p"
  by (auto simp: wf_pair_def pair_buf_ok_def resp_bytes_def)

lemma is_hex_str_iff: "is_hex_str s n \<longleftrightarrow> (\<forall>i < n. isxdigit (char_at s i))"
  by (auto simp: is_hex_str_def list_all_iff)

section \<open>The parser's result is well formed\<close>

lemma str_to_pair_request_wf:
  assumes "str_to_pair_request K s sz p0 = Inr p" and "pair_buf_ok p0" and "0 < sz"
  shows "pair_buf_ok p \<and>
    (if async_rx p then req_size p = 0 \<and> 0 < period_ms p \<and> period_ms p \<le> UINT_MAX
     else 1 \<le> req_size p \<and> req_size p \<le> HWE_MAX_REQUEST)"
proof (cases "is_hex_str s sz")
  case True
  with assms obtain bs where bs: "hex2bin (req p0) 0 s (sz div 2) = (0, bs)"
    and p: "p = p0\<lparr>req := bs, req_size := sz div 2, async_rx := False\<rparr>"
    and sz: "sz \<le> HWE_MAX_REQUEST * 2" "even sz"
    by (auto simp: str_to_pair_request_def split: if_splits prod.splits)
  have "length bs = length (req p0)"
    using length_hex2bin [of 0 "sz div 2" "req p0" s] assms(2) sz bs
    by (simp add: pair_buf_ok_def)
  moreover have "1 \<le> sz div 2" using assms(3) sz(2) by presburger
  ultimately show ?thesis using assms(2) sz p by (simp add: pair_buf_ok_def)
next
  case False
  define s' where "s' = (if take 6 s = ''timer:'' then drop 6 s else s)"
  obtain t e where te: "hwe_str_to_time K s' = (t, e)" by (cases "hwe_str_to_time K s'")
  have "t \<le> UINT_MAX" using hwe_str_to_time_bound [of K s'] te by simp
  with False assms te show ?thesis
    by (auto simp: str_to_pair_request_def s'_def [symmetric] pair_buf_ok_def split: if_splits)
qed

lemma str_to_pair_response_wf:
  assumes "str_to_pair_response s sz p0 = Inr p" and "pair_buf_ok p0"
  shows "pair_buf_ok p \<and> 1 \<le> resp_size p \<and> resp_size p \<le> HWE_MAX_RESPONSE \<and>
    async_rx p = async_rx p0 \<and> req_size p = req_size p0 \<and> period_ms p = period_ms p0 \<and>
    req p = req p0 \<and> period p = period p0 \<and> time p = time p0"
proof -
  define n where "n = (case strnchr s sz (CHR 0x0A) of Some e \<Rightarrow> e | None \<Rightarrow> sz)"
  obtain bs where bs: "hex2bin (resp p0) 0 s (n div 2) = (0, bs)"
    and p: "p = p0\<lparr>resp := bs, resp_size := n div 2\<rparr>"
    and n: "n \<le> HWE_MAX_RESPONSE * 2" "even n" "n \<noteq> 0"
    using assms(1)
    by (auto simp: str_to_pair_response_def n_def [symmetric] split: if_splits prod.splits)
  have "length bs = length (resp p0)"
    using length_hex2bin [of 0 "n div 2" "resp p0" s] assms(2) n bs
    by (simp add: pair_buf_ok_def)
  moreover have "1 \<le> n div 2" using n by presburger
  ultimately show ?thesis using assms(2) n p by (simp add: pair_buf_ok_def)
qed

lemma str_to_pair_Inr:
  assumes "str_to_pair K str n p0 = Inr p"
  obtains sz q where "strnchr str n (CHR ''='') = Some sz" "0 < sz"
    "str_to_pair_request K str sz p0 = Inr q"
    "str_to_pair_response (drop (sz + 1) str) (n - (sz + 1)) q = Inr p"
  using assms by (auto simp: str_to_pair_def split: if_splits option.splits sum.splits)

lemma str_to_pair_wf_pair:
  assumes "str_to_pair K str n p0 = Inr p" and "pair_buf_ok p0"
  shows "wf_pair p"
proof -
  from assms(1) obtain sz q where sz: "0 < sz" and q: "str_to_pair_request K str sz p0 = Inr q"
    and p: "str_to_pair_response (drop (sz + 1) str) (n - (sz + 1)) q = Inr p"
    by (rule str_to_pair_Inr)
  note Q = str_to_pair_request_wf [OF q assms(2) sz]
  with str_to_pair_response_wf [OF p] show ?thesis
    by (auto simp: wf_pair_def split: if_splits)
qed

section \<open>Exactly which request texts are accepted\<close>

lemma isxdigit_plain: "isxdigit c \<Longrightarrow> c \<noteq> NUL \<and> c \<noteq> CHR ''='' \<and> c \<noteq> CHR 0x0A"
  by (auto simp: isxdigit_def isdigit_def NUL_def)

lemma hex_text_plain:
  "list_all isxdigit s \<Longrightarrow> NUL \<notin> set s \<and> CHR ''='' \<notin> set s \<and> CHR 0x0A \<notin> set s"
  using isxdigit_plain by (auto simp: list_all_iff)

lemma all_char_at_prefix:
  "(\<forall>i < length xs. P (char_at (xs @ ys) i)) \<longleftrightarrow> list_all P xs"
  by (auto simp: char_at_append list_all_length)

lemma str_to_pair_request_hex:
  assumes "list_all isxdigit rq" and "pair_buf_ok p0"
  shows "str_to_pair_request K (rq @ rest) (length rq) p0 =
     (if length rq > HWE_MAX_REQUEST * 2 then Inl ''request string too long''
      else if odd (length rq) then Inl ''odd number of characters in request string''
      else Inr (p0\<lparr>req := memcpy_at (req p0) 0 (hex_bytes rq), req_size := length rq div 2,
                  async_rx := False\<rparr>))"
  using assms hex2bin_hex_bytes [OF assms(1), of 0 "req p0" rest]
  by (simp add: str_to_pair_request_def is_hex_str_iff all_char_at_prefix)

text \<open>The text after the equals sign: the digits up to a newline or the end.\<close>

definition response_text :: "string \<Rightarrow> string" where
  "response_text s = takeWhile (\<lambda>c. c \<noteq> CHR 0x0A) s"

lemma response_text_split:
  obtains tail where "s = response_text s @ tail" "tail = [] \<or> hd tail = CHR 0x0A"
proof
  show "s = response_text s @ dropWhile (\<lambda>c. c \<noteq> CHR 0x0A) s"
    by (simp add: response_text_def)
  show "dropWhile (\<lambda>c. c \<noteq> CHR 0x0A) s = [] \<or> hd (dropWhile (\<lambda>c. c \<noteq> CHR 0x0A) s) = CHR 0x0A"
    using hd_dropWhile [of "\<lambda>c. c \<noteq> CHR 0x0A" s] by blast
qed

lemma newline_not_in_response_text: "CHR 0x0A \<notin> set (response_text s)"
  unfolding response_text_def by (auto dest: set_takeWhileD)

lemma response_size:
  assumes "NUL \<notin> set (response_text s)"
  shows "(case strnchr s (length s) (CHR 0x0A) of Some e \<Rightarrow> e | None \<Rightarrow> length s) = length (response_text s)"
proof -
  obtain tail where s: "s = response_text s @ tail" and "tail = [] \<or> hd tail = CHR 0x0A"
    by (rule response_text_split)
  then consider "s = response_text s" | t where "s = response_text s @ CHR 0x0A # t"
    by (cases tail) auto
  then show ?thesis
  proof cases
    case 1
    then have "CHR 0x0A \<notin> set s" using newline_not_in_response_text [of s] by simp
    then have "strnchr s (length s) (CHR 0x0A) = None"
      by (intro strnchr_None) (auto simp: NUL_def)
    with 1 show ?thesis by simp
  next
    case 2
    have "strnchr (response_text s @ CHR 0x0A # t) (length s) (CHR 0x0A) = Some (length (response_text s))"
      using assms newline_not_in_response_text 2
      by (intro strnchr_append) (auto, metis length_append length_Cons less_add_Suc1 add_Suc_right)
    with 2 show ?thesis by simp
  qed
qed

lemma str_to_pair_response_hex:
  assumes "list_all isxdigit (response_text s)" and "pair_buf_ok q"
  shows "str_to_pair_response s (length s) q =
     (let rp = response_text s
      in if rp = [] then Inl ''empty response''
         else if length rp > HWE_MAX_RESPONSE * 2 then Inl ''response string too long''
         else if odd (length rp) then Inl ''odd number of characters in response string''
         else Inr (q\<lparr>resp := memcpy_at (resp q) 0 (hex_bytes rp), resp_size := length rp div 2\<rparr>))"
proof -
  obtain tail where s: "s = response_text s @ tail"
    by (rule response_text_split)
  have "NUL \<notin> set (response_text s)"
    using assms(1) hex_text_plain by blast
  note sz = response_size [OF this]
  have "hex2bin (resp q) 0 s (length (response_text s) div 2)
      = (0, memcpy_at (resp q) 0 (hex_bytes (response_text s)))" if "even (length (response_text s))"
    using hex2bin_hex_bytes [OF assms(1) that, of 0 "resp q" tail] s by simp
  then show ?thesis
    by (simp add: str_to_pair_response_def sz Let_def)
qed

lemma str_to_pair_response_hex_only:
  assumes "str_to_pair_response s (length s) q = Inr p"
  shows "list_all isxdigit (response_text s)"
proof -
  define n where "n = (case strnchr s (length s) (CHR 0x0A) of Some e \<Rightarrow> e | None \<Rightarrow> length s)"
  have n: "even n" and hex: "fst (hex2bin (resp q) 0 s (n div 2)) = 0"
    using assms by (auto simp: str_to_pair_response_def n_def [symmetric] split: if_splits prod.splits)
  then have dig: "isxdigit (char_at s i)" if "i < n" for i
    using that by (simp add: hex2bin_ok_iff)
  have "length (response_text s) \<le> n"
  proof (cases "strnchr s (length s) (CHR 0x0A)")
    case None
    then show ?thesis by (simp add: n_def response_text_def length_takeWhile_le)
  next
    case (Some e)
    show ?thesis
    proof (rule ccontr)
      assume "\<not> ?thesis"
      then have e: "e < length (response_text s)" using Some by (simp add: n_def)
      then have "char_at s e = response_text s ! e"
        using response_text_split [of s] by (metis char_at_append)
      with e Some show False
        using newline_not_in_response_text [of s] strnchr_Some [OF Some] nth_mem by metis
    qed
  qed
  then have "isxdigit (response_text s ! i)" if "i < length (response_text s)" for i
    using that dig [of i] response_text_split [of s] by (metis char_at_append le_trans less_le_trans)
  then show ?thesis by (simp add: list_all_length)
qed

definition response_ok :: "string \<Rightarrow> bool" where
  "response_ok s \<longleftrightarrow>
     (let rp = response_text s
      in rp \<noteq> [] \<and> length rp \<le> HWE_MAX_RESPONSE * 2 \<and> even (length rp) \<and> list_all isxdigit rp)"

lemma str_to_pair_response_ok_iff:
  "pair_buf_ok q \<Longrightarrow> (\<exists>p. str_to_pair_response s (length s) q = Inr p) \<longleftrightarrow> response_ok s"
  using str_to_pair_response_hex_only [of s q] str_to_pair_response_hex [of s q]
  by (auto simp: response_ok_def Let_def split: if_splits)

lemma str_to_pair_response_ok:
  "pair_buf_ok q \<Longrightarrow> response_ok s \<Longrightarrow> str_to_pair_response s (length s) q =
     Inr (q\<lparr>resp := memcpy_at (resp q) 0 (hex_bytes (response_text s)),
             resp_size := length (response_text s) div 2\<rparr>)"
  by (simp add: str_to_pair_response_hex response_ok_def Let_def)

lemma str_to_pair_eq:
  assumes "CHR ''='' \<notin> set rq" "NUL \<notin> set rq" "rq \<noteq> []"
  shows "str_to_pair K (rq @ CHR ''='' # rest) (length (rq @ CHR ''='' # rest)) p0 =
     (case str_to_pair_request K (rq @ CHR ''='' # rest) (length rq) p0 of
        Inl err \<Rightarrow> Inl err
      | Inr q \<Rightarrow> str_to_pair_response rest (length rest) q)"
proof -
  have "strnchr (rq @ CHR ''='' # rest) (length (rq @ CHR ''='' # rest)) (CHR ''='') = Some (length rq)"
    using assms by (intro strnchr_append) simp_all
  with assms show ?thesis by (simp add: str_to_pair_def del: strnchr.simps split: sum.split)
qed

text \<open>The whole text of a reply pair, accepted exactly when both halves are well formed.\<close>

lemma str_to_pair_reply:
  assumes hex: "list_all isxdigit rq" "rq \<noteq> []" and p0: "pair_buf_ok p0"
  shows "(\<exists>p. str_to_pair K (rq @ CHR ''='' # rest) (length (rq @ CHR ''='' # rest)) p0 = Inr p \<and> view p = v)
     \<longleftrightarrow> even (length rq) \<and> length rq \<le> HWE_MAX_REQUEST * 2 \<and> response_ok rest \<and>
        v = Reply (hex_bytes rq) (hex_bytes (response_text rest))"
proof -
  define q where "q = p0\<lparr>req := memcpy_at (req p0) 0 (hex_bytes rq), req_size := length rq div 2, async_rx := False\<rparr>"
  have eq: "str_to_pair K (rq @ CHR ''='' # rest) (length (rq @ CHR ''='' # rest)) p0 =
      (if length rq > HWE_MAX_REQUEST * 2 then Inl ''request string too long''
       else if odd (length rq) then Inl ''odd number of characters in request string''
       else str_to_pair_response rest (length rest) q)"
    using hex_text_plain [OF hex(1)] hex(2)
    by (subst str_to_pair_eq) (simp_all only: str_to_pair_request_hex [OF hex(1) p0], simp_all add: q_def)
  show ?thesis
  proof (cases "even (length rq) \<and> length rq \<le> HWE_MAX_REQUEST * 2")
    case False
    then show ?thesis unfolding eq by auto
  next
    case True
    then have "length rq div 2 \<le> HWE_MAX_REQUEST" by linarith
    then have q: "pair_buf_ok q"
      using p0 by (simp add: q_def pair_buf_ok_def)
    have view_q: "view (q\<lparr>resp := memcpy_at (resp q) 0 bs, resp_size := length bs\<rparr>) = Reply (hex_bytes rq) bs" for bs
      by (simp add: view_def req_bytes_def resp_bytes_def q_def)
    show ?thesis
    proof (cases "response_ok rest")
      case ok: True
      have "str_to_pair K (rq @ CHR ''='' # rest) (length (rq @ CHR ''='' # rest)) p0 =
          Inr (q\<lparr>resp := memcpy_at (resp q) 0 (hex_bytes (response_text rest)),
                 resp_size := length (hex_bytes (response_text rest))\<rparr>)"
        unfolding eq using True str_to_pair_response_ok [OF q ok] by simp
      with True ok show ?thesis
        using view_q [of "hex_bytes (response_text rest)"] by (metis sum.inject(2))
    next
      case False
      with True show ?thesis
        using str_to_pair_response_ok_iff [OF q, of rest] unfolding eq by auto
    qed
  qed
qed

section \<open>Round trips\<close>

lemma wf_pair_buf: "wf_pair p \<Longrightarrow> pair_buf_ok p"
  by (simp add: wf_pair_def)

lemma pair_to_str_reply:
  "wf_pair p \<Longrightarrow> \<not> async_rx p \<Longrightarrow> pair_to_str p = bin2hex (req_bytes p) @ CHR ''='' # bin2hex (resp_bytes p)"
  by (simp add: pair_to_str_def wf_pair_def req_bytes_def resp_bytes_def)

lemma pair_to_str_timer:
  "wf_pair p \<Longrightarrow> async_rx p \<Longrightarrow> pair_to_str p =
     ''timer:'' @ hwe_time_to_str (HWE_MAX_PAIR_STR + 1 - 6) (period_ms p) @ CHR ''='' # bin2hex (resp_bytes p)"
  by (simp add: pair_to_str_def wf_pair_def resp_bytes_def)

lemma response_text_bin2hex [simp]: "response_text (bin2hex bs) = bin2hex bs"
  using hex_text_plain [OF bin2hex_isxdigit [of bs]] by (auto simp: response_text_def takeWhile_eq_all_conv)

lemma bin2hex_eq_Nil [simp]: "bin2hex bs = [] \<longleftrightarrow> bs = []"
  by (cases bs) (simp_all add: hex_byte_pack_def)

lemma response_ok_bin2hex:
  "bs \<noteq> [] \<Longrightarrow> length bs \<le> HWE_MAX_RESPONSE \<Longrightarrow> response_ok (bin2hex bs)"
  by (simp add: response_ok_def Let_def bin2hex_isxdigit)

lemma resp_bytes_ok:
  assumes "wf_pair p"
  shows "resp_bytes p \<noteq> [] \<and> length (resp_bytes p) \<le> HWE_MAX_RESPONSE"
proof -
  have "1 \<le> length (resp_bytes p) \<and> length (resp_bytes p) \<le> HWE_MAX_RESPONSE"
    unfolding length_resp_bytes [OF assms] using assms by (simp add: wf_pair_def)
  then show ?thesis by auto
qed

lemma req_bytes_ok:
  assumes "wf_pair p" and "\<not> async_rx p"
  shows "req_bytes p \<noteq> [] \<and> length (req_bytes p) \<le> HWE_MAX_REQUEST"
proof -
  have "1 \<le> length (req_bytes p) \<and> length (req_bytes p) \<le> HWE_MAX_REQUEST"
    unfolding length_req_bytes [OF assms(1)] using assms by (simp add: wf_pair_def)
  then show ?thesis by auto
qed

lemma reply_round_trip:
  assumes p: "wf_pair p" "\<not> async_rx p" and p0: "pair_buf_ok p0"
  shows "\<exists>q. str_to_pair K (pair_to_str p) (length (pair_to_str p)) p0 = Inr q \<and> view q = view p"
proof -
  have "bin2hex (req_bytes p) \<noteq> []" using req_bytes_ok [OF p] by simp
  moreover have "response_ok (bin2hex (resp_bytes p))"
    using resp_bytes_ok [OF p(1)] by (intro response_ok_bin2hex) simp_all
  ultimately show ?thesis
    unfolding pair_to_str_reply [OF p] using req_bytes_ok [OF p] p(2)
    by (subst str_to_pair_reply [OF bin2hex_isxdigit _ p0]) (simp_all add: view_def)
qed

section \<open>Timer pairs\<close>

lemma str_to_pair_request_timer:
  assumes K: "strtoull_ok (kl_strtoull K)" and its: "duration_ok its" "0 < duration_value its"
    and pre: "pre = ''timer:'' \<or> pre = []"
  shows "str_to_pair_request K (pre @ render its @ CHR ''='' # rest) (length (pre @ render its)) p0 =
     Inr (p0\<lparr>req_size := 0, async_rx := True, period_ms := duration_value its,
             period := kl_msecs_to_jiffies K (duration_value its), time := 0\<rparr>)"
proof -
  define s where "s = pre @ render its @ CHR ''='' # rest"
  have oks: "list_all item_ok its" "its \<noteq> []" "in_order its pattern"
    using its(1) by (auto simp: duration_ok_def)
  obtain ds u where last: "last its = (ds, u)" by (cases "last its")
  have "render its = render (butlast its) @ ds @ unit u"
    using oks(2) last by (metis append_butlast_last_id render_append render_Cons append_Nil2 render_def
        concat.simps(1) list.map(1))
  moreover have "u \<in> set pattern"
    using in_order_units [OF oks(3)] last oks(2) by (metis image_set in_mono last_in_set snd_conv image_eqI)
  ultimately have "\<exists>c \<in> set (render its). \<not> isxdigit c"
    by (auto simp: pattern_def isxdigit_def isdigit_def)
  then have "\<not> list_all isxdigit (pre @ render its)"
    by (auto simp: list_all_iff)
  then have hex: "\<not> is_hex_str s (length (pre @ render its))"
    unfolding is_hex_str_iff s_def using all_char_at_prefix [of "pre @ render its" isxdigit] by simp
  have "isdigit (char_at (render its @ CHR ''='' # rest) 0)"
    by (rule render_first [OF oks(1,2)])
  then have "take 6 (render its @ CHR ''='' # rest) \<noteq> ''timer:''"
    by (cases "render its") (auto simp: isdigit_def)
  then have strip: "(if take 6 s = ''timer:'' then drop 6 s else s) = render its @ CHR ''='' # rest"
    using pre by (auto simp: s_def)
  have "IS_SEP (char_at (CHR ''='' # rest) 0)" by (simp add: IS_SEP_def)
  note parse = hwe_str_to_time_complete [OF K this its(1)]
  have "str_to_pair_request K s (length (pre @ render its)) p0 =
     Inr (p0\<lparr>req_size := 0, async_rx := True, period_ms := duration_value its,
             period := kl_msecs_to_jiffies K (duration_value its), time := 0\<rparr>)"
    unfolding str_to_pair_request_def strip parse Let_def using hex its(2) by simp
  then show ?thesis by (simp only: s_def)
qed

lemma str_to_pair_timer:
  assumes K: "strtoull_ok (kl_strtoull K)" and its: "duration_ok its" "0 < duration_value its"
    and pre: "pre = ''timer:'' \<or> pre = []" and p0: "pair_buf_ok p0" and rest: "response_ok rest"
  shows "\<exists>p. str_to_pair K (pre @ render its @ CHR ''='' # rest)
      (length (pre @ render its @ CHR ''='' # rest)) p0 = Inr p \<and>
    view p = Timer (duration_value its) (hex_bytes (response_text rest)) \<and>
    period p = kl_msecs_to_jiffies K (duration_value its) \<and> time p = 0"
proof -
  define q where "q = p0\<lparr>req_size := 0, async_rx := True, period_ms := duration_value its,
             period := kl_msecs_to_jiffies K (duration_value its), time := 0\<rparr>"
  have oks: "list_all item_ok its" "its \<noteq> []" "in_order its pattern"
    using its(1) by (auto simp: duration_ok_def)
  have chars: "isdigit c \<or> c \<in> {CHR ''h'', CHR ''m'', CHR ''s''}" if "c \<in> set (render its)" for c
    using duration_chars [OF oks(1) in_order_units [OF oks(3)] that] .
  have plain: "CHR ''='' \<notin> set (pre @ render its)" "NUL \<notin> set (pre @ render its)"
    using pre chars [of "CHR ''=''"] chars [of NUL] by (auto simp: isdigit_def NUL_def)
  have ne: "pre @ render its \<noteq> []"
    using render_first [OF oks(1,2), of "[]"] by (cases "render its") auto
  have q: "pair_buf_ok q" using p0 by (simp add: q_def pair_buf_ok_def)
  have "str_to_pair K ((pre @ render its) @ CHR ''='' # rest)
      (length ((pre @ render its) @ CHR ''='' # rest)) p0 = str_to_pair_response rest (length rest) q"
    unfolding str_to_pair_eq [OF plain ne]
    using str_to_pair_request_timer [OF K its pre, of rest p0] by (simp add: q_def)
  then show ?thesis
    using str_to_pair_response_ok [OF q rest] by (simp add: view_def resp_bytes_def q_def)
qed

lemma timer_round_trip:
  assumes K: "strtoull_ok (kl_strtoull K)" and p: "wf_pair p" "async_rx p" and p0: "pair_buf_ok p0"
  shows "\<exists>q. str_to_pair K (pair_to_str p) (length (pair_to_str p)) p0 = Inr q \<and> view q = view p \<and>
    period q = kl_msecs_to_jiffies K (period_ms p) \<and> time q = 0"
proof -
  have t: "0 < period_ms p" "period_ms p \<le> UINT_MAX" using p by (simp_all add: wf_pair_def)
  have "response_ok (bin2hex (resp_bytes p))"
    using resp_bytes_ok [OF p(1)] by (intro response_ok_bin2hex) simp_all
  moreover have "hwe_time_to_str (HWE_MAX_PAIR_STR + 1 - 6) (period_ms p) = render (time_items (period_ms p))"
    by (rule hwe_time_to_str_render [OF t(2)]) (simp add: hwe_consts)
  ultimately show ?thesis
    unfolding pair_to_str_timer [OF p]
    using str_to_pair_timer [OF K time_items_duration [OF t] _ disjI1 [OF refl] p0, of "bin2hex (resp_bytes p)"] t p(2)
    by (simp add: time_items_value view_def)
qed

text \<open>Printing depends only on what the pair means.\<close>

lemma pair_to_str_view:
  assumes "wf_pair p" "wf_pair q" "view p = view q"
  shows "pair_to_str p = pair_to_str q"
  using assms by (cases "async_rx p"; cases "async_rx q")
    (simp_all add: view_def pair_to_str_reply pair_to_str_timer)

lemma str_to_pair_print:
  assumes "strtoull_ok (kl_strtoull K)" "wf_pair p" "pair_buf_ok p0"
  shows "\<exists>q. str_to_pair K (pair_to_str p) (length (pair_to_str p)) p0 = Inr q \<and> view q = view p"
  using reply_round_trip [OF assms(2) _ assms(3)] timer_round_trip [OF assms(1,2) _ assms(3)]
  by (cases "async_rx p") blast+

section \<open>The output buffer\<close>

text \<open>
  The text and its terminating NUL fit the static buffer of \<open>HWE_MAX_PAIR_STR + 1\<close>
  characters, for any contents of the struct.
\<close>

lemma length_pair_to_str: "length (pair_to_str p) + 1 \<le> HWE_MAX_PAIR_STR + 1"
proof -
  have "period_ms p mod 2 ^ 32 \<le> UINT_MAX"
    using mod_less_divisor [of "2 ^ 32" "period_ms p"] by simp
  then have "length (hwe_time_to_str (HWE_MAX_PAIR_STR + 1 - 6) (period_ms p mod 2 ^ 32)) \<le> 16"
    by (rule length_hwe_time_to_str) (simp add: hwe_consts)
  then show ?thesis by (auto simp: pair_to_str_def hwe_consts)
qed

lemma pair_to_str_not_Nil: "pair_to_str p \<noteq> []"
  by (simp add: pair_to_str_def)

lemma pair_to_str_no_NUL: "NUL \<notin> set (pair_to_str p)" if "wf_pair p"
proof (cases "async_rx p")
  case False
  with that show ?thesis
    using hex_text_plain [OF bin2hex_isxdigit] by (simp add: pair_to_str_reply NUL_def [symmetric])
      (simp add: NUL_def)
next
  case True
  have t: "0 < period_ms p" "period_ms p \<le> UINT_MAX" using that True by (simp_all add: wf_pair_def)
  have render: "hwe_time_to_str (HWE_MAX_PAIR_STR + 1 - 6) (period_ms p) = render (time_items (period_ms p))"
    by (rule hwe_time_to_str_render [OF t(2)]) (simp add: hwe_consts)
  have "duration_ok (time_items (period_ms p))" by (rule time_items_duration [OF t])
  then have "NUL \<notin> set (render (time_items (period_ms p)))"
    using duration_chars in_order_units isdigit_NUL unfolding duration_ok_def by (fastforce simp: NUL_def)
  then show ?thesis
    using hex_text_plain [OF bin2hex_isxdigit, of "resp_bytes p"]
    unfolding pair_to_str_timer [OF that True] render by (simp add: NUL_def)
qed

section \<open>Searching\<close>

definition matches :: "byte list \<Rightarrow> hwe_pair \<Rightarrow> bool" where
  "matches rq p \<longleftrightarrow> \<not> async_rx p \<and> req_bytes p = rq"

lemma find_pair_eq_find:
  assumes "\<forall>p \<in> set ps. wf_pair p" and "sz \<le> length request"
  shows "find_pair ps request sz = find (matches (take sz request)) ps"
  using assms
proof (induction ps)
  case Nil
  then show ?case by simp
next
  case (Cons p ps)
  then have "\<not> async_rx p \<and> req_size p = sz \<and> take sz (req p) = take sz request
      \<longleftrightarrow> matches (take sz request) p"
    using length_req_bytes [of p] unfolding matches_def req_bytes_def
    by (metis list.set_intros(1) length_take min.absorb2)
  with Cons show ?case by simp
qed

lemma find_pair_Some: "find_pair ps request sz = Some p \<Longrightarrow> p \<in> set ps \<and> \<not> async_rx p"
  by (induction ps) (auto split: if_splits)

lemma get_pair_at_index_eq_find: "get_pair_at_index ps i = find (\<lambda>p. index p = i) ps"
  by (induction ps) auto

section \<open>Properties\<close>

definition sample_pair :: hwe_pair where
  "sample_pair =
     \<lparr>req = [1, 0xAB] @ replicate (HWE_MAX_REQUEST - 2) 0, req_size = 2,
      resp = [0xFF] @ replicate (HWE_MAX_RESPONSE - 1) 0, resp_size = 1,
      index = 0, filename = [], async_rx = False, period_ms = 0, period = 0, time = 0\<rparr>"

definition sample_timer :: hwe_pair where
  "sample_timer = sample_pair\<lparr>req_size := 0, async_rx := True, period_ms := 95256\<rparr>"

lemma sample_pair_wf: "wf_pair sample_pair" "pair_buf_ok sample_pair" "\<not> async_rx sample_pair"
  by (simp_all add: sample_pair_def wf_pair_def pair_buf_ok_def hwe_consts)

lemma sample_timer_wf: "wf_pair sample_timer" "async_rx sample_timer" "period_ms sample_timer = 95256"
  by (simp_all add: sample_timer_def sample_pair_def wf_pair_def pair_buf_ok_def hwe_consts)

text \<open>C36: whatever bytes a user writes, a pair that the parser accepts fits its arrays and is usable:
  the arrays keep their declared sizes, there is at least one response byte, a pair with a
  request has at least one request byte, and a periodic pair has a period that is not zero and
  fits an \<open>unsigned\<close>.\<close>

theorem accepted_pair_is_well_typed:
  assumes "str_to_pair K str n p0 = Inr p" "length (req p0) = HWE_MAX_REQUEST" "length (resp p0) = HWE_MAX_RESPONSE"
  shows "length (req p) = HWE_MAX_REQUEST \<and> length (resp p) = HWE_MAX_RESPONSE \<and>
    1 \<le> resp_size p \<and> resp_size p \<le> HWE_MAX_RESPONSE \<and>
    (if async_rx p then req_size p = 0 \<and> 0 < period_ms p \<and> period_ms p \<le> UINT_MAX
     else 1 \<le> req_size p \<and> req_size p \<le> HWE_MAX_REQUEST)"
  using str_to_pair_wf_pair [OF assms(1)] assms(2,3) by (auto simp: wf_pair_def pair_buf_ok_def)

theorem accepted_pair_is_well_typed_witness:
  "\<exists>q. str_to_pair sample_klib (pair_to_str sample_pair) (length (pair_to_str sample_pair)) sample_pair = Inr q \<and>
    1 \<le> req_size q \<and> req_size q \<le> HWE_MAX_REQUEST \<and> resp_size q \<le> HWE_MAX_RESPONSE"
proof -
  obtain q where q: "str_to_pair sample_klib (pair_to_str sample_pair) (length (pair_to_str sample_pair)) sample_pair = Inr q"
    "view q = view sample_pair"
    using reply_round_trip [OF sample_pair_wf(1,3,2)] by blast
  moreover have "length (req sample_pair) = HWE_MAX_REQUEST" "length (resp sample_pair) = HWE_MAX_RESPONSE"
    using sample_pair_wf(2) by (simp_all add: pair_buf_ok_def)
  ultimately show ?thesis
    using accepted_pair_is_well_typed [OF q(1)] sample_pair_wf(3) by (auto simp: view_def split: if_splits)
qed

text \<open>C37: the printer never overruns its static buffer nor a page of \<open>sysfs\<close>: for any contents of a
  pair, even sizes out of range, the text and its final NUL take at most \<open>HWE_MAX_PAIR_STR + 1\<close>
  characters, and that is less than 4096.\<close>

theorem printed_pair_fits_buffer:
  "length (pair_to_str p) + 1 \<le> HWE_MAX_PAIR_STR + 1 \<and> HWE_MAX_PAIR_STR + 1 < 4096"
  using length_pair_to_str [of p] by (simp add: hwe_consts)

text \<open>C15: printing any well-formed pair and parsing the text gives a pair with the same
  meaning, whatever the memory the parser fills held before, and printing that pair gives the
  same text again (the check of \<open>tests/pair_parser.c\<close>, for replies and for timers).\<close>

theorem pair_text_round_trip:
  assumes "strtoull_ok (kl_strtoull K)" "wf_pair p" "pair_buf_ok p0"
  shows "\<exists>q. str_to_pair K (pair_to_str p) (length (pair_to_str p)) p0 = Inr q \<and>
    wf_pair q \<and> view q = view p \<and> pair_to_str q = pair_to_str p"
proof -
  from str_to_pair_print [OF assms] obtain q where
    q: "str_to_pair K (pair_to_str p) (length (pair_to_str p)) p0 = Inr q" "view q = view p"
    by blast
  have "wf_pair q" by (rule str_to_pair_wf_pair [OF q(1) assms(3)])
  then show ?thesis using q pair_to_str_view assms(2) by blast
qed

theorem pair_text_round_trip_witness:
  "\<exists>q. str_to_pair sample_klib (pair_to_str sample_timer) (length (pair_to_str sample_timer)) sample_pair = Inr q \<and>
    wf_pair q \<and> view q = view sample_timer \<and> pair_to_str q = pair_to_str sample_timer"
  by (rule pair_text_round_trip [OF sample_klib_ok sample_timer_wf(1) sample_pair_wf(2)])

text \<open>C16: a text whose key part is hexadecimal is accepted exactly when the key has an even
  number of at most \<open>2 * HWE_MAX_REQUEST\<close> digits and the part after the equals sign, up to a
  newline, is a non-empty even number of at most \<open>2 * HWE_MAX_RESPONSE\<close> hexadecimal digits; the
  pair then replies to the decoded key with the decoded rest. Upper and lower case digits count.\<close>

theorem str_to_pair_accepts_exactly:
  assumes "list_all isxdigit rq" "rq \<noteq> []" "pair_buf_ok p0"
  shows "(\<exists>p. str_to_pair K (rq @ CHR ''='' # rest) (length (rq @ CHR ''='' # rest)) p0 = Inr p \<and> view p = v)
     \<longleftrightarrow> even (length rq) \<and> length rq \<le> HWE_MAX_REQUEST * 2 \<and> response_ok rest \<and>
        v = Reply (hex_bytes rq) (hex_bytes (response_text rest))"
  by (rule str_to_pair_reply [OF assms])

theorem str_to_pair_accepts_exactly_witness:
  "\<exists>p. str_to_pair sample_klib (''1aB2'' @ CHR ''='' # ''Ff'') (length (''1aB2'' @ CHR ''='' # ''Ff'')) sample_pair = Inr p \<and>
     view p = Reply (hex_bytes ''1aB2'') (hex_bytes (response_text ''Ff''))"
proof -
  have "list_all isxdigit ''1aB2''" by code_simp
  moreover have "response_ok ''Ff''" by (simp add: hwe_consts response_ok_def response_text_def) code_simp
  ultimately show ?thesis
    using str_to_pair_accepts_exactly [OF _ _ sample_pair_wf(2), of "''1aB2''" sample_klib "''Ff''"
        "Reply (hex_bytes ''1aB2'') (hex_bytes (response_text ''Ff''))"]
    by (simp add: hwe_consts)
qed

end
