(* ===== verification/Response.thy ===== *)
theory Response
  imports Pair
begin

text \<open>
  The pending response of a bus device. The private data of the I2C and of the SPI driver
  (\<open>struct hwe_dev_priv\<close> of \<open>hwe_i2c.c\<close> and of \<open>hwe_spi.c\<close>) have the same four fields for it,
  handled by the same code: an array \<open>resp\<close>, a pointer \<open>resp_ptr\<close> into it (an offset here),
  the number of bytes left and a flag for asynchronous responses. They are declared once, in
  \<open>resp_buf\<close>, which the two drivers' records extend.

  The locale \<open>pending_source\<close> is the interface the reading side relies on: each read takes the
  next bytes. It is interpreted on the message loop of I2C and on the transfer of SPI.
\<close>

section \<open>State and operations\<close>

record resp_buf =
  rb_resp :: "byte list"
  rb_ptr :: nat
  rb_size :: nat
  rb_async :: bool

definition load_response :: "hwe_pair \<Rightarrow> bool \<Rightarrow> 'a resp_buf_scheme \<Rightarrow> 'a resp_buf_scheme" where
  "load_response pair asy dev =
     dev\<lparr>rb_resp := memcpy_at (rb_resp dev) 0 (take (resp_size pair) (resp pair)),
         rb_size := resp_size pair, rb_ptr := 0, rb_async := asy\<rparr>"

definition take_response :: "nat \<Rightarrow> 'a resp_buf_scheme \<Rightarrow> byte list \<times> 'a resp_buf_scheme" where
  "take_response len dev =
     (let sz = (if rb_size dev > len then len else rb_size dev)
      in (read_at (rb_resp dev) (rb_ptr dev) sz,
          dev\<lparr>rb_size := rb_size dev - sz, rb_ptr := rb_ptr dev + sz\<rparr>))"

definition offer_async :: "hwe_pair \<Rightarrow> 'a resp_buf_scheme \<Rightarrow> 'a resp_buf_scheme" where
  "offer_async pair dev =
     (if rb_size dev \<noteq> 0 \<and> (\<not> rb_async dev \<or> rb_ptr dev \<noteq> 0) then dev
      else load_response pair True dev)"

section \<open>Invariant and abstraction\<close>

text \<open>The array has its declared size and the bytes left lie inside it.\<close>

definition rb_ok :: "'a resp_buf_scheme \<Rightarrow> bool" where
  "rb_ok dev \<longleftrightarrow> length (rb_resp dev) = HWE_MAX_RESPONSE \<and>
     (rb_size dev \<noteq> 0 \<longrightarrow> rb_ptr dev + rb_size dev \<le> HWE_MAX_RESPONSE)"

definition pending :: "'a resp_buf_scheme \<Rightarrow> byte list" where
  "pending dev = read_at (rb_resp dev) (rb_ptr dev) (rb_size dev)"

lemma length_pending [simp]: "rb_ok dev \<Longrightarrow> length (pending dev) = rb_size dev"
  by (cases "rb_size dev = 0") (auto simp: rb_ok_def pending_def)

lemma pending_Nil: "rb_ok dev \<Longrightarrow> pending dev = [] \<longleftrightarrow> rb_size dev = 0"
  by (metis length_pending length_0_conv)

lemma rb_ok_cleared [simp]: "rb_ok (dev\<lparr>rb_size := 0\<rparr>) \<longleftrightarrow> length (rb_resp dev) = HWE_MAX_RESPONSE"
  by (simp add: rb_ok_def)

lemma pending_cleared [simp]: "pending (dev\<lparr>rb_size := 0\<rparr>) = []"
  by (simp add: pending_def)

lemma resp_array: "wf_pair p \<Longrightarrow> length (take (resp_size p) (resp p)) = resp_size p"
  by (auto simp: wf_pair_def pair_buf_ok_def)

lemma load_response_ok:
  assumes "length (rb_resp dev) = HWE_MAX_RESPONSE" "wf_pair p"
  shows "rb_ok (load_response p a dev)" "pending (load_response p a dev) = resp_bytes p"
    "rb_size (load_response p a dev) = resp_size p"
proof -
  have "resp_size p \<le> HWE_MAX_RESPONSE" using assms(2) by (simp add: wf_pair_def)
  then show "rb_ok (load_response p a dev)" "rb_size (load_response p a dev) = resp_size p"
    using assms resp_array [OF assms(2)] by (simp_all add: rb_ok_def load_response_def)
  show "pending (load_response p a dev) = resp_bytes p"
    using take_memcpy_at_0 [OF resp_array [OF assms(2), symmetric], of "rb_resp dev"]
    by (simp add: pending_def load_response_def resp_bytes_def read_at_def)
qed

lemma take_response_ok:
  assumes "rb_ok dev"
  shows "fst (take_response len dev) = take len (pending dev)"
    "pending (snd (take_response len dev)) = drop len (pending dev)"
    "rb_ok (snd (take_response len dev))"
proof -
  define sz where "sz = (if rb_size dev > len then len else rb_size dev)"
  have sz: "sz \<le> rb_size dev" "sz \<le> len" by (simp_all add: sz_def)
  have split: "pending dev = read_at (rb_resp dev) (rb_ptr dev) sz @ read_at (rb_resp dev) (rb_ptr dev + sz) (rb_size dev - sz)"
    using sz read_at_split [of "rb_resp dev" "rb_ptr dev" sz "rb_size dev - sz"] by (simp add: pending_def)
  have len: "length (read_at (rb_resp dev) (rb_ptr dev) sz) = sz"
    using assms sz by (cases "rb_size dev = 0") (auto simp: rb_ok_def)
  have "take len (pending dev) = take sz (pending dev)" "drop len (pending dev) = drop sz (pending dev)"
    using assms by (auto simp: sz_def)
  with split len show "fst (take_response len dev) = take len (pending dev)"
    "pending (snd (take_response len dev)) = drop len (pending dev)"
    by (simp_all add: take_response_def pending_def Let_def sz_def [symmetric])
  show "rb_ok (snd (take_response len dev))"
    using assms sz by (auto simp: rb_ok_def take_response_def Let_def sz_def [symmetric])
qed

lemma take_response_size:
  "rb_ok dev \<Longrightarrow> rb_size (snd (take_response len dev)) = rb_size dev - len"
  by (metis length_drop length_pending take_response_ok(2,3))

lemma offer_async_ok: "rb_ok dev \<Longrightarrow> wf_pair p \<Longrightarrow> rb_ok (offer_async p dev)"
  by (simp add: offer_async_def load_response_ok rb_ok_def [of dev])

section \<open>Reading in chunks\<close>

fun read_chunks :: "(byte list \<Rightarrow> 's \<Rightarrow> byte list \<times> 's) \<Rightarrow> byte list list \<Rightarrow> 's \<Rightarrow> byte list list \<times> 's" where
  "read_chunks rd [] s = ([], s)"
| "read_chunks rd (b # bs) s =
     (case rd b s of (b', s) \<Rightarrow> case read_chunks rd bs s of (bs', s) \<Rightarrow> (b' # bs', s))"

lemma read_chunks_Cons:
  "read_chunks rd (b # bs) s =
     (fst (rd b s) # fst (read_chunks rd bs (snd (rd b s))), snd (read_chunks rd bs (snd (rd b s))))"
  by (simp split: prod.split)

locale pending_source =
  fixes ok :: "'s \<Rightarrow> bool" and unread :: "'s \<Rightarrow> byte list"
    and read_into :: "byte list \<Rightarrow> 's \<Rightarrow> byte list \<times> 's"
  assumes keeps_ok: "ok s \<Longrightarrow> ok (snd (read_into b s))"
    and keeps_size: "ok s \<Longrightarrow> length (fst (read_into b s)) = length b"
    and delivers: "ok s \<Longrightarrow> take (length (unread s)) (fst (read_into b s)) = take (length b) (unread s)"
    and consumes: "ok s \<Longrightarrow> unread (snd (read_into b s)) = drop (length b) (unread s)"
begin

lemma delivers_all:
  assumes "ok s"
  shows "fst (read_into b s) = take (length b) (unread s) @ drop (length (unread s)) (fst (read_into b s))"
  using append_take_drop_id [of "length (unread s)" "fst (read_into b s)"] delivers [OF assms] by metis

text \<open>
  However the reader cuts its reads, it gets the unread bytes in order, all of them if its
  buffers have the room, and they are then consumed.
\<close>

lemma chunks_deliver:
  "ok s \<Longrightarrow>
     take (length (unread s)) (concat (fst (read_chunks read_into bs s))) = take (length (concat bs)) (unread s) \<and>
     unread (snd (read_chunks read_into bs s)) = drop (length (concat bs)) (unread s) \<and>
     ok (snd (read_chunks read_into bs s))"
proof (induction bs arbitrary: s)
  case Nil
  then show ?case by simp
next
  case (Cons b bs)
  define r where "r = read_into b s"
  define s' where "s' = snd r"
  have eq: "read_chunks read_into (b # bs) s = (fst r # fst (read_chunks read_into bs s'), snd (read_chunks read_into bs s'))"
    unfolding s'_def r_def by (rule read_chunks_Cons)
  have ok: "ok s'" unfolding s'_def r_def by (rule keeps_ok [OF Cons.prems])
  have un: "unread s' = drop (length b) (unread s)" unfolding s'_def r_def by (rule consumes [OF Cons.prems])
  note IH = Cons.IH [OF ok]
  note first = delivers [OF Cons.prems, of b, folded r_def] keeps_size [OF Cons.prems, of b, folded r_def]
  have "take (length (unread s)) (fst r @ concat (fst (read_chunks read_into bs s'))) =
      take (length b + length (concat bs)) (unread s)"
  proof (cases "length (unread s) \<le> length b")
    case True
    then show ?thesis using first by simp
  next
    case False
    then have "fst r = take (length b) (unread s)" using first by simp
    with False IH un show ?thesis by (simp add: take_add)
  qed
  then show ?case
    using IH un unfolding eq by (simp add: add.commute)
qed

lemma chunks_size: "ok s \<Longrightarrow> length (concat (fst (read_chunks read_into bs s))) = length (concat bs)"
proof (induction bs arbitrary: s)
  case (Cons b bs)
  then show ?case
    using keeps_size [OF Cons.prems, of b] Cons.IH [OF keeps_ok [OF Cons.prems]]
    by (simp add: read_chunks_Cons del: read_chunks.simps)
qed simp

text \<open>In particular, buffers whose sizes add up to what is unread receive exactly that.\<close>

lemma chunks_exact:
  assumes "ok s" "length (concat bs) = length (unread s)"
  shows "concat (fst (read_chunks read_into bs s)) = unread s" "unread (snd (read_chunks read_into bs s)) = []"
    "ok (snd (read_chunks read_into bs s))"
  using chunks_deliver [OF assms(1), of bs] chunks_size [OF assms(1), of bs] assms(2) by simp_all

end

end
