(* ===== verification/I2c.thy ===== *)
theory I2c
  imports Response
begin

text \<open>
  The I2C driver (\<open>hwe_i2c.c\<close>): message transfers, SMBus transfers on the virtual chip,
  asynchronous reception, and the list of private data, whose elements are reused.

  \<open>search\<close> is the search among the device's pairs, \<open>find_response(dev->hwedev, ...)\<close>; the theory
  \<open>System\<close> passes the device's. The list \<open>devices\<close> holds the private data with their addresses,
  the first element first. The adapter inside the private data is known to the kernel from
  \<open>i2c_add_adapter\<close> to \<open>i2c_del_adapter\<close>: \<open>adapter_on\<close>. Debug messages are left out.

  An SMBus \<open>data\<close> argument is the memory of \<open>union i2c_smbus_data\<close>, 34 bytes: \<open>byte\<close> and \<open>word\<close> are its
  first one and two bytes. Copying a \<open>word\<close> from or to the chip copies two bytes whatever the
  byte order of the machine; \<open>be\<close> (big endian) matters only where a \<open>word\<close> is made of one byte.
\<close>

section \<open>State\<close>

definition I2C_CHIP_SIZE :: nat where
  "I2C_CHIP_SIZE = 256"

definition I2C_SMBUS_BLOCK_MAX :: nat where
  "I2C_SMBUS_BLOCK_MAX = 32"

record hwe_chip =
  pos :: byte
  dat :: "byte list"

record i2c_priv = resp_buf +
  in_use :: bool
  i2c_hwedev :: nat
  i2c_index :: nat
  chip :: hwe_chip
  adapter_on :: bool

record i2c_msg =
  m_rd :: bool
  m_len :: nat
  m_buf :: "byte list"

type_synonym search_fn = "byte list \<Rightarrow> nat \<Rightarrow> hwe_pair option"

section \<open>Message transfers\<close>

definition do_msg :: "search_fn \<Rightarrow> int \<Rightarrow> i2c_msg \<Rightarrow> i2c_priv \<Rightarrow> int \<times> i2c_msg \<times> i2c_priv" where
  "do_msg search err m dev =
     (if m_rd m then
        (if rb_size dev \<noteq> 0 then
           (case take_response (m_len m) dev of
              (bs, dev) \<Rightarrow> (err, m\<lparr>m_buf := memcpy_at (m_buf m) 0 bs\<rparr>, dev))
         else (- EINVAL, m\<lparr>m_len := 0\<rparr>, dev))
      else
        (case search (m_buf m) (m_len m) of
           Some pair \<Rightarrow> (err, m, load_response pair False dev)
         | None \<Rightarrow> (err, m, dev\<lparr>rb_size := 0\<rparr>)))"

fun do_msgs :: "search_fn \<Rightarrow> int \<Rightarrow> i2c_msg list \<Rightarrow> i2c_priv \<Rightarrow> int \<times> i2c_msg list \<times> i2c_priv" where
  "do_msgs search err [] dev = (err, [], dev)"
| "do_msgs search err (m # msgs) dev =
     (case do_msg search err m dev of
        (err, m, dev) \<Rightarrow>
          (case do_msgs search err msgs dev of (err, msgs, dev) \<Rightarrow> (err, m # msgs, dev)))"

definition do_master_xfer :: "search_fn \<Rightarrow> i2c_msg list \<Rightarrow> i2c_priv \<Rightarrow> int \<times> i2c_msg list \<times> i2c_priv" where
  "do_master_xfer search msgs dev = do_msgs search (int (length msgs)) msgs dev"

section \<open>SMBus transfers\<close>

datatype smbus_size = I2C_SMBUS_QUICK | I2C_SMBUS_BYTE | I2C_SMBUS_BYTE_DATA | I2C_SMBUS_WORD_DATA
  | I2C_SMBUS_I2C_BLOCK_DATA | I2C_SMBUS_BLOCK_DATA | I2C_SMBUS_OTHER

definition block_len :: "byte \<Rightarrow> byte \<Rightarrow> byte" where
  "block_len cmd b0 =
     (let b0 = (if unat b0 > I2C_SMBUS_BLOCK_MAX then of_nat I2C_SMBUS_BLOCK_MAX else b0)
      in if unat b0 > I2C_CHIP_SIZE - unat cmd then of_nat (I2C_CHIP_SIZE - unat cmd) else b0)"

definition smbus_block ::
  "bool \<Rightarrow> byte \<Rightarrow> byte list \<Rightarrow> hwe_chip \<Rightarrow> int \<times> byte list \<times> hwe_chip" where
  "smbus_block write cmd data c =
     (let data = data[0 := block_len cmd (data ! 0)];
          len = unat (data ! 0)
      in if write then (0, data, c\<lparr>dat := memcpy_at (dat c) (unat cmd) (read_at data 1 len)\<rparr>)
         else (0, memcpy_at data 1 (read_at (dat c) (unat cmd) len), c))"

fun do_smbus_xfer ::
  "bool \<Rightarrow> bool \<Rightarrow> byte \<Rightarrow> smbus_size \<Rightarrow> byte list \<Rightarrow> hwe_chip \<Rightarrow> int \<times> byte list \<times> hwe_chip" where
  "do_smbus_xfer be write cmd I2C_SMBUS_QUICK data c = (0, data, c)"
| "do_smbus_xfer be write cmd I2C_SMBUS_BYTE data c =
     (if write then (0, data, c\<lparr>pos := cmd\<rparr>)
      else (0, data[0 := dat c ! unat (pos c)], c\<lparr>pos := pos c + 1\<rparr>))"
| "do_smbus_xfer be write cmd I2C_SMBUS_BYTE_DATA data c =
     (if write then (0, data, c\<lparr>dat := (dat c)[unat cmd := data ! 0], pos := cmd + 1\<rparr>)
      else (0, data[0 := dat c ! unat cmd], c\<lparr>pos := cmd + 1\<rparr>))"
| "do_smbus_xfer be write cmd I2C_SMBUS_WORD_DATA data c =
     (if write then
        (if unat cmd < 0xFF then (0, data, c\<lparr>dat := memcpy_at (dat c) (unat cmd) (read_at data 0 2)\<rparr>)
         else (0, data, c\<lparr>dat := (dat c)[unat cmd := data ! (if be then 1 else 0)]\<rparr>))
      else
        (if unat cmd < 0xFF then (0, memcpy_at data 0 (read_at (dat c) (unat cmd) 2), c)
         else (0, memcpy_at data 0 (if be then [0, dat c ! unat cmd] else [dat c ! unat cmd, 0]), c)))"
| "do_smbus_xfer be write cmd I2C_SMBUS_I2C_BLOCK_DATA data c = smbus_block write cmd data c"
| "do_smbus_xfer be write cmd I2C_SMBUS_BLOCK_DATA data c = smbus_block write cmd data c"
| "do_smbus_xfer be write cmd I2C_SMBUS_OTHER data c = (- EOPNOTSUPP, data, c)"

datatype i2c_func_flag = I2C_FUNC_SMBUS_QUICK | I2C_FUNC_SMBUS_BYTE | I2C_FUNC_SMBUS_BYTE_DATA
  | I2C_FUNC_SMBUS_WORD_DATA | I2C_FUNC_SMBUS_I2C_BLOCK | I2C_FUNC_SMBUS_BLOCK_DATA | I2C_FUNC_OTHER

definition hwei2c_func :: "i2c_func_flag list" where
  "hwei2c_func = [I2C_FUNC_SMBUS_QUICK, I2C_FUNC_SMBUS_BYTE, I2C_FUNC_SMBUS_BYTE_DATA,
     I2C_FUNC_SMBUS_WORD_DATA, I2C_FUNC_SMBUS_I2C_BLOCK, I2C_FUNC_SMBUS_BLOCK_DATA]"

section \<open>Asynchronous reception\<close>

definition hwe_i2c_async_rx :: "hwe_pair \<Rightarrow> i2c_priv \<Rightarrow> i2c_priv" where
  "hwe_i2c_async_rx pair dev =
     (if \<not> in_use dev then dev
      else
        (let n = (if resp_size pair < I2C_CHIP_SIZE then resp_size pair else I2C_CHIP_SIZE);
             dev = dev\<lparr>chip := (chip dev)\<lparr>dat := memcpy_at (dat (chip dev)) 0 (read_at (resp pair) 0 n)\<rparr>\<rparr>
         in offer_async pair dev))"

section \<open>The list of private data\<close>

type_synonym i2c_list = "(nat \<times> i2c_priv) list"

record bus_env =
  kzalloc_addr :: "nat option"
  register_err :: int
  spi_dev_ok :: bool

definition zeroed_i2c :: i2c_priv where
  "zeroed_i2c =
     \<lparr>rb_resp = replicate HWE_MAX_RESPONSE 0, rb_ptr = 0, rb_size = 0, rb_async = False,
      in_use = False, i2c_hwedev = 0, i2c_index = 0, chip = \<lparr>pos = 0, dat = replicate I2C_CHIP_SIZE 0\<rparr>,
      adapter_on = False\<rparr>"

definition init_dev :: "nat \<Rightarrow> nat \<Rightarrow> i2c_priv \<Rightarrow> i2c_priv" where
  "init_dev hwedev idx dev =
     dev\<lparr>in_use := True, i2c_hwedev := hwedev, i2c_index := idx, rb_size := 0,
         chip := \<lparr>pos = 0, dat = replicate I2C_CHIP_SIZE 0\<rparr>\<rparr>"

definition find_unused_dev :: "i2c_list \<Rightarrow> (nat \<times> i2c_priv) option" where
  "find_unused_dev devices = find (\<lambda>(a, dev). \<not> in_use dev) devices"

definition update_priv :: "nat \<Rightarrow> ('p \<Rightarrow> 'p) \<Rightarrow> (nat \<times> 'p) list \<Rightarrow> (nat \<times> 'p) list" where
  "update_priv a f devices = map (\<lambda>(b, dev). (b, if b = a then f dev else dev)) devices"

definition del_priv :: "nat \<Rightarrow> (nat \<times> 'p) list \<Rightarrow> (nat \<times> 'p) list" where
  "del_priv a devices = filter (\<lambda>(b, dev). b \<noteq> a) devices"

definition alloc_dev :: "bus_env \<Rightarrow> nat \<Rightarrow> nat \<Rightarrow> i2c_list \<Rightarrow> nat option \<times> i2c_list" where
  "alloc_dev E hwedev idx devices =
     (case find_unused_dev devices of
        Some (a, dev) \<Rightarrow> (Some a, update_priv a (init_dev hwedev idx) devices)
      | None \<Rightarrow>
          (case kzalloc_addr E of
             None \<Rightarrow> (None, devices)
           | Some a \<Rightarrow> (Some a, (a, init_dev hwedev idx zeroed_i2c) # devices)))"

definition hwe_create_i2c_device :: "bus_env \<Rightarrow> nat \<Rightarrow> nat \<Rightarrow> i2c_list \<Rightarrow> nat option \<times> i2c_list" where
  "hwe_create_i2c_device E hwedev idx devices =
     (if idx \<ge> HWE_MAX_DEVICES then (None, devices)
      else
        (case alloc_dev E hwedev idx devices of
           (None, devices) \<Rightarrow> (None, devices)
         | (Some a, devices) \<Rightarrow>
             if register_err E \<noteq> 0 then (None, del_priv a devices)
             else (Some a, update_priv a (\<lambda>dev. dev\<lparr>adapter_on := True\<rparr>) devices)))"

definition hwe_destroy_i2c_device :: "nat \<Rightarrow> i2c_list \<Rightarrow> i2c_list" where
  "hwe_destroy_i2c_device a devices = update_priv a (\<lambda>dev. dev\<lparr>in_use := False, adapter_on := False\<rparr>) devices"

definition hwe_init_i2c :: "int \<times> i2c_list" where
  "hwe_init_i2c = (0, [])"

fun cleanup_loop :: "nat list \<Rightarrow> i2c_list \<Rightarrow> i2c_list" where
  "cleanup_loop [] devices = devices"
| "cleanup_loop (a # rest) devices =
     (let devices =
        (case map_of devices a of
           Some dev \<Rightarrow> if in_use dev then hwe_destroy_i2c_device a devices else devices
         | None \<Rightarrow> devices)
      in cleanup_loop rest (del_priv a devices))"

definition hwe_cleanup_i2c :: "i2c_list \<Rightarrow> i2c_list" where
  "hwe_cleanup_i2c devices = cleanup_loop (map fst devices) devices"

section \<open>Memory safety\<close>

definition chip_ok :: "hwe_chip \<Rightarrow> bool" where
  "chip_ok c \<longleftrightarrow> length (dat c) = I2C_CHIP_SIZE"

definition i2c_ok :: "i2c_priv \<Rightarrow> bool" where
  "i2c_ok dev \<longleftrightarrow> rb_ok dev \<and> chip_ok (chip dev)"

lemma unat_byte: "unat (b :: byte) < 256"
proof -
  have "unat b < 2 ^ LENGTH(8)" by (rule unsigned_less)
  then show ?thesis by simp
qed

lemma block_len_bounds:
  "unat (block_len cmd b0) \<le> I2C_SMBUS_BLOCK_MAX" "unat cmd + unat (block_len cmd b0) \<le> I2C_CHIP_SIZE"
  "unat (block_len cmd b0) \<le> unat b0"
  "unat b0 \<le> I2C_SMBUS_BLOCK_MAX \<Longrightarrow> unat cmd + unat b0 \<le> I2C_CHIP_SIZE \<Longrightarrow> block_len cmd b0 = b0"
proof -
  have of_nat: "unat (of_nat k :: byte) = k" if "k < 256" for k
    using that by (simp add: unsigned_of_nat take_bit_nat_eq_self)
  obtain n where n: "n = I2C_CHIP_SIZE - unat cmd" by blast
  have "block_len cmd b0 = (let b0 = (if unat b0 > I2C_SMBUS_BLOCK_MAX then of_nat I2C_SMBUS_BLOCK_MAX else b0)
      in if unat b0 > n then of_nat n else b0)"
    by (simp only: block_len_def n)
  then have eq: "unat (block_len cmd b0) = min (min (unat b0) I2C_SMBUS_BLOCK_MAX) n"
    using unat_byte [of b0] of_nat [of n]
    by (auto simp: Let_def I2C_SMBUS_BLOCK_MAX_def of_nat min_def)
  have c: "unat cmd < I2C_CHIP_SIZE" using unat_byte [of cmd] by (simp add: I2C_CHIP_SIZE_def)
  then show "unat (block_len cmd b0) \<le> I2C_SMBUS_BLOCK_MAX" "unat cmd + unat (block_len cmd b0) \<le> I2C_CHIP_SIZE"
    "unat (block_len cmd b0) \<le> unat b0"
    unfolding eq n by simp_all
  show "unat b0 \<le> I2C_SMBUS_BLOCK_MAX \<Longrightarrow> unat cmd + unat b0 \<le> I2C_CHIP_SIZE \<Longrightarrow> block_len cmd b0 = b0"
    using c unfolding block_len_def Let_def by auto
qed

lemma smbus_block_safe:
  assumes "chip_ok c" "length data = 34"
  shows "chip_ok (snd (snd (smbus_block w cmd data c)))" "length (fst (snd (smbus_block w cmd data c))) = 34"
  using assms block_len_bounds(1,2) [of cmd "data ! 0"]
  by (simp_all add: smbus_block_def chip_ok_def Let_def I2C_SMBUS_BLOCK_MAX_def)

lemma do_smbus_xfer_safe:
  assumes "chip_ok c" "length data = 34"
  shows "chip_ok (snd (snd (do_smbus_xfer be w cmd sz data c)))" "length (fst (snd (do_smbus_xfer be w cmd sz data c))) = 34"
  using assms smbus_block_safe [OF assms] unat_byte [of cmd]
  by (cases sz; simp add: chip_ok_def I2C_CHIP_SIZE_def)+

definition msg_ok :: "i2c_msg \<Rightarrow> bool" where
  "msg_ok m \<longleftrightarrow> m_len m \<le> length (m_buf m)"

definition search_ok :: "search_fn \<Rightarrow> bool" where
  "search_ok search \<longleftrightarrow> (\<forall>rq n p. search rq n = Some p \<longrightarrow> wf_pair p)"

lemma do_msg_frame:
  "chip (snd (snd (do_msg search err m dev))) = chip dev" "in_use (snd (snd (do_msg search err m dev))) = in_use dev"
  by (simp_all add: do_msg_def take_response_def load_response_def Let_def split: option.split)

lemma do_msg_read:
  "m_rd m \<Longrightarrow> rb_size dev \<noteq> 0 \<Longrightarrow> do_msg search err m dev =
     (err, m\<lparr>m_buf := memcpy_at (m_buf m) 0 (fst (take_response (m_len m) dev))\<rparr>, snd (take_response (m_len m) dev))"
  "m_rd m \<Longrightarrow> rb_size dev = 0 \<Longrightarrow> do_msg search err m dev = (- EINVAL, m\<lparr>m_len := 0\<rparr>, dev)"
  by (simp_all add: do_msg_def split: prod.split)

lemma do_msg_write:
  "\<not> m_rd m \<Longrightarrow> do_msg search err m dev =
     (err, m, case search (m_buf m) (m_len m) of Some pair \<Rightarrow> load_response pair False dev | None \<Rightarrow> dev\<lparr>rb_size := 0\<rparr>)"
  by (simp add: do_msg_def split: option.split)

lemma do_msg_safe:
  assumes "rb_ok dev" "msg_ok m" "search_ok search"
  shows "rb_ok (snd (snd (do_msg search err m dev)))"
    "length (m_buf (fst (snd (do_msg search err m dev)))) = length (m_buf m)"
proof -
  have arr: "length (rb_resp dev) = HWE_MAX_RESPONSE" using assms(1) by (simp add: rb_ok_def)
  have len: "length (fst (take_response (m_len m) dev)) \<le> m_len m"
    unfolding take_response_ok(1) [OF assms(1)] by simp
  consider "m_rd m" "rb_size dev \<noteq> 0" | "m_rd m" "rb_size dev = 0" | "\<not> m_rd m" by blast
  then have "rb_ok (snd (snd (do_msg search err m dev))) \<and>
      length (m_buf (fst (snd (do_msg search err m dev)))) = length (m_buf m)"
  proof cases
    case 1
    then show ?thesis using take_response_ok(3) [OF assms(1)] len assms(2) by (simp add: do_msg_read(1) msg_ok_def)
  next
    case 2
    then show ?thesis using assms(1) by (simp add: do_msg_read(2))
  next
    case 3
    then show ?thesis
      using assms(3) arr load_response_ok(1) [OF arr] by (auto simp: do_msg_write search_ok_def split: option.split)
  qed
  then show "rb_ok (snd (snd (do_msg search err m dev)))"
    "length (m_buf (fst (snd (do_msg search err m dev)))) = length (m_buf m)" by simp_all
qed

lemma do_msgs_safe:
  assumes "rb_ok dev" "list_all msg_ok msgs" "search_ok search"
  shows "rb_ok (snd (snd (do_msgs search err msgs dev))) \<and>
    map (length \<circ> m_buf) (fst (snd (do_msgs search err msgs dev))) = map (length \<circ> m_buf) msgs \<and>
    chip (snd (snd (do_msgs search err msgs dev))) = chip dev \<and>
    in_use (snd (snd (do_msgs search err msgs dev))) = in_use dev"
  using assms(1,2)
proof (induction msgs arbitrary: err dev)
  case Nil
  then show ?case by simp
next
  case (Cons m msgs)
  obtain e m' dev' where step: "do_msg search err m dev = (e, m', dev')" by (cases "do_msg search err m dev")
  have "rb_ok dev'" "length (m_buf m') = length (m_buf m)" "chip dev' = chip dev" "in_use dev' = in_use dev"
    using do_msg_safe [of dev m search err] do_msg_frame [of search err m dev] step Cons.prems assms(3) by auto
  then show ?case
    using Cons.IH [of dev' e] Cons.prems(2) step by (cases "do_msgs search e msgs dev'") simp
qed


lemma zeroed_i2c_ok: "i2c_ok zeroed_i2c"
  by (simp add: i2c_ok_def zeroed_i2c_def rb_ok_def chip_ok_def)


section \<open>Requests and responses\<close>

definition rd_msg :: "byte list \<Rightarrow> i2c_msg" where
  "rd_msg b = \<lparr>m_rd = True, m_len = length b, m_buf = b\<rparr>"

definition wr_msg :: "byte list \<Rightarrow> i2c_msg" where
  "wr_msg b = \<lparr>m_rd = False, m_len = length b, m_buf = b\<rparr>"

definition i2c_read :: "byte list \<Rightarrow> i2c_priv \<Rightarrow> byte list \<times> i2c_priv" where
  "i2c_read b dev = (case do_msg (\<lambda>rq n. None) 0 (rd_msg b) dev of (err, m, dev) \<Rightarrow> (m_buf m, dev))"

lemma i2c_read_eq:
  assumes "rb_ok dev"
  shows "i2c_read b dev = (memcpy_at b 0 (take (length b) (pending dev)), snd (take_response (length b) dev))"
proof (cases "rb_size dev = 0")
  case True
  then have "snd (take_response (length b) dev) = dev" by (simp add: take_response_def Let_def)
  then show ?thesis using True pending_Nil [OF assms] by (simp add: i2c_read_def do_msg_def rd_msg_def)
next
  case False
  then show ?thesis using take_response_ok(1) [OF assms, of "length b"]
    by (simp add: i2c_read_def do_msg_read rd_msg_def)
qed

interpretation i2c_reads: pending_source rb_ok pending i2c_read
proof
  fix dev :: i2c_priv and b :: "byte list"
  assume ok: "rb_ok dev"
  show "rb_ok (snd (i2c_read b dev))" "pending (snd (i2c_read b dev)) = drop (length b) (pending dev)"
    using take_response_ok [OF ok] by (simp_all add: i2c_read_eq [OF ok])
  show "length (fst (i2c_read b dev)) = length b"
    by (simp add: i2c_read_eq [OF ok])
  show "take (length (pending dev)) (fst (i2c_read b dev)) = take (length b) (pending dev)"
    by (simp add: i2c_read_eq [OF ok] memcpy_at_def min_def)
qed

lemma do_msgs_reads:
  assumes "rb_ok dev" "[] \<notin> set bs" "length (concat bs) \<le> rb_size dev"
  shows "do_msgs search err (map rd_msg bs) dev =
    (err, map rd_msg (fst (read_chunks i2c_read bs dev)), snd (read_chunks i2c_read bs dev))"
  using assms
proof (induction bs arbitrary: dev)
  case Nil
  then show ?case by simp
next
  case (Cons b bs)
  define dev' where "dev' = snd (take_response (length b) dev)"
  have ok: "rb_ok dev'" "rb_size dev' = rb_size dev - length b"
    using take_response_ok(3) [OF Cons.prems(1)] take_response_size [OF Cons.prems(1)] by (simp_all add: dev'_def)
  have "b \<noteq> []" using Cons.prems(2) by auto
  then have "rb_size dev \<noteq> 0" using Cons.prems(3) by (cases b) auto
  moreover have "length (memcpy_at b 0 (take (length b) (pending dev))) = length b" by simp
  ultimately have step: "do_msg search err (rd_msg b) dev = (err, rd_msg (fst (i2c_read b dev)), dev')"
    using take_response_ok(1) [OF Cons.prems(1), of "length b"]
    by (simp add: do_msg_read rd_msg_def i2c_read_eq [OF Cons.prems(1)] dev'_def)
  have "do_msgs search err (map rd_msg bs) dev' =
      (err, map rd_msg (fst (read_chunks i2c_read bs dev')), snd (read_chunks i2c_read bs dev'))"
    using Cons.prems ok by (intro Cons.IH) auto
  moreover have "snd (i2c_read b dev) = dev'" by (simp add: i2c_read_eq [OF Cons.prems(1)] dev'_def)
  ultimately show ?case using step by (simp add: read_chunks_Cons del: read_chunks.simps)
qed

lemma i2c_answers:
  assumes "rb_ok dev" "search rq (length rq) = Some p" "wf_pair p" "[] \<notin> set bs"
    "length (concat bs) = resp_size p"
  shows "\<exists>bs' dev'. do_master_xfer search (wr_msg rq # map rd_msg bs) dev =
      (int (length bs) + 1, wr_msg rq # map rd_msg bs', dev') \<and>
    concat bs' = resp_bytes p \<and> rb_size dev' = 0 \<and> rb_ok dev'"
proof -
  define dev1 where "dev1 = load_response p False dev"
  have "length (rb_resp dev) = HWE_MAX_RESPONSE" using assms(1) by (simp add: rb_ok_def)
  note loaded = load_response_ok [OF this assms(3), of False, folded dev1_def]
  have first: "do_msg search e (wr_msg rq) dev = (e, wr_msg rq, dev1)" for e
    using assms(2) by (simp add: do_msg_def wr_msg_def dev1_def)
  note reads = do_msgs_reads [OF loaded(1) assms(4), of search "int (length bs) + 1"]
  have len: "length (concat bs) = length (pending dev1)" using loaded(2) assms(3,5) by simp
  note exact = i2c_reads.chunks_exact [OF loaded(1) len]
  have "concat (fst (read_chunks i2c_read bs dev1)) = resp_bytes p" using exact(1) loaded(2) by simp
  moreover have "rb_size (snd (read_chunks i2c_read bs dev1)) = 0" "rb_ok (snd (read_chunks i2c_read bs dev1))"
    using exact(2,3) pending_Nil [OF exact(3)] by simp_all
  moreover have "do_master_xfer search (wr_msg rq # map rd_msg bs) dev =
      (int (length bs) + 1, wr_msg rq # map rd_msg (fst (read_chunks i2c_read bs dev1)), snd (read_chunks i2c_read bs dev1))"
    using reads loaded(3) assms(5) first by (simp add: do_master_xfer_def add.commute)
  ultimately show ?thesis by blast
qed

section \<open>The chip is a memory\<close>

fun smbus_read_bytes :: "nat \<Rightarrow> hwe_chip \<Rightarrow> byte list \<times> hwe_chip" where
  "smbus_read_bytes 0 c = ([], c)"
| "smbus_read_bytes (Suc n) c =
     (case do_smbus_xfer False False 0 I2C_SMBUS_BYTE (replicate 34 0) c of
        (err, data, c) \<Rightarrow> (case smbus_read_bytes n c of (bs, c) \<Rightarrow> (data ! 0 # bs, c)))"

lemma unat_byte_Suc: "unat (b + 1 :: byte) = (unat b + 1) mod 256"
  by (simp add: unat_word_ariths)

lemma smbus_read_bytes_eq:
  "fst (smbus_read_bytes n c) = map (\<lambda>j. dat c ! ((unat (pos c) + j) mod 256)) [0..<n]"
proof (induction n arbitrary: c)
  case 0
  then show ?case by simp
next
  case (Suc n)
  have "(unat (pos c + 1) + j) mod 256 = (unat (pos c) + Suc j) mod 256" for j
    by (simp add: unat_byte_Suc mod_add_left_eq)
  then have "fst (smbus_read_bytes n (c\<lparr>pos := pos c + 1\<rparr>)) = map (\<lambda>j. dat c ! ((unat (pos c) + Suc j) mod 256)) [0..<n]"
    by (simp add: Suc.IH)
  moreover have "unat (pos c) mod 256 = unat (pos c)" using unat_byte [of "pos c"] by simp
  ultimately show ?case
    by (cases "smbus_read_bytes n (c\<lparr>pos := pos c + 1\<rparr>)")
      (simp add: upt_conv_Cons map_Suc_upt [symmetric] comp_def del: upt_Suc)
qed

lemma smbus_block_write:
  assumes "chip_ok c" "length bs \<le> 32" "unat cmd + length bs \<le> 256" "data = of_nat (length bs) # bs @ pad"
  shows "smbus_block True cmd data c = (0, data, c\<lparr>dat := memcpy_at (dat c) (unat cmd) bs\<rparr>)"
proof -
  have n: "unat (of_nat (length bs) :: byte) = length bs"
    using assms(2) by (simp add: unsigned_of_nat take_bit_nat_eq_self)
  then have "block_len cmd (data ! 0) = data ! 0"
    using assms by (intro block_len_bounds(4)) (simp_all add: I2C_SMBUS_BLOCK_MAX_def I2C_CHIP_SIZE_def)
  then show ?thesis using n by (simp add: smbus_block_def Let_def assms(4) read_at_def)
qed

lemma smbus_block_read:
  assumes "length data = 34" "data ! 0 = of_nat n" "n \<le> 32" "unat cmd + n \<le> 256"
  shows "smbus_block False cmd data c = (0, memcpy_at data 1 (read_at (dat c) (unat cmd) n), c)"
proof -
  have n: "unat (of_nat n :: byte) = n"
    using assms(3) by (simp add: unsigned_of_nat take_bit_nat_eq_self)
  then have "block_len cmd (data ! 0) = data ! 0"
    using assms by (intro block_len_bounds(4)) (simp_all add: I2C_SMBUS_BLOCK_MAX_def I2C_CHIP_SIZE_def)
  then have "data[0 := block_len cmd (data ! 0)] = data" by simp
  then show ?thesis using n assms(2) by (simp add: smbus_block_def Let_def)
qed

text \<open>C26: the virtual chip is a memory of 256 bytes. A block written at a register is what a block
  read at that register returns, and what single-byte reads return one after the other once
  the position has been set there; all registers outside the block keep their values.\<close>

theorem smbus_chip_is_memory:
  assumes "chip_ok c" "length bs \<le> 32" "unat cmd + length bs \<le> 256"
    "data = of_nat (length bs) # bs @ pad" "length data2 = 34" "data2 ! 0 = of_nat (length bs)"
  shows "let c1 = snd (snd (do_smbus_xfer be True cmd I2C_SMBUS_BLOCK_DATA data c));
             c2 = snd (snd (do_smbus_xfer be True cmd I2C_SMBUS_BYTE data c1))
         in read_at (fst (snd (do_smbus_xfer be False cmd I2C_SMBUS_I2C_BLOCK_DATA data2 c1))) 1 (length bs) = bs \<and>
           fst (smbus_read_bytes (length bs) c2) = bs \<and>
           (\<forall>k < 256. k < unat cmd \<or> unat cmd + length bs \<le> k \<longrightarrow> dat c1 ! k = dat c ! k)"
proof -
  have len: "length (dat c) = 256" using assms(1) by (simp add: chip_ok_def I2C_CHIP_SIZE_def)
  define d where "d = memcpy_at (dat c) (unat cmd) bs"
  have c1: "snd (snd (do_smbus_xfer be True cmd I2C_SMBUS_BLOCK_DATA data c)) = c\<lparr>dat := d\<rparr>"
    using smbus_block_write [OF assms(1-4)] by (simp add: d_def)
  have nth: "d ! k = (if unat cmd \<le> k \<and> k < unat cmd + length bs then bs ! (k - unat cmd) else dat c ! k)"
    if "k < 256" for k
    unfolding d_def using that len assms(3) by (intro nth_memcpy_at) simp_all
  have rd: "read_at d (unat cmd) (length bs) = bs"
    unfolding d_def using len assms(3) by (intro read_memcpy_at) simp_all
  have "read_at (fst (snd (do_smbus_xfer be False cmd I2C_SMBUS_I2C_BLOCK_DATA data2 (c\<lparr>dat := d\<rparr>)))) 1 (length bs) = bs"
    using smbus_block_read [OF assms(5,6,2,3)] rd assms(5) by (simp add: read_memcpy_at)
  moreover have "fst (smbus_read_bytes (length bs) (c\<lparr>dat := d, pos := cmd\<rparr>)) = bs"
    unfolding smbus_read_bytes_eq using nth assms(3) by (intro nth_equalityI) simp_all
  ultimately show ?thesis
    using nth unfolding Let_def c1 by simp
qed

theorem smbus_chip_is_memory_witness:
  "let c = \<lparr>pos = 9, dat = replicate 256 7\<rparr>;
       c1 = snd (snd (do_smbus_xfer False True 0xFE I2C_SMBUS_BLOCK_DATA (of_nat (length [1, 2 :: byte]) # [1, 2] @ replicate 31 0) c));
       c2 = snd (snd (do_smbus_xfer False True 0xFE I2C_SMBUS_BYTE (of_nat (length [1, 2 :: byte]) # [1, 2] @ replicate 31 0) c1))
   in read_at (fst (snd (do_smbus_xfer False False 0xFE I2C_SMBUS_I2C_BLOCK_DATA (replicate 34 (of_nat (length [1, 2 :: byte]))) c1))) 1 (length [1, 2 :: byte]) = [1, 2] \<and>
      fst (smbus_read_bytes (length [1, 2 :: byte]) c2) = [1, 2]"
  using smbus_chip_is_memory [of "\<lparr>pos = 9, dat = replicate 256 7\<rparr>" "[1, 2]" "0xFE"
      "of_nat (length [1, 2 :: byte]) # [1, 2] @ replicate 31 0" "replicate 31 0" "replicate 34 (of_nat (length [1, 2 :: byte]))" False]
  unfolding Let_def by (simp only: chip_ok_def I2C_CHIP_SIZE_def) simp

section \<open>Private data that is used again\<close>

text \<open>
  \<open>init_dev\<close> does not clear the response array, the pointer and the asynchronous flag. Two
  private data that differ only in what cannot be seen while no response is pending:
\<close>

definition i2c_same :: "i2c_priv \<Rightarrow> i2c_priv \<Rightarrow> bool" where
  "i2c_same d e \<longleftrightarrow> rb_ok d \<and> rb_ok e \<and> pending d = pending e \<and>
     (rb_size d \<noteq> 0 \<longrightarrow> rb_async d = rb_async e \<and> (rb_ptr d = 0 \<longleftrightarrow> rb_ptr e = 0)) \<and>
     chip d = chip e \<and> in_use d = in_use e"

datatype i2c_op =
  Xfer search_fn "i2c_msg list"
| Smbus bool bool byte smbus_size "byte list"
| Async hwe_pair

datatype i2c_out = Msgs int "i2c_msg list" | Data int "byte list" | Nothing

fun i2c_step :: "i2c_op \<Rightarrow> i2c_priv \<Rightarrow> i2c_out \<times> i2c_priv" where
  "i2c_step (Xfer search msgs) dev =
     (case do_master_xfer search msgs dev of (err, msgs, dev) \<Rightarrow> (Msgs err msgs, dev))"
| "i2c_step (Smbus be w cmd sz data) dev =
     (case do_smbus_xfer be w cmd sz data (chip dev) of (err, data, c) \<Rightarrow> (Data err data, dev\<lparr>chip := c\<rparr>))"
| "i2c_step (Async pair) dev = (Nothing, hwe_i2c_async_rx pair dev)"

fun i2c_run :: "i2c_op list \<Rightarrow> i2c_priv \<Rightarrow> i2c_out list" where
  "i2c_run [] dev = []"
| "i2c_run (op # ops) dev = (case i2c_step op dev of (out, dev) \<Rightarrow> out # i2c_run ops dev)"

fun i2c_op_ok :: "i2c_op \<Rightarrow> bool" where
  "i2c_op_ok (Xfer search msgs) = (search_ok search \<and> list_all msg_ok msgs)"
| "i2c_op_ok (Smbus be w cmd sz data) = True"
| "i2c_op_ok (Async pair) = wf_pair pair"

lemma i2c_same_size: "i2c_same d e \<Longrightarrow> rb_size d = rb_size e"
  by (metis i2c_same_def length_pending)

lemma i2c_same_load:
  assumes "i2c_same d e" "wf_pair p"
  shows "i2c_same (load_response p a d) (load_response p a e)"
proof -
  have arr: "length (rb_resp d) = HWE_MAX_RESPONSE" "length (rb_resp e) = HWE_MAX_RESPONSE"
    using assms(1) by (simp_all add: i2c_same_def rb_ok_def)
  show ?thesis
    using load_response_ok(1,2) [OF arr(1) assms(2), of a] load_response_ok(1,2) [OF arr(2) assms(2), of a] assms(1)
    by (simp add: i2c_same_def) (simp add: load_response_def)
qed

lemma i2c_same_take:
  assumes "i2c_same d e"
  shows "fst (take_response n d) = fst (take_response n e)" "i2c_same (snd (take_response n d)) (snd (take_response n e))"
proof -
  have ok: "rb_ok d" "rb_ok e" "pending d = pending e" using assms by (simp_all add: i2c_same_def)
  show "fst (take_response n d) = fst (take_response n e)"
    using ok by (simp add: take_response_ok(1))
  show "i2c_same (snd (take_response n d)) (snd (take_response n e))"
    using assms take_response_ok(2,3) [OF ok(1), of n] take_response_ok(2,3) [OF ok(2), of n] i2c_same_size [OF assms]
    by (simp add: i2c_same_def) (auto simp: take_response_def Let_def)
qed

lemma i2c_same_msg:
  assumes "i2c_same d e" "search_ok search"
  shows "fst (do_msg search err m d) = fst (do_msg search err m e) \<and>
    fst (snd (do_msg search err m d)) = fst (snd (do_msg search err m e)) \<and>
    i2c_same (snd (snd (do_msg search err m d))) (snd (snd (do_msg search err m e)))"
proof -
  consider "m_rd m" "rb_size d \<noteq> 0" | "m_rd m" "rb_size d = 0" | "\<not> m_rd m" by blast
  then show ?thesis
  proof cases
    case 1
    then show ?thesis using i2c_same_take [OF assms(1)] i2c_same_size [OF assms(1)] by (simp add: do_msg_read(1))
  next
    case 2
    then show ?thesis using assms(1) i2c_same_size [OF assms(1)] by (simp add: do_msg_read(2))
  next
    case 3
    have "i2c_same (d\<lparr>rb_size := 0\<rparr>) (e\<lparr>rb_size := 0\<rparr>)"
      using assms(1) by (simp add: i2c_same_def rb_ok_def)
    then show ?thesis
      using 3 assms i2c_same_load by (auto simp: do_msg_write search_ok_def split: option.split)
  qed
qed

lemma i2c_same_msgs:
  assumes "i2c_same d e" "search_ok search"
  shows "fst (do_msgs search err ms d) = fst (do_msgs search err ms e) \<and>
    fst (snd (do_msgs search err ms d)) = fst (snd (do_msgs search err ms e)) \<and>
    i2c_same (snd (snd (do_msgs search err ms d))) (snd (snd (do_msgs search err ms e)))"
  using assms(1)
proof (induction ms arbitrary: err d e)
  case Nil
  then show ?case by simp
next
  case (Cons m ms)
  obtain er m' d' e' where steps: "do_msg search err m d = (er, m', d')" "do_msg search err m e = (er, m', e')"
    using i2c_same_msg [OF Cons.prems assms(2), of err m]
    by (cases "do_msg search err m d"; cases "do_msg search err m e") auto
  then have "i2c_same d' e'" using i2c_same_msg [OF Cons.prems assms(2), of err m] by simp
  from Cons.IH [OF this, of er] show ?case
    by (cases "do_msgs search er ms d'"; cases "do_msgs search er ms e'") (simp add: steps)
qed

lemma i2c_same_chip:
  "i2c_same d e \<Longrightarrow> i2c_same (d\<lparr>chip := c\<rparr>) (e\<lparr>chip := c\<rparr>)"
  by (simp add: i2c_same_def rb_ok_def pending_def)

lemma i2c_same_async:
  assumes "i2c_same d e" "wf_pair p"
  shows "i2c_same (hwe_i2c_async_rx p d) (hwe_i2c_async_rx p e)"
proof -
  have eqs: "in_use d = in_use e" "chip d = chip e" using assms(1) by (simp_all add: i2c_same_def)
  define c where "c = (chip d)\<lparr>dat := memcpy_at (dat (chip d)) 0 (read_at (resp p) 0 (if resp_size p < I2C_CHIP_SIZE then resp_size p else I2C_CHIP_SIZE))\<rparr>"
  have async: "hwe_i2c_async_rx p x = (if in_use x then offer_async p (x\<lparr>chip := c\<rparr>) else x)" if "chip x = chip d" for x
    using that by (simp add: hwe_i2c_async_rx_def c_def Let_def)
  have c: "i2c_same (d\<lparr>chip := c\<rparr>) (e\<lparr>chip := c\<rparr>)" by (rule i2c_same_chip [OF assms(1)])
  have "i2c_same (offer_async p (d\<lparr>chip := c\<rparr>)) (offer_async p (e\<lparr>chip := c\<rparr>))"
  proof -
    have "(rb_size (d\<lparr>chip := c\<rparr>) \<noteq> 0 \<and> (\<not> rb_async (d\<lparr>chip := c\<rparr>) \<or> rb_ptr (d\<lparr>chip := c\<rparr>) \<noteq> 0)) \<longleftrightarrow>
        (rb_size (e\<lparr>chip := c\<rparr>) \<noteq> 0 \<and> (\<not> rb_async (e\<lparr>chip := c\<rparr>) \<or> rb_ptr (e\<lparr>chip := c\<rparr>) \<noteq> 0))"
      using c i2c_same_size [OF c] unfolding i2c_same_def by argo
    then show ?thesis
      unfolding offer_async_def using c i2c_same_load [OF c assms(2), of True] by presburger
  qed
  then show ?thesis using assms(1) eqs by (simp add: async)
qed

lemma i2c_same_step:
  assumes "i2c_same d e" "i2c_op_ok op"
  shows "fst (i2c_step op d) = fst (i2c_step op e) \<and> i2c_same (snd (i2c_step op d)) (snd (i2c_step op e))"
proof (cases op)
  case (Xfer search msgs)
  then show ?thesis
    using i2c_same_msgs [OF assms(1), of search "int (length msgs)" msgs] assms(2)
    by (auto simp: do_master_xfer_def split: prod.split)
next
  case (Smbus be w cmd sz data)
  then show ?thesis
    using assms i2c_same_chip [OF assms(1)] by (auto simp: i2c_same_def split: prod.split)
next
  case (Async pair)
  then show ?thesis using i2c_same_async assms by simp
qed

lemma i2c_same_run:
  "i2c_same d e \<Longrightarrow> list_all i2c_op_ok ops \<Longrightarrow> i2c_run ops d = i2c_run ops e"
proof (induction ops arbitrary: d e)
  case (Cons op ops)
  have "fst (i2c_step op d) = fst (i2c_step op e)" "i2c_same (snd (i2c_step op d)) (snd (i2c_step op e))"
    using i2c_same_step [OF Cons.prems(1), of op] Cons.prems(2) by simp_all
  with Cons.IH [OF this(2)] Cons.prems(2) show ?case
    by (cases "i2c_step op d"; cases "i2c_step op e") simp
qed simp

lemma init_dev_same:
  assumes "length (rb_resp dev) = HWE_MAX_RESPONSE"
  shows "i2c_same (init_dev h n dev) (init_dev h n zeroed_i2c)"
  using assms by (simp add: i2c_same_def init_dev_def rb_ok_def pending_def zeroed_i2c_def)

text \<open>C27: private data that a removed device left behind and a new device uses again behave like
  fresh ones. Although the response array, the pointer and the flag of the old device are kept,
  no sequence of transfers, SMBus accesses and asynchronous packets returns anything
  different; in particular no byte of the old device's response can be read.\<close>

theorem recycled_i2c_device_is_fresh:
  assumes "i2c_ok old" "list_all i2c_op_ok ops"
  shows "i2c_run ops (init_dev hwedev idx old) = i2c_run ops (init_dev hwedev idx zeroed_i2c)"
  using assms by (intro i2c_same_run init_dev_same) (simp_all add: i2c_ok_def rb_ok_def)

theorem recycled_i2c_device_is_fresh_witness:
  "i2c_run [Xfer (\<lambda>rq n. None) [rd_msg [0, 0]], Async sample_pair, Xfer (\<lambda>rq n. None) [rd_msg [0, 0]]]
      (init_dev 3 3 (load_response sample_timer True zeroed_i2c)) =
   i2c_run [Xfer (\<lambda>rq n. None) [rd_msg [0, 0]], Async sample_pair, Xfer (\<lambda>rq n. None) [rd_msg [0, 0]]]
      (init_dev 3 3 zeroed_i2c)"
proof (rule recycled_i2c_device_is_fresh)
  have arr: "length (rb_resp zeroed_i2c) = HWE_MAX_RESPONSE" by (simp add: zeroed_i2c_def)
  show "i2c_ok (load_response sample_timer True zeroed_i2c)"
    using zeroed_i2c_ok load_response_ok(1) [OF arr sample_timer_wf(1)] by (simp add: i2c_ok_def) (simp add: load_response_def)
qed (simp add: search_ok_def msg_ok_def rd_msg_def sample_pair_wf)

section \<open>The pool of private data\<close>

definition i2c_list_ok :: "i2c_list \<Rightarrow> bool" where
  "i2c_list_ok devices \<longleftrightarrow> distinct (map fst devices) \<and>
     (\<forall>(a, dev) \<in> set devices. i2c_ok dev \<and> adapter_on dev = in_use dev)"

definition i2c_active :: "i2c_list \<Rightarrow> nat \<Rightarrow> i2c_priv option" where
  "i2c_active devices a =
     (case map_of devices a of Some dev \<Rightarrow> if in_use dev then Some dev else None | None \<Rightarrow> None)"

definition fresh_addr :: "bus_env \<Rightarrow> (nat \<times> 'p) list \<Rightarrow> bool" where
  "fresh_addr E devices \<longleftrightarrow> (\<forall>a. kzalloc_addr E = Some a \<longrightarrow> a \<notin> fst ` set devices)"

lemma map_fst_update [simp]: "map fst (update_priv a f devices) = map fst devices"
  by (simp add: update_priv_def case_prod_beta comp_def)

lemma map_of_update: "map_of (update_priv a f devices) b = (if b = a then map_option f (map_of devices a) else map_of devices b)"
  by (induction devices) (auto simp: update_priv_def)

lemma map_of_del: "map_of (del_priv a devices) b = (if b = a then None else map_of devices b)"
  by (induction devices) (auto simp: del_priv_def)

lemma set_update: "(b, e) \<in> set (update_priv a f devices) \<Longrightarrow> \<exists>d. (b, d) \<in> set devices \<and> e = (if b = a then f d else d)"
  by (auto simp: update_priv_def)

lemma distinct_del: "distinct (map fst devices) \<Longrightarrow> distinct (map fst (del_priv a devices))"
  unfolding del_priv_def by (rule distinct_map_filter)

lemma update_update: "update_priv a f (update_priv a g devices) = update_priv a (f \<circ> g) devices"
  by (auto simp: update_priv_def)

lemma init_dev_ok: "i2c_ok dev \<Longrightarrow> i2c_ok (init_dev h n dev)"
  by (simp add: i2c_ok_def init_dev_def rb_ok_def chip_ok_def)

lemma find_unused_Some:
  assumes "find_unused_dev devices = Some (a, dev)" "i2c_list_ok devices"
  shows "map_of devices a = Some dev" "\<not> in_use dev" "(a, dev) \<in> set devices"
proof -
  show mem: "(a, dev) \<in> set devices" and "\<not> in_use dev"
    using assms(1) nth_mem by (fastforce simp: find_unused_dev_def find_Some_iff)+
  show "map_of devices a = Some dev"
    using assms(2) mem by (intro map_of_is_SomeI) (simp_all add: i2c_list_ok_def)
qed

lemma find_unused_None: "find_unused_dev devices = None \<longleftrightarrow> (\<forall>(a, dev) \<in> set devices. in_use dev)"
  by (auto simp: find_unused_dev_def find_None_iff)

text \<open>The private data a successful creation installs.\<close>

definition i2c_created :: "nat \<Rightarrow> nat \<Rightarrow> i2c_priv \<Rightarrow> i2c_priv" where
  "i2c_created h n dev = (init_dev h n dev)\<lparr>adapter_on := True\<rparr>"

lemma hwe_create_reuse:
  assumes "find_unused_dev devices = Some (a, dev)" "n < HWE_MAX_DEVICES"
  shows "hwe_create_i2c_device E h n devices =
    (if register_err E \<noteq> 0 then (None, del_priv a devices)
     else (Some a, update_priv a (i2c_created h n) devices))"
proof -
  have "del_priv a (update_priv a f devices) = del_priv a devices" for f
    by (induction devices) (auto simp: del_priv_def update_priv_def)
  moreover have "(\<lambda>dev. dev\<lparr>adapter_on := True\<rparr>) \<circ> init_dev h n = i2c_created h n"
    by (auto simp: i2c_created_def)
  ultimately show ?thesis
    using assms by (simp add: hwe_create_i2c_device_def alloc_dev_def update_update)
qed

lemma priv_list_head:
  "del_priv a ((a, x) # ds) = del_priv a ds"
  "update_priv a f ((a, x) # ds) = (a, f x) # update_priv a f ds"
  by (simp_all add: del_priv_def update_priv_def)

lemma priv_list_other:
  "a \<notin> fst ` set ds \<Longrightarrow> del_priv a ds = ds" "a \<notin> fst ` set ds \<Longrightarrow> update_priv a f ds = ds"
  by (induction ds) (auto simp: del_priv_def update_priv_def)

lemma hwe_create_new:
  assumes "find_unused_dev devices = None" "n < HWE_MAX_DEVICES" "fresh_addr E devices"
  shows "hwe_create_i2c_device E h n devices =
    (case kzalloc_addr E of
       None \<Rightarrow> (None, devices)
     | Some a \<Rightarrow> if register_err E \<noteq> 0 then (None, devices) else (Some a, (a, i2c_created h n zeroed_i2c) # devices))"
proof (cases "kzalloc_addr E")
  case None
  then show ?thesis using assms by (simp add: hwe_create_i2c_device_def alloc_dev_def)
next
  case (Some a)
  then have "a \<notin> fst ` set devices" using assms(3) by (simp add: fresh_addr_def)
  then show ?thesis
    using assms(1,2) Some
    by (simp add: hwe_create_i2c_device_def alloc_dev_def i2c_created_def priv_list_head priv_list_other)
qed

lemma i2c_list_ok_update:
  assumes "i2c_list_ok devices" "\<And>dev. i2c_ok dev \<Longrightarrow> adapter_on dev = in_use dev \<Longrightarrow> i2c_ok (f dev) \<and> adapter_on (f dev) = in_use (f dev)"
  shows "i2c_list_ok (update_priv a f devices)"
  using assms by (fastforce simp: i2c_list_ok_def dest!: set_update split: if_splits)

lemma i2c_created_ok:
  "i2c_ok dev \<Longrightarrow> i2c_ok (i2c_created h n dev)" "adapter_on (i2c_created h n dev)" "in_use (i2c_created h n dev)"
  "i2c_hwedev (i2c_created h n dev) = h" "i2c_index (i2c_created h n dev) = n" "pending (i2c_created h n dev) = []"
  using init_dev_ok [of dev h n]
  by (simp_all add: i2c_created_def) (simp_all add: i2c_ok_def init_dev_def rb_ok_def chip_ok_def pending_def)

lemma i2c_create_outcome:
  assumes "i2c_list_ok devices" "fresh_addr E devices"
  shows "case hwe_create_i2c_device E h n devices of
      (None, devices') \<Rightarrow> i2c_list_ok devices' \<and> i2c_active devices' = i2c_active devices
    | (Some a, devices') \<Rightarrow> i2c_list_ok devices' \<and> i2c_active devices a = None \<and>
        (\<exists>dev. i2c_active devices' = (i2c_active devices)(a \<mapsto> dev) \<and> i2c_hwedev dev = h \<and> i2c_index dev = n \<and>
          pending dev = [] \<and> adapter_on dev) \<and>
        (length devices' = length devices \<or> length devices' = Suc (length devices) \<and> (\<forall>(b, dev) \<in> set devices. in_use dev))"
proof (cases "n < HWE_MAX_DEVICES")
  case False
  then show ?thesis using assms by (simp add: hwe_create_i2c_device_def)
next
  case n: True
  show ?thesis
  proof (cases "find_unused_dev devices")
    case (Some ad)
    obtain a dev where ad: "ad = (a, dev)" by (cases ad)
    note unused = find_unused_Some [OF Some [unfolded ad] assms(1)]
    have "i2c_list_ok (update_priv a (i2c_created h n) devices)"
      using assms(1) i2c_created_ok by (intro i2c_list_ok_update) auto
    moreover have "i2c_list_ok (del_priv a devices)"
      using assms(1) distinct_del by (auto simp: i2c_list_ok_def del_priv_def)
    moreover have "i2c_active (del_priv a devices) = i2c_active devices"
      using unused by (auto simp: i2c_active_def map_of_del fun_eq_iff)
    moreover have "i2c_active (update_priv a (i2c_created h n) devices) = (i2c_active devices)(a \<mapsto> i2c_created h n dev)"
      using unused by (auto simp: i2c_active_def map_of_update fun_eq_iff i2c_created_ok)
    moreover have "i2c_active devices a = None" using unused by (simp add: i2c_active_def)
    moreover have "length (update_priv a (i2c_created h n) devices) = length devices" by (simp add: update_priv_def)
    ultimately show ?thesis
      using i2c_created_ok(2-6) [of h n dev] by (auto simp: hwe_create_reuse [OF Some [unfolded ad] n])
  next
    case None
    show ?thesis
    proof (cases "kzalloc_addr E = None \<or> register_err E \<noteq> 0")
      case True
      then show ?thesis using assms by (cases "kzalloc_addr E") (auto simp: hwe_create_new [OF None n assms(2)])
    next
      case False
      then obtain a where a: "kzalloc_addr E = Some a" "register_err E = 0" by auto
      then have fresh: "a \<notin> fst ` set devices" using assms(2) by (simp add: fresh_addr_def)
      have "i2c_list_ok ((a, i2c_created h n zeroed_i2c) # devices)"
        using assms(1) fresh zeroed_i2c_ok i2c_created_ok by (simp add: i2c_list_ok_def)
      moreover have "i2c_active devices a = None"
        using fresh by (simp add: i2c_active_def map_of_eq_None_iff [THEN iffD2])
      moreover have "i2c_active ((a, i2c_created h n zeroed_i2c) # devices) = (i2c_active devices)(a \<mapsto> i2c_created h n zeroed_i2c)"
        by (auto simp: i2c_active_def fun_eq_iff i2c_created_ok)
      ultimately show ?thesis
        using a None i2c_created_ok(2-6) [of h n zeroed_i2c]
        by (auto simp: hwe_create_new [OF None n assms(2)] find_unused_None)
    qed
  qed
qed

lemma hwe_destroy_i2c_ok:
  assumes "i2c_list_ok devices"
  shows "i2c_list_ok (hwe_destroy_i2c_device a devices)"
    "i2c_active (hwe_destroy_i2c_device a devices) = (i2c_active devices)(a := None)"
proof -
  show "i2c_list_ok (hwe_destroy_i2c_device a devices)"
    unfolding hwe_destroy_i2c_device_def using assms
    by (intro i2c_list_ok_update) (auto simp: i2c_ok_def rb_ok_def)
  show "i2c_active (hwe_destroy_i2c_device a devices) = (i2c_active devices)(a := None)"
    by (auto simp: i2c_active_def hwe_destroy_i2c_device_def map_of_update fun_eq_iff split: option.split)
qed

lemma del_priv_head: "distinct (a # map fst ds) \<Longrightarrow> del_priv a ((a, x) # ds) = ds"
  by (simp add: priv_list_head priv_list_other)

lemma cleanup_loop_all: "distinct (map fst devices) \<Longrightarrow> cleanup_loop (map fst devices) devices = []"
proof (induction devices)
  case Nil
  then show ?case by simp
next
  case (Cons ad ds)
  obtain a dev where ad: "ad = (a, dev)" by (cases ad)
  then have "del_priv a (hwe_destroy_i2c_device a (ad # ds)) = ds" "del_priv a (ad # ds) = ds"
    using Cons.prems by (simp_all add: hwe_destroy_i2c_device_def priv_list_head priv_list_other)
  then show ?case using Cons by (simp add: ad)
qed

text \<open>Unloading the driver frees every element of the list, in use or not.\<close>

lemma hwe_cleanup_i2c_all: "i2c_list_ok devices \<Longrightarrow> hwe_cleanup_i2c devices = []"
  by (simp add: hwe_cleanup_i2c_def i2c_list_ok_def cleanup_loop_all)

end
