(* ===== verification/Spi.thy ===== *)
theory Spi
  imports I2c
begin

text \<open>
  The SPI driver (\<open>hwe_spi.c\<close>): transfers, asynchronous reception, and the list of controllers.
  \<open>search\<close> is the search among the device's pairs, as in the theory \<open>I2c\<close>, whose lists of
  private data it shares. A transfer has a length and two optional buffers of that length.
  The controller's driver data, which \<open>spi_alloc_master\<close> allocates and zeroes, is the private
  data; its address names the device. \<open>spi_masters\<close> are the controllers known to the kernel.
  Every transfer ends with \<open>spi_finalize_current_transfer\<close> and returns 0; log messages and the
  empty platform callbacks are left out.
\<close>

section \<open>State\<close>

record spi_priv = resp_buf +
  spi_hwedev :: nat
  spi_index :: nat

record spi_transfer =
  tx_buf :: "byte list option"
  rx_buf :: "byte list option"
  t_len :: nat

record spi_state =
  spi_list :: "(nat \<times> spi_priv) list"
  spi_masters :: "nat list"
  plat_device :: bool
  plat_driver :: bool

section \<open>Transfers\<close>

definition spi_read :: "nat \<Rightarrow> byte list \<Rightarrow> spi_priv \<Rightarrow> byte list \<times> spi_priv" where
  "spi_read len rx dev =
     (if rb_size dev \<noteq> 0 then
        (let sz = (if rb_size dev > len then len else rb_size dev);
             (bs, dev) = take_response len dev;
             rx = memcpy_at rx 0 bs
         in (if sz < len then memset_at rx sz 0 (len - sz) else rx, dev))
      else (memset_at rx 0 0 len, dev))"

definition hwespi_transfer_one :: "search_fn \<Rightarrow> spi_transfer \<Rightarrow> spi_priv \<Rightarrow> int \<times> spi_transfer \<times> spi_priv" where
  "hwespi_transfer_one search t dev =
     (let pair = (case tx_buf t of Some tx \<Rightarrow> search tx (t_len t) | None \<Rightarrow> None)
      in case (rx_buf t, tx_buf t) of
           (Some rx, Some tx) \<Rightarrow>
             (0, t\<lparr>rx_buf := Some (memset_at rx 0 0 (t_len t))\<rparr>, dev\<lparr>rb_size := 0\<rparr>)
         | (Some rx, None) \<Rightarrow>
             (case spi_read (t_len t) rx dev of (rx, dev) \<Rightarrow> (0, t\<lparr>rx_buf := Some rx\<rparr>, dev))
         | (None, Some tx) \<Rightarrow>
             (case pair of
                Some pair \<Rightarrow> (0, t, load_response pair False dev)
              | None \<Rightarrow> (0, t, dev\<lparr>rb_size := 0\<rparr>))
         | (None, None) \<Rightarrow> (0, t, dev))"

definition hwe_spi_async_rx :: "hwe_pair \<Rightarrow> spi_priv \<Rightarrow> spi_priv" where
  "hwe_spi_async_rx pair dev = offer_async pair dev"

section \<open>Controllers\<close>

definition zeroed_spi :: spi_priv where
  "zeroed_spi =
     \<lparr>rb_resp = replicate HWE_MAX_RESPONSE 0, rb_ptr = 0, rb_size = 0, rb_async = False,
      spi_hwedev = 0, spi_index = 0\<rparr>"

definition spi_new_dev :: "bus_env \<Rightarrow> nat \<Rightarrow> nat \<Rightarrow> spi_state \<Rightarrow> nat option \<times> spi_state" where
  "spi_new_dev E hwedev idx st =
     (case kzalloc_addr E of
        None \<Rightarrow> (None, st)
      | Some master \<Rightarrow>
          (let ret = zeroed_spi\<lparr>spi_hwedev := hwedev, spi_index := idx\<rparr>
           in if register_err E \<noteq> 0 then (None, st)
              else
                (let st = st\<lparr>spi_masters := master # spi_masters st\<rparr>
                 in if \<not> spi_dev_ok E then (None, st)
                    else (Some master, st\<lparr>spi_list := (master, ret) # spi_list st\<rparr>))))"

definition spi_del_dev :: "nat \<Rightarrow> spi_state \<Rightarrow> spi_state" where
  "spi_del_dev a st =
     st\<lparr>spi_list := del_priv a (spi_list st), spi_masters := removeAll a (spi_masters st)\<rparr>"

definition hwe_create_spi_device :: "bus_env \<Rightarrow> nat \<Rightarrow> nat \<Rightarrow> spi_state \<Rightarrow> nat option \<times> spi_state" where
  "hwe_create_spi_device E hwedev idx st = spi_new_dev E hwedev idx st"

definition hwe_destroy_spi_device :: "nat \<Rightarrow> spi_state \<Rightarrow> spi_state" where
  "hwe_destroy_spi_device a st = spi_del_dev a st"

definition hwe_init_spi :: "int \<Rightarrow> int \<Rightarrow> spi_state \<Rightarrow> int \<times> spi_state" where
  "hwe_init_spi plat_dev_err plat_drv_err st =
     (let st = st\<lparr>spi_list := []\<rparr>
      in if plat_dev_err \<noteq> 0 then (plat_dev_err, st)
         else
           (let st = st\<lparr>plat_device := True\<rparr>
            in if plat_drv_err \<noteq> 0 then (plat_drv_err, st\<lparr>plat_device := False\<rparr>)
               else (0, st\<lparr>plat_driver := True\<rparr>)))"

definition hwe_cleanup_spi :: "spi_state \<Rightarrow> spi_state" where
  "hwe_cleanup_spi st =
     (foldl (\<lambda>st a. hwe_destroy_spi_device a st) st (map fst (spi_list st)))\<lparr>plat_driver := False, plat_device := False\<rparr>"

section \<open>Requests and responses\<close>

definition spi_chunk :: "byte list \<Rightarrow> spi_priv \<Rightarrow> byte list \<times> spi_priv" where
  "spi_chunk b dev = spi_read (length b) b dev"

lemma spi_chunk_eq:
  assumes "rb_ok dev"
  shows "spi_chunk b dev =
    (take (length b) (pending dev) @ replicate (length b - rb_size dev) 0, snd (take_response (length b) dev))"
proof (cases "rb_size dev = 0")
  case True
  then have "snd (take_response (length b) dev) = dev" by (simp add: take_response_def Let_def)
  then show ?thesis
    using True pending_Nil [OF assms] by (simp add: spi_chunk_def spi_read_def memset_at_def memcpy_at_def)
next
  case False
  then show ?thesis
    using assms take_response_ok(1) [OF assms, of "length b"]
    by (cases "take_response (length b) dev") (simp add: spi_chunk_def spi_read_def memset_at_def memcpy_at_def Let_def)
qed

interpretation spi_reads: pending_source rb_ok pending spi_chunk
proof
  fix dev :: spi_priv and b :: "byte list"
  assume ok: "rb_ok dev"
  show "rb_ok (snd (spi_chunk b dev))" "pending (snd (spi_chunk b dev)) = drop (length b) (pending dev)"
    using take_response_ok [OF ok] by (simp_all add: spi_chunk_eq [OF ok])
  show "length (fst (spi_chunk b dev)) = length b"
    using ok by (simp add: spi_chunk_eq [OF ok])
  show "take (length (pending dev)) (fst (spi_chunk b dev)) = take (length b) (pending dev)"
    using ok by (simp add: spi_chunk_eq [OF ok] min_def)
qed

definition rx_only :: "byte list \<Rightarrow> spi_transfer" where
  "rx_only b = \<lparr>tx_buf = None, rx_buf = Some b, t_len = length b\<rparr>"

definition tx_only :: "byte list \<Rightarrow> spi_transfer" where
  "tx_only b = \<lparr>tx_buf = Some b, rx_buf = None, t_len = length b\<rparr>"

definition tx_rx :: "byte list \<Rightarrow> byte list \<Rightarrow> spi_transfer" where
  "tx_rx a b = \<lparr>tx_buf = Some a, rx_buf = Some b, t_len = length b\<rparr>"

fun spi_transfers :: "search_fn \<Rightarrow> spi_transfer list \<Rightarrow> spi_priv \<Rightarrow> spi_transfer list \<times> spi_priv" where
  "spi_transfers search [] dev = ([], dev)"
| "spi_transfers search (t # ts) dev =
     (case hwespi_transfer_one search t dev of
        (err, t, dev) \<Rightarrow> (case spi_transfers search ts dev of (ts, dev) \<Rightarrow> (t # ts, dev)))"

lemma transfer_rx_only:
  "hwespi_transfer_one search (rx_only b) dev = (0, rx_only (fst (spi_chunk b dev)), snd (spi_chunk b dev))"
  if "rb_ok dev"
  using spi_reads.keeps_size [OF that, of b]
  by (simp add: hwespi_transfer_one_def rx_only_def spi_chunk_def split: prod.split)

lemma spi_transfers_reads:
  "rb_ok dev \<Longrightarrow> spi_transfers search (map rx_only bs) dev =
     (map rx_only (fst (read_chunks spi_chunk bs dev)), snd (read_chunks spi_chunk bs dev))"
proof (induction bs arbitrary: dev)
  case (Cons b bs)
  then show ?case
    using spi_reads.keeps_ok [OF Cons.prems, of b]
    by (simp add: transfer_rx_only read_chunks_Cons del: read_chunks.simps)
qed simp

lemma spi_answers:
  assumes "rb_ok dev" "search tx (length tx) = Some p" "wf_pair p"
  shows "\<exists>bs' dev'. spi_transfers search (tx_only tx # map rx_only bs) dev = (tx_only tx # map rx_only bs', dev') \<and>
    map length bs' = map length bs \<and>
    take (resp_size p) (concat bs') = take (length (concat bs)) (resp_bytes p) \<and>
    pending dev' = drop (length (concat bs)) (resp_bytes p) \<and> rb_ok dev'"
proof -
  define dev1 where "dev1 = load_response p False dev"
  have "length (rb_resp dev) = HWE_MAX_RESPONSE" using assms(1) by (simp add: rb_ok_def)
  note loaded = load_response_ok [OF this assms(3), of False, folded dev1_def]
  have first: "hwespi_transfer_one search (tx_only tx) dev = (0, tx_only tx, dev1)"
    using assms(2) by (simp add: hwespi_transfer_one_def tx_only_def dev1_def)
  have lengths: "map length (fst (read_chunks spi_chunk cs d)) = map length cs" if "rb_ok d" for cs d
    using that
  proof (induction cs arbitrary: d)
    case (Cons c cs)
    then show ?case
      using spi_reads.keeps_ok [OF Cons.prems, of c] spi_reads.keeps_size [OF Cons.prems, of c]
      by (simp add: read_chunks_Cons del: read_chunks.simps)
  qed simp
  have "length (pending dev1) = resp_size p" using loaded length_resp_bytes [OF assms(3)] by simp
  then show ?thesis
    using first spi_transfers_reads [OF loaded(1), of search bs] spi_reads.chunks_deliver [OF loaded(1), of bs]
      lengths [OF loaded(1), of bs] loaded(2)
    by (intro exI [of _ "fst (read_chunks spi_chunk bs dev1)"] exI [of _ "snd (read_chunks spi_chunk bs dev1)"]) simp
qed

lemma zeroed_spi_ok: "rb_ok zeroed_spi"
  by (simp add: zeroed_spi_def rb_ok_def)

text \<open>A read past the end of the response is padded with zeros.\<close>

lemma spi_read_padded:
  "rb_ok dev \<Longrightarrow> rb_size dev \<le> length b \<Longrightarrow>
     fst (spi_chunk b dev) = pending dev @ replicate (length b - rb_size dev) 0"
  by (simp add: spi_chunk_eq)

section \<open>Memory safety and full duplex\<close>

definition transfer_ok :: "spi_transfer \<Rightarrow> bool" where
  "transfer_ok t \<longleftrightarrow> (\<forall>b. tx_buf t = Some b \<longrightarrow> length b = t_len t) \<and> (\<forall>b. rx_buf t = Some b \<longrightarrow> length b = t_len t)"

lemma spi_transfer_keeps:
  assumes "rb_ok dev" "transfer_ok t" "search_ok search"
  shows "\<exists>t' dev'. hwespi_transfer_one search t dev = (0, t', dev') \<and> rb_ok dev' \<and> transfer_ok t' \<and> t_len t' = t_len t \<and>
    tx_buf t' = tx_buf t \<and> (rx_buf t' = None \<longleftrightarrow> rx_buf t = None) \<and>
    (tx_buf t \<noteq> None \<and> rx_buf t \<noteq> None \<longrightarrow> rx_buf t' = Some (replicate (t_len t) 0) \<and> pending dev' = [])"
proof (cases "rx_buf t")
  case None
  have arr: "length (rb_resp dev) = HWE_MAX_RESPONSE" using assms(1) by (simp add: rb_ok_def)
  show ?thesis
    using assms None arr load_response_ok(1) [OF arr]
    by (auto simp: hwespi_transfer_one_def search_ok_def split: option.split)
next
  case (Some rx)
  have arr: "length (rb_resp dev) = HWE_MAX_RESPONSE" using assms(1) by (simp add: rb_ok_def)
  have len: "length rx = t_len t" using assms(2) Some by (simp add: transfer_ok_def)
  show ?thesis
  proof (cases "tx_buf t")
    case None
    have rd: "spi_read (t_len t) rx dev = spi_chunk rx dev" by (simp add: spi_chunk_def len)
    show ?thesis
      using None Some assms(2) len spi_reads.keeps_ok [OF assms(1), of rx] spi_reads.keeps_size [OF assms(1), of rx]
      by (simp add: hwespi_transfer_one_def rd transfer_ok_def split: prod.split) auto
  next
    case tx: (Some tx)
    then show ?thesis
      using Some assms(2) len arr by (simp add: hwespi_transfer_one_def transfer_ok_def memset_at_def memcpy_at_def)
  qed
qed

text \<open>C30: memory safety of the SPI driver. Any transfer leaves its buffers and the response array at
  their sizes, that is, nothing is written outside them, and the bytes left to read inside
  the array; it returns 0. A transfer that writes and reads at once answers only zeros, even
  when a pair matches what it writes, and discards whatever response was pending.\<close>

theorem spi_transfer_safe:
  assumes "rb_ok dev" "transfer_ok t" "search_ok search"
  shows "\<exists>t' dev'. hwespi_transfer_one search t dev = (0, t', dev') \<and> rb_ok dev' \<and> transfer_ok t' \<and> t_len t' = t_len t \<and>
    tx_buf t' = tx_buf t \<and> (rx_buf t' = None \<longleftrightarrow> rx_buf t = None) \<and>
    (tx_buf t \<noteq> None \<and> rx_buf t \<noteq> None \<longrightarrow> rx_buf t' = Some (replicate (t_len t) 0) \<and> pending dev' = [])"
  by (rule spi_transfer_keeps [OF assms])

theorem spi_transfer_safe_witness:
  "\<exists>t' dev'. hwespi_transfer_one (\<lambda>rq n. Some sample_pair) (tx_rx [1] [0]) zeroed_spi = (0, t', dev') \<and> rb_ok dev' \<and> transfer_ok t' \<and>
    t_len t' = t_len (tx_rx [1] [0]) \<and> tx_buf t' = tx_buf (tx_rx [1] [0]) \<and> (rx_buf t' = None \<longleftrightarrow> rx_buf (tx_rx [1] [0]) = None) \<and>
    (tx_buf (tx_rx [1] [0]) \<noteq> None \<and> rx_buf (tx_rx [1] [0]) \<noteq> None \<longrightarrow>
      rx_buf t' = Some (replicate (t_len (tx_rx [1] [0])) 0) \<and> pending dev' = [])"
  by (rule spi_transfer_safe [OF zeroed_spi_ok]) (simp_all add: transfer_ok_def tx_rx_def search_ok_def sample_pair_wf)

section \<open>The list of controllers\<close>

definition spi_ok :: "spi_state \<Rightarrow> bool" where
  "spi_ok st \<longleftrightarrow> distinct (map fst (spi_list st)) \<and> (\<forall>(a, dev) \<in> set (spi_list st). rb_ok dev) \<and>
     fst ` set (spi_list st) \<subseteq> set (spi_masters st)"

lemma spi_create_outcome:
  assumes "spi_ok st" "\<forall>a. kzalloc_addr E = Some a \<longrightarrow> a \<notin> fst ` set (spi_list st)"
  shows "case hwe_create_spi_device E h n st of
      (None, st') \<Rightarrow> spi_list st' = spi_list st \<and>
        (spi_masters st' = spi_masters st \<or>
         (\<exists>a. kzalloc_addr E = Some a \<and> register_err E = 0 \<and> \<not> spi_dev_ok E \<and> spi_masters st' = a # spi_masters st))
    | (Some a, st') \<Rightarrow> spi_ok st' \<and> map_of (spi_list st) a = None \<and> a \<in> set (spi_masters st') \<and>
        (\<exists>dev. spi_list st' = (a, dev) # spi_list st \<and> spi_hwedev dev = h \<and> spi_index dev = n \<and> pending dev = [])"
proof (cases "kzalloc_addr E")
  case None
  then show ?thesis by (simp add: hwe_create_spi_device_def spi_new_dev_def)
next
  case (Some a)
  then have "a \<notin> fst ` set (spi_list st)" using assms(2) by simp
  then show ?thesis
    using Some assms(1) map_of_eq_None_iff [of "spi_list st" a] zeroed_spi_ok
    by (auto simp: hwe_create_spi_device_def spi_new_dev_def spi_ok_def Let_def rb_ok_def pending_def zeroed_spi_def)
qed

definition no_spi :: spi_state where
  "no_spi = \<lparr>spi_list = [], spi_masters = [], plat_device = True, plat_driver = True\<rparr>"

lemma spi_destroy_ok:
  "spi_ok st \<Longrightarrow> spi_ok (hwe_destroy_spi_device a st)"
  using distinct_del [of "spi_list st" a] by (auto simp: spi_ok_def hwe_destroy_spi_device_def spi_del_dev_def del_priv_def)

lemma spi_cleanup_all:
  "spi_list (foldl (\<lambda>st a. hwe_destroy_spi_device a st) st (map fst (spi_list st))) = []"
proof -
  have "spi_list (foldl (\<lambda>st a. hwe_destroy_spi_device a st) st xs) = filter (\<lambda>(a, dev). a \<notin> set xs) (spi_list st)" for xs
  proof (induction xs arbitrary: st)
    case (Cons a xs)
    then show ?case
      by (auto simp: hwe_destroy_spi_device_def spi_del_dev_def del_priv_def intro: filter_cong)
  qed simp
  then show ?thesis by (force simp: filter_empty_conv)
qed

end
