(* ===== verification/Tty_Net.thy ===== *)
theory Tty_Net
  imports Spi
begin

text \<open>
  The TTY driver (\<open>hwe_tty.c\<close>) and the network driver (\<open>hwe_net.c\<close>).

  TTY. \<open>devices[]\<close> and \<open>ports[]\<close> are arrays of 256; \<open>tty->driver_data\<close> points to the element of
  \<open>devices[]\<close> for the terminal's index, so it is that index here. A port is the bytes pushed to
  its reader so far. \<open>room\<close> is how many bytes \<open>tty_insert_flip_string_fixed_flag\<close> can take. What
  the kernel knows of the driver is in \<open>tty_nodes\<close> (the registered devices), \<open>tty_driver\<close> and
  \<open>ports_ready\<close>. The functions here run with the interface locked, as in the code.

  NET. The private data are kept in a list with their addresses, as for the buses. \<open>rx_frames\<close>
  are the frames handed to the network stack; \<open>skb_ok\<close> says whether \<open>dev_alloc_skb\<close> succeeds and
  \<open>rx_ret\<close> is the result of \<open>netif_rx\<close> (0, or 1 when it drops the frame). \<open>send_response\<close> uses the
  buffer without a test, so a failed allocation is an \<open>Oops\<close>.
\<close>

section \<open>TTY\<close>

record tty_priv =
  tty_hwedev :: nat
  tty_struct :: "nat option"
  tty_index :: nat

record tty_state =
  tty_devices :: "tty_priv option list"
  tty_ports :: "byte list list"
  tty_nodes :: "bool list"
  tty_driver :: bool
  ports_ready :: bool

definition hwetty_open :: "nat \<Rightarrow> nat \<Rightarrow> tty_state \<Rightarrow> int \<times> tty_state" where
  "hwetty_open driver_data tty st =
     (case tty_devices st ! driver_data of
        None \<Rightarrow> (- ENODEV, st)
      | Some dev \<Rightarrow>
          (0, st\<lparr>tty_devices := (tty_devices st)[driver_data := Some (dev\<lparr>tty_struct := Some tty\<rparr>)]\<rparr>))"

definition close_dev :: "tty_priv \<Rightarrow> tty_priv" where
  "close_dev dev = dev"

definition hwetty_close :: "nat \<Rightarrow> tty_state \<Rightarrow> tty_state" where
  "hwetty_close driver_data st =
     (case tty_devices st ! driver_data of
        None \<Rightarrow> st
      | Some dev \<Rightarrow> st\<lparr>tty_devices := (tty_devices st)[driver_data := Some (close_dev dev)]\<rparr>)"

definition push_port :: "nat \<Rightarrow> nat \<Rightarrow> hwe_pair \<Rightarrow> tty_state \<Rightarrow> tty_state" where
  "push_port room idx pair st =
     st\<lparr>tty_ports := (tty_ports st)[idx := tty_ports st ! idx @ take room (take (resp_size pair) (resp pair))]\<rparr>"

definition hwetty_write ::
  "(tty_priv \<Rightarrow> search_fn) \<Rightarrow> nat \<Rightarrow> nat \<Rightarrow> byte list \<Rightarrow> nat \<Rightarrow> tty_state \<Rightarrow> int \<times> tty_state" where
  "hwetty_write search room driver_data buffer cnt st =
     (case tty_devices st ! driver_data of
        None \<Rightarrow> (- ENODEV, st)
      | Some dev \<Rightarrow>
          (case search dev buffer cnt of
             Some pair \<Rightarrow> (int cnt, push_port room (tty_index dev) pair st)
           | None \<Rightarrow> (int cnt, st)))"

definition hwetty_write_room :: "nat \<Rightarrow> nat \<Rightarrow> tty_state \<Rightarrow> int" where
  "hwetty_write_room page_size driver_data st =
     (case tty_devices st ! driver_data of None \<Rightarrow> - ENODEV | Some dev \<Rightarrow> int page_size)"

text \<open>From kernel 5.14 on the same value is returned as an \<open>unsigned int\<close>.\<close>

definition hwetty_write_room_unsigned :: "nat \<Rightarrow> nat \<Rightarrow> tty_state \<Rightarrow> nat" where
  "hwetty_write_room_unsigned page_size driver_data st =
     unat (word_of_int (hwetty_write_room page_size driver_data st) :: 32 word)"

definition hwe_create_tty_device :: "bus_env \<Rightarrow> nat \<Rightarrow> nat \<Rightarrow> tty_state \<Rightarrow> nat option \<times> tty_state" where
  "hwe_create_tty_device E hwedev idx st =
     (if idx \<ge> HWE_MAX_DEVICES then (None, st)
      else if kzalloc_addr E = None then (None, st)
      else
        (let dev = \<lparr>tty_hwedev = hwedev, tty_struct = None, tty_index = idx\<rparr>;
             st = st\<lparr>tty_devices := (tty_devices st)[idx := Some dev]\<rparr>
         in if register_err E \<noteq> 0 then (None, st\<lparr>tty_devices := (tty_devices st)[idx := None]\<rparr>)
            else (Some idx, st\<lparr>tty_nodes := (tty_nodes st)[idx := True]\<rparr>)))"

definition hwe_destroy_tty_device :: "nat \<Rightarrow> tty_state \<Rightarrow> tty_state" where
  "hwe_destroy_tty_device idx st =
     st\<lparr>tty_nodes := (tty_nodes st)[idx := False], tty_devices := (tty_devices st)[idx := None]\<rparr>"

definition hwe_init_tty :: "bool \<Rightarrow> int \<Rightarrow> tty_state \<Rightarrow> int \<times> tty_state" where
  "hwe_init_tty alloc_ok reg_err st =
     (if \<not> alloc_ok then (- ENOMEM, st)
      else
        (let st = st\<lparr>ports_ready := True\<rparr>
         in if reg_err \<noteq> 0 then (reg_err, st\<lparr>ports_ready := False\<rparr>)
            else (0, st\<lparr>tty_driver := True\<rparr>)))"

definition tty_cleanup_step :: "tty_state \<Rightarrow> nat \<Rightarrow> tty_state" where
  "tty_cleanup_step st i = (if tty_devices st ! i \<noteq> None then hwe_destroy_tty_device i st else st)"

definition hwe_cleanup_tty :: "tty_state \<Rightarrow> tty_state" where
  "hwe_cleanup_tty st =
     (foldl tty_cleanup_step st [0..<HWE_MAX_DEVICES])\<lparr>tty_driver := False, ports_ready := False\<rparr>"

definition hwe_tty_async_rx :: "nat \<Rightarrow> nat \<Rightarrow> hwe_pair \<Rightarrow> tty_state \<Rightarrow> tty_state" where
  "hwe_tty_async_rx room idx pair st = push_port room idx pair st"

section \<open>NET\<close>

record net_priv =
  net_hwedev :: nat
  net_index :: nat
  registered :: bool
  queue_on :: bool
  rx_frames :: "byte list list"
  tx_bytes :: ulong
  tx_packets :: ulong
  rx_packets :: ulong

type_synonym net_list = "(nat \<times> net_priv) list"

record net_env =
  skb_ok :: bool
  rx_ret :: int

definition hwenet_open :: "net_priv \<Rightarrow> int \<times> net_priv" where
  "hwenet_open dev = (0, dev\<lparr>queue_on := True\<rparr>)"

definition hwenet_stop :: "net_priv \<Rightarrow> int \<times> net_priv" where
  "hwenet_stop dev = (0, dev\<lparr>queue_on := False\<rparr>)"

definition send_response :: "net_env \<Rightarrow> byte list \<Rightarrow> net_priv \<Rightarrow> (int \<times> net_priv) run" where
  "send_response E data dev =
     (if \<not> skb_ok E then Oops
      else Done (rx_ret E,
        dev\<lparr>rx_packets := rx_packets dev + 1,
            rx_frames := (if rx_ret E = 0 then rx_frames dev @ [data] else rx_frames dev)\<rparr>))"

definition hwenet_xmit :: "search_fn \<Rightarrow> net_env \<Rightarrow> byte list \<Rightarrow> net_priv \<Rightarrow> (int \<times> net_priv) run" where
  "hwenet_xmit search E skb dev =
     (let dev = dev\<lparr>tx_bytes := tx_bytes dev + of_nat (length skb), tx_packets := tx_packets dev + 1\<rparr>
      in case search skb (length skb) of
           Some pair \<Rightarrow> send_response E (take (resp_size pair) (resp pair)) dev
         | None \<Rightarrow> Done (0, dev))"

definition hwenet_init :: "nat \<Rightarrow> net_list \<Rightarrow> net_list" where
  "hwenet_init a devices =
     (a, \<lparr>net_hwedev = 0, net_index = 0, registered = False, queue_on = False, rx_frames = [],
          tx_bytes = 0, tx_packets = 0, rx_packets = 0\<rparr>) # devices"

definition hwe_create_net_device :: "bus_env \<Rightarrow> nat \<Rightarrow> nat \<Rightarrow> net_list \<Rightarrow> nat option \<times> net_list" where
  "hwe_create_net_device E hwedev idx devices =
     (case kzalloc_addr E of
        None \<Rightarrow> (None, devices)
      | Some ndev \<Rightarrow>
          (let devices = hwenet_init ndev devices;
               devices = update_priv ndev (\<lambda>priv. priv\<lparr>net_index := idx, net_hwedev := hwedev\<rparr>) devices
           in if register_err E \<noteq> 0 then (None, del_priv ndev devices)
              else (Some ndev, update_priv ndev (\<lambda>priv. priv\<lparr>registered := True\<rparr>) devices)))"

definition hwe_destroy_net_device :: "nat \<Rightarrow> net_list \<Rightarrow> net_list" where
  "hwe_destroy_net_device a devices = del_priv a devices"

definition hwe_init_net :: "int \<times> net_list" where
  "hwe_init_net = (0, [])"

definition hwe_cleanup_net :: "net_list \<Rightarrow> net_list" where
  "hwe_cleanup_net devices = foldl (\<lambda>ds a. hwe_destroy_net_device a ds) devices (map fst devices)"

definition hwe_net_async_rx :: "net_env \<Rightarrow> hwe_pair \<Rightarrow> net_priv \<Rightarrow> net_priv run" where
  "hwe_net_async_rx E pair dev =
     (case send_response E (take (resp_size pair) (resp pair)) dev of
        Done (ret, dev) \<Rightarrow> Done dev | Blocked \<Rightarrow> Blocked | Oops \<Rightarrow> Oops)"

section \<open>Properties of the TTY driver\<close>

definition tty_ok :: "tty_state \<Rightarrow> bool" where
  "tty_ok st \<longleftrightarrow> length (tty_devices st) = HWE_MAX_DEVICES \<and> length (tty_ports st) = HWE_MAX_DEVICES \<and>
     length (tty_nodes st) = HWE_MAX_DEVICES \<and>
     (\<forall>n < HWE_MAX_DEVICES. \<forall>dev. tty_devices st ! n = Some dev \<longrightarrow> tty_index dev = n) \<and>
     (\<forall>n < HWE_MAX_DEVICES. tty_nodes st ! n \<longleftrightarrow> tty_devices st ! n \<noteq> None)"

definition boot_tty :: tty_state where
  "boot_tty = \<lparr>tty_devices = replicate HWE_MAX_DEVICES None, tty_ports = replicate HWE_MAX_DEVICES [],
     tty_nodes = replicate HWE_MAX_DEVICES False, tty_driver = False, ports_ready = False\<rparr>"

lemma boot_tty_ok: "tty_ok boot_tty"
  by (simp add: tty_ok_def boot_tty_def)

lemma tty_ok_push: "tty_ok st \<Longrightarrow> tty_ok (push_port room n pair st)"
  by (simp add: tty_ok_def push_port_def)

lemma tty_ops_ok:
  assumes "tty_ok st" "n < HWE_MAX_DEVICES"
  shows "tty_ok (snd (hwetty_open n t st))" "tty_ok (hwetty_close n st)"
    "tty_ok (snd (hwetty_write search room n buf cnt st))" "tty_ok (hwe_destroy_tty_device n st)"
    "tty_ok (hwe_tty_async_rx room n pair st)"
  using assms tty_ok_push [OF assms(1)]
  by (auto simp: tty_ok_def hwetty_open_def hwetty_close_def close_dev_def hwetty_write_def
      hwe_destroy_tty_device_def hwe_tty_async_rx_def nth_list_update split: option.split)

text \<open>A removed terminal still promises room. \<open>write_room\<close> computes \<open>-ENODEV\<close>, which kernels from
  5.14 on take as an unsigned number: over four thousand million bytes free.\<close>

lemma write_room_of_removed_device:
  assumes "tty_devices st ! n = None"
  shows "hwetty_write_room page_size n st = - ENODEV \<and> hwetty_write_room_unsigned page_size n st = 4294967277"
  using assms by (simp add: hwetty_write_room_def hwetty_write_room_unsigned_def)

lemma tty_create_outcome:
  assumes "tty_ok st" "n < HWE_MAX_DEVICES" "tty_devices st ! n = None"
  shows "case hwe_create_tty_device E h n st of
      (None, st') \<Rightarrow> st' = st
    | (Some a, st') \<Rightarrow> a = n \<and> tty_ok st' \<and> tty_ports st' = tty_ports st \<and>
        tty_devices st' = (tty_devices st)[n := Some \<lparr>tty_hwedev = h, tty_struct = None, tty_index = n\<rparr>]"
proof -
  have "(tty_devices st)[n := None] = tty_devices st" using assms(3) by (metis list_update_id)
  then show ?thesis
    using assms(1,2) by (simp add: hwe_create_tty_device_def Let_def tty_ok_def nth_list_update)
qed

lemma tty_cleanup_step_eq:
  assumes "tty_ok st" "i < HWE_MAX_DEVICES"
  shows "tty_cleanup_step st i = hwe_destroy_tty_device i st"
proof (cases "tty_devices st ! i")
  case None
  then have "tty_nodes st ! i = False" using assms by (simp add: tty_ok_def)
  then have "(tty_devices st)[i := None] = tty_devices st" "(tty_nodes st)[i := False] = tty_nodes st"
    using list_update_id [of "tty_devices st" i] list_update_id [of "tty_nodes st" i] None by simp_all
  then show ?thesis using None by (simp add: tty_cleanup_step_def hwe_destroy_tty_device_def)
qed (simp add: tty_cleanup_step_def)

lemma tty_cleanup_loop:
  assumes "tty_ok st" "k \<le> HWE_MAX_DEVICES"
  shows "tty_ok (foldl tty_cleanup_step st [0..<k]) \<and> (\<forall>n < k. tty_devices (foldl tty_cleanup_step st [0..<k]) ! n = None)"
  using assms(2)
proof (induction k)
  case 0
  then show ?case using assms(1) by simp
next
  case (Suc k)
  define st' where "st' = foldl tty_cleanup_step st [0..<k]"
  have IH: "tty_ok st'" "\<And>n. n < k \<Longrightarrow> tty_devices st' ! n = None" and k: "k < HWE_MAX_DEVICES"
    using Suc by (simp_all add: st'_def)
  have "tty_devices (hwe_destroy_tty_device k st') ! n = None" if "n < Suc k" for n
    using that IH k by (cases "n = k") (simp_all add: hwe_destroy_tty_device_def tty_ok_def)
  moreover have "foldl tty_cleanup_step st [0..<Suc k] = hwe_destroy_tty_device k st'"
    using tty_cleanup_step_eq [OF IH(1) k] by (simp add: st'_def)
  ultimately show ?case using tty_ops_ok(4) [OF IH(1) k] by simp
qed

lemma hwe_cleanup_tty_none:
  assumes "tty_ok st" "n < HWE_MAX_DEVICES"
  shows "tty_devices (hwe_cleanup_tty st) ! n = None"
  using tty_cleanup_loop [OF assms(1), of HWE_MAX_DEVICES] assms(2) by (simp add: hwe_cleanup_tty_def)

section \<open>Properties of the network driver\<close>

text \<open>Transmitting a frame to the emulated network. It is counted; if some pair matches the whole
  frame, its response is handed back to the stack as one received frame and counted, and if
  none does nothing is received. The function crashes exactly when there is a response and no
  memory for it.\<close>

lemma net_xmit_answers:
  "case search skb (length skb) of
     None \<Rightarrow> \<exists>dev'. hwenet_xmit search E skb dev = Done (0, dev') \<and>
       tx_packets dev' = tx_packets dev + 1 \<and> tx_bytes dev' = tx_bytes dev + of_nat (length skb) \<and>
       rx_frames dev' = rx_frames dev \<and> rx_packets dev' = rx_packets dev
   | Some p \<Rightarrow> if skb_ok E then \<exists>dev'. hwenet_xmit search E skb dev = Done (rx_ret E, dev') \<and>
       tx_packets dev' = tx_packets dev + 1 \<and> tx_bytes dev' = tx_bytes dev + of_nat (length skb) \<and>
       rx_packets dev' = rx_packets dev + 1 \<and>
       rx_frames dev' = (if rx_ret E = 0 then rx_frames dev @ [resp_bytes p] else rx_frames dev)
     else hwenet_xmit search E skb dev = Oops"
  by (simp add: hwenet_xmit_def send_response_def resp_bytes_def split: option.split)

lemma net_create_outcome:
  assumes "\<forall>a. kzalloc_addr E = Some a \<longrightarrow> a \<notin> fst ` set devices" "distinct (map fst devices)"
  shows "case hwe_create_net_device E h n devices of
      (None, devices') \<Rightarrow> devices' = devices
    | (Some a, devices') \<Rightarrow> map_of devices a = None \<and> distinct (map fst devices') \<and>
        (\<exists>dev. devices' = (a, dev) # devices \<and> net_hwedev dev = h \<and> net_index dev = n \<and> registered dev)"
  using assms
  by (cases "kzalloc_addr E")
    (auto simp: hwe_create_net_device_def hwenet_init_def Let_def priv_list_head priv_list_other map_of_eq_None_iff)

lemma hwe_cleanup_net_all: "hwe_cleanup_net devices = []"
proof -
  have "foldl (\<lambda>ds a. hwe_destroy_net_device a ds) ds xs = filter (\<lambda>(a, dev). a \<notin> set xs) ds" for xs and ds :: net_list
  proof (induction xs arbitrary: ds)
    case (Cons a xs)
    then show ?case by (auto simp: hwe_destroy_net_device_def del_priv_def intro: filter_cong)
  qed simp
  then show ?thesis by (force simp: hwe_cleanup_net_def filter_empty_conv)
qed

end
