(* ===== verification/Bitmap.thy ===== *)
theory Bitmap
  imports Iface "HOL-Library.Multiset"
begin

text \<open>
  Index allocation. Devices and pairs get their numbers from a kernel bitmap
  (\<open>DECLARE_BITMAP\<close>): the first zero bit is the next number, the bit is set while the object
  lives and cleared when it goes. The locale \<open>index_pool\<close> states what the two clients rely on;
  inside it the bookkeeping invariant \<open>indexed\<close> (the list holds exactly one object for each bit
  that is set) is proved once for adding and removing. The bitmap is interpreted at the two
  capacities of the code, \<open>HWE_MAX_PAIRS\<close> and \<open>HWE_MAX_DEVICES\<close>.
\<close>

section \<open>The interface\<close>

locale index_pool =
  fixes next_free :: "'b \<Rightarrow> nat"
    and occupy :: "nat \<Rightarrow> 'b \<Rightarrow> 'b"
    and release :: "nat \<Rightarrow> 'b \<Rightarrow> 'b"
    and used :: "'b \<Rightarrow> nat set"
    and pool_ok :: "'b \<Rightarrow> bool"
    and cap :: nat
  assumes next_free_le: "pool_ok b \<Longrightarrow> next_free b \<le> cap"
    and next_free_fresh: "pool_ok b \<Longrightarrow> next_free b \<notin> used b"
    and next_free_least: "pool_ok b \<Longrightarrow> i < next_free b \<Longrightarrow> i \<in> used b"
    and used_below: "pool_ok b \<Longrightarrow> used b \<subseteq> {..<cap}"
    and occupy_ok: "pool_ok b \<Longrightarrow> pool_ok (occupy i b)"
    and release_ok: "pool_ok b \<Longrightarrow> pool_ok (release i b)"
    and used_occupy: "pool_ok b \<Longrightarrow> i < cap \<Longrightarrow> used (occupy i b) = insert i (used b)"
    and used_release: "pool_ok b \<Longrightarrow> i < cap \<Longrightarrow> used (release i b) = used b - {i}"
begin

definition indexed :: "('x \<Rightarrow> nat) \<Rightarrow> 'x list \<Rightarrow> 'b \<Rightarrow> bool" where
  "indexed key xs b \<longleftrightarrow> pool_ok b \<and> distinct (map key xs) \<and> key ` set xs = used b"

lemma finite_used: "pool_ok b \<Longrightarrow> finite (used b)"
  using used_below finite_subset by blast

lemma indexed_below: "indexed key xs b \<Longrightarrow> x \<in> set xs \<Longrightarrow> key x < cap"
  using used_below by (fastforce simp: indexed_def)

lemma indexed_length: "indexed key xs b \<Longrightarrow> length xs = card (used b)"
  unfolding indexed_def by (metis distinct_card length_map set_map)

lemma indexed_add:
  assumes "indexed key xs b" "key x = next_free b" "next_free b < cap" "mset ys = add_mset x (mset xs)"
  shows "indexed key ys (occupy (next_free b) b)"
proof -
  have "set ys = insert x (set xs)"
    using assms(4) by (metis set_mset_add_mset_insert set_mset_mset)
  moreover have "key x \<notin> set (map key xs)"
    using assms next_free_fresh by (auto simp: indexed_def)
  moreover have "mset (map key ys) = mset (map key (x # xs))"
    using assms(4) by simp
  then have "distinct (map key ys) = distinct (map key (x # xs))"
    by (rule mset_eq_imp_distinct_iff)
  ultimately show ?thesis
    using assms(1,2,3) occupy_ok used_occupy by (simp add: indexed_def)
qed

lemma indexed_remove:
  assumes "indexed key xs b" "x \<in> set xs" "mset xs = add_mset x (mset ys)"
  shows "indexed key ys (release (key x) b)"
proof -
  have "set xs = insert x (set ys)"
    using assms(3) by (metis set_mset_add_mset_insert set_mset_mset)
  moreover have "mset (map key xs) = mset (map key (x # ys))"
    using assms(3) by simp
  then have "distinct (map key xs) = distinct (map key (x # ys))"
    by (rule mset_eq_imp_distinct_iff)
  then have d: "key x \<notin> key ` set ys" "distinct (map key ys)"
    using assms(1) by (simp_all add: indexed_def)
  have "used (release (key x) b) = used b - {key x}"
    using assms(1) indexed_below [OF assms(1,2)] by (simp add: used_release indexed_def)
  moreover have "used b = insert (key x) (key ` set ys)"
    using assms(1) calculation(1) by (simp add: indexed_def)
  ultimately show ?thesis
    using assms(1) d release_ok by (simp add: indexed_def)
qed

lemma indexed_unique:
  "indexed key xs b \<Longrightarrow> x \<in> set xs \<Longrightarrow> y \<in> set xs \<Longrightarrow> key x = key y \<Longrightarrow> x = y"
  by (auto simp: indexed_def distinct_map dest: inj_onD)

lemma indexed_distinct: "indexed key xs b \<Longrightarrow> distinct xs"
  by (auto simp: indexed_def distinct_map)

lemma full_iff: "indexed key xs b \<Longrightarrow> next_free b = cap \<longleftrightarrow> length xs = cap"
proof
  assume ix: "indexed key xs b"
  then have ok: "pool_ok b" by (simp add: indexed_def)
  {
    assume "next_free b = cap"
    then have "used b = {..<cap}"
      using next_free_least [OF ok] used_below [OF ok] by auto
    then show "length xs = cap" using indexed_length [OF ix] by simp
  }
  {
    assume "length xs = cap"
    then have "used b = {..<cap}"
      using indexed_length [OF ix] used_below [OF ok] by (metis card_lessThan card_subset_eq finite_lessThan)
    then show "next_free b = cap"
      using next_free_le [OF ok] next_free_fresh [OF ok] by auto
  }
qed

lemma indexed_length_le: "indexed key xs b \<Longrightarrow> length xs \<le> cap"
  using indexed_length used_below by (metis card_lessThan card_mono finite_lessThan indexed_def)

lemma indexed_map:
  "indexed key xs b \<Longrightarrow> (\<And>x. x \<in> set xs \<Longrightarrow> key (f x) = key x) \<Longrightarrow> indexed key (map f xs) b"
  by (simp add: indexed_def image_image comp_def cong: map_cong image_cong)

end

section \<open>The kernel's bitmap\<close>

type_synonym bitmap = "bool list"

definition bitmap_zero :: "nat \<Rightarrow> bitmap" where
  "bitmap_zero n = replicate n False"

definition bm_set_bit :: "nat \<Rightarrow> bitmap \<Rightarrow> bitmap" where
  "bm_set_bit i bm = bm[i := True]"

definition bm_clear_bit :: "nat \<Rightarrow> bitmap \<Rightarrow> bitmap" where
  "bm_clear_bit i bm = bm[i := False]"

definition find_first_zero_bit :: "bitmap \<Rightarrow> nat \<Rightarrow> nat" where
  "find_first_zero_bit bm n = length (takeWhile (\<lambda>b. b) (take n bm))"

definition bitmap_weight :: "bitmap \<Rightarrow> nat \<Rightarrow> nat" where
  "bitmap_weight bm n = length (filter (\<lambda>b. b) (take n bm))"

definition bits :: "bitmap \<Rightarrow> nat set" where
  "bits bm = {i. i < length bm \<and> bm ! i}"

lemma bits_zero [simp]: "bits (bitmap_zero n) = {}"
  by (auto simp: bits_def bitmap_zero_def)

lemma length_bitmap_ops [simp]:
  "length (bm_set_bit i bm) = length bm" "length (bm_clear_bit i bm) = length bm"
  "length (bitmap_zero n) = n"
  by (simp_all add: bm_set_bit_def bm_clear_bit_def bitmap_zero_def)

lemma bits_set_bit: "i < length bm \<Longrightarrow> bits (bm_set_bit i bm) = insert i (bits bm)"
  by (auto simp: bits_def bm_set_bit_def nth_list_update)

lemma bits_clear_bit: "i < length bm \<Longrightarrow> bits (bm_clear_bit i bm) = bits bm - {i}"
  by (auto simp: bits_def bm_clear_bit_def nth_list_update)

lemma find_first_zero_bit_props:
  assumes "length bm = n"
  shows "find_first_zero_bit bm n \<le> n" "find_first_zero_bit bm n \<notin> bits bm"
    "i < find_first_zero_bit bm n \<Longrightarrow> i \<in> bits bm"
proof -
  show "find_first_zero_bit bm n \<le> n"
    using assms length_takeWhile_le [of "\<lambda>b. b" bm] by (simp add: find_first_zero_bit_def)
  show "find_first_zero_bit bm n \<notin> bits bm"
    using assms nth_length_takeWhile [of "\<lambda>b. b" bm] by (auto simp: find_first_zero_bit_def bits_def)
  show "i \<in> bits bm" if "i < find_first_zero_bit bm n"
    using that assms length_takeWhile_le [of "\<lambda>b. b" bm]
      takeWhile_nth [of i "\<lambda>b. b" bm] nth_mem [of i "takeWhile (\<lambda>b. b) bm"]
    by (auto simp: find_first_zero_bit_def bits_def dest: set_takeWhileD)
qed

lemma bitmap_weight_card: "length bm = n \<Longrightarrow> bitmap_weight bm n = card (bits bm)"
  by (simp add: bitmap_weight_def bits_def length_filter_conv_card)

lemma index_pool_bitmap:
  "index_pool (\<lambda>bm. find_first_zero_bit bm n) bm_set_bit bm_clear_bit bits (\<lambda>bm. length bm = n) n"
proof (unfold_locales, goal_cases)
  case (1 b)
  then show ?case by (rule find_first_zero_bit_props)
next
  case (2 b)
  then show ?case by (rule find_first_zero_bit_props)
next
  case (3 b i)
  then show ?case by (rule find_first_zero_bit_props)
next
  case (4 b)
  then show ?case by (auto simp: bits_def)
qed (simp_all add: bits_set_bit bits_clear_bit)

interpretation pair_ix: index_pool "\<lambda>bm. find_first_zero_bit bm HWE_MAX_PAIRS" bm_set_bit bm_clear_bit bits
  "\<lambda>bm. length bm = HWE_MAX_PAIRS" HWE_MAX_PAIRS
  by (rule index_pool_bitmap)

interpretation dev_ix: index_pool "\<lambda>bm. find_first_zero_bit bm HWE_MAX_DEVICES" bm_set_bit bm_clear_bit bits
  "\<lambda>bm. length bm = HWE_MAX_DEVICES" HWE_MAX_DEVICES
  by (rule index_pool_bitmap)

lemma pair_ix_weight: "pair_ix.indexed key xs bm \<Longrightarrow> bitmap_weight bm HWE_MAX_PAIRS = length xs"
  using pair_ix.indexed_length [of key xs bm] by (simp add: pair_ix.indexed_def bitmap_weight_card)

end
