(* ===== verification/Device.thy ===== *)
theory Device
  imports Pair Bitmap
begin

text \<open>
  One emulated device (\<open>struct hwe_dev\<close> of \<open>hwe_sysfs.c\<close>) and the operations on its pairs, as
  they run while the interface is locked: \<open>pair_delete\<close>, \<open>clear_pairs\<close>, \<open>find_response\<close>, the
  bodies of \<open>dev_add_store\<close>, \<open>hwe_add_pair\<close>, \<open>dev_delete_store\<close>, \<open>hwe_delete_pair\<close>,
  \<open>hwe_get_pair\<close> and \<open>pair_show\<close>. The locking, and the search for the device, are in the theory
  \<open>Sysfs\<close>.

  \<open>pair_list\<close> is the linked list in order; \<open>pairs_dir\<close> lists the files of the device's \<open>pairs\<close>
  directory, which \<open>sysfs_create_file\<close> and \<open>sysfs_remove_file\<close> change; \<open>device\<close> is the driver's
  private data, a type parameter here. What the kernel decides is in the record \<open>add_env\<close>:
  whether \<open>kmalloc\<close> succeeds, the arbitrary contents of the memory it returns, and the result of
  \<open>sysfs_create_file\<close> (0, or a negative error number).

  The abstract view of a device is \<open>replies\<close>, a finite map from requests to responses, and
  \<open>timers\<close>, the multiset of periodic packets.
\<close>

section \<open>State and operations\<close>

record 'd hwe_dev =
  iface :: HWE_IFACE
  dev_index :: nat
  kobj_name :: string
  pair_list :: "hwe_pair list"
  pairs_indexes :: bitmap
  pairs_dir :: "string list"
  device :: "'d option"

record add_env =
  kmalloc_ok :: bool
  raw_pair :: hwe_pair
  create_file_err :: int

definition pair_delete :: "'d hwe_dev \<Rightarrow> hwe_pair \<Rightarrow> 'd hwe_dev" where
  "pair_delete dev pair =
     dev\<lparr>pairs_indexes := bm_clear_bit (index pair) (pairs_indexes dev),
         pairs_dir := removeAll (filename pair) (pairs_dir dev),
         pair_list := remove1 pair (pair_list dev)\<rparr>"

definition clear_pairs :: "'d hwe_dev \<Rightarrow> 'd hwe_dev" where
  "clear_pairs dev = foldl pair_delete dev (pair_list dev)"

definition find_response :: "'d hwe_dev \<Rightarrow> byte list \<Rightarrow> nat \<Rightarrow> hwe_pair option" where
  "find_response dev request sz = find_pair (pair_list dev) request sz"

definition add_new_pair :: "'d hwe_dev \<Rightarrow> hwe_pair \<Rightarrow> 'd hwe_dev" where
  "add_new_pair dev pair =
     dev\<lparr>pairs_indexes := bm_set_bit (index pair) (pairs_indexes dev),
         pairs_dir := pairs_dir dev @ [filename pair],
         pair_list := pair_list dev @ [pair]\<rparr>"

definition numbered :: "hwe_pair \<Rightarrow> nat \<Rightarrow> hwe_pair" where
  "numbered pair idx = pair\<lparr>index := idx, filename := scnprintf (4 + 1) (dec_str idx)\<rparr>"

definition dev_add_store_locked ::
  "klib \<Rightarrow> add_env \<Rightarrow> 'd hwe_dev \<Rightarrow> string \<Rightarrow> nat \<Rightarrow> int \<times> 'd hwe_dev" where
  "dev_add_store_locked K E dev buf cnt =
     (if \<not> kmalloc_ok E then (- EINVAL, dev)
      else
        (case str_to_pair K buf cnt (raw_pair E) of
           Inl err \<Rightarrow> (- EINVAL, dev)
         | Inr pair \<Rightarrow>
             let idx = find_first_zero_bit (pairs_indexes dev) HWE_MAX_PAIRS
             in if idx = HWE_MAX_PAIRS then (- EINVAL, dev)
                else
                  (case find_pair (pair_list dev) (req pair) (req_size pair) of
                     Some p \<Rightarrow> (- EINVAL, dev)
                   | None \<Rightarrow>
                       let ret = create_file_err E
                       in if ret \<noteq> 0 then (ret, dev)
                          else (int cnt, add_new_pair dev (numbered pair idx)))))"

definition hwe_add_pair_locked ::
  "klib \<Rightarrow> add_env \<Rightarrow> 'd hwe_dev \<Rightarrow> string \<Rightarrow> int \<times> 'd hwe_dev" where
  "hwe_add_pair_locked K E dev pair_str =
     (if \<not> kmalloc_ok E then (- ENOMEM, dev)
      else
        (case str_to_pair K pair_str (length (c_string pair_str)) (raw_pair E) of
           Inl err \<Rightarrow> (- EINVAL, dev)
         | Inr pair \<Rightarrow>
             let idx = find_first_zero_bit (pairs_indexes dev) HWE_MAX_PAIRS
             in if idx = HWE_MAX_PAIRS then (- E2BIG, dev)
                else
                  (case find_pair (pair_list dev) (req pair) (req_size pair) of
                     Some p \<Rightarrow> (- EEXIST, dev)
                   | None \<Rightarrow>
                       let ret = create_file_err E
                       in if ret \<noteq> 0 then (ret, dev)
                          else (int idx, add_new_pair dev (numbered pair idx)))))"

definition dev_delete_store_locked ::
  "klib \<Rightarrow> 'd hwe_dev \<Rightarrow> string \<Rightarrow> nat \<Rightarrow> int \<times> 'd hwe_dev" where
  "dev_delete_store_locked K dev buf cnt =
     (if cnt = 0 then (- EINVAL, dev)
      else
        (case kl_kstrtouint K buf of
           None \<Rightarrow> (- EINVAL, dev)
         | Some i \<Rightarrow>
             (case get_pair_at_index (pair_list dev) i of
                None \<Rightarrow> (- EINVAL, dev)
              | Some pair \<Rightarrow> (int cnt, pair_delete dev pair))))"

definition size_of_long :: "int \<Rightarrow> nat" where
  "size_of_long i = nat (i mod 2 ^ 64)"

definition hwe_delete_pair_locked :: "'d hwe_dev \<Rightarrow> int \<Rightarrow> int \<times> 'd hwe_dev" where
  "hwe_delete_pair_locked dev pair_index =
     (case get_pair_at_index (pair_list dev) (size_of_long pair_index) of
        None \<Rightarrow> (- ENOENT, dev)
      | Some pair \<Rightarrow> (0, pair_delete dev pair))"

text \<open>
  \<open>hwe_get_pair\<close> compares with a local variable \<open>idx\<close> that it never assigns; \<open>stack\<close> is the value
  that happens to be there. The result is the text, or an error number.
\<close>

definition hwe_get_pair_locked :: "int \<Rightarrow> 'd hwe_dev \<Rightarrow> int \<Rightarrow> int + string" where
  "hwe_get_pair_locked stack dev pair_index =
     (let idx = stack
      in case find (\<lambda>pair. int (index pair) = idx) (pair_list dev) of
           None \<Rightarrow> Inl (- ENOENT)
         | Some pair \<Rightarrow> Inr (pair_to_str pair))"

definition pair_show_locked :: "'d hwe_dev \<Rightarrow> int \<Rightarrow> string" where
  "pair_show_locked dev idx =
     (case find (\<lambda>pair. int (index pair) = idx) (pair_list dev) of
        None \<Rightarrow> []
      | Some pair \<Rightarrow> pair_to_str pair)"

section \<open>The abstract view\<close>

definition replies :: "'d hwe_dev \<Rightarrow> byte list \<Rightarrow> byte list option" where
  "replies dev rq = map_option resp_bytes (find (matches rq) (pair_list dev))"

definition timers :: "'d hwe_dev \<Rightarrow> (nat \<times> byte list) multiset" where
  "timers dev =
     image_mset (\<lambda>p. (period_ms p, resp_bytes p)) (filter_mset async_rx (mset (pair_list dev)))"

fun add_view :: "pair_view \<Rightarrow> (byte list \<Rightarrow> byte list option) \<times> (nat \<times> byte list) multiset \<Rightarrow>
    (byte list \<Rightarrow> byte list option) \<times> (nat \<times> byte list) multiset" where
  "add_view (Reply rq rp) (R, T) = (R(rq \<mapsto> rp), T)"
| "add_view (Timer t rp) (R, T) = (R, add_mset (t, rp) T)"

fun remove_view :: "pair_view \<Rightarrow> (byte list \<Rightarrow> byte list option) \<times> (nat \<times> byte list) multiset \<Rightarrow>
    (byte list \<Rightarrow> byte list option) \<times> (nat \<times> byte list) multiset" where
  "remove_view (Reply rq rp) (R, T) = (R(rq := None), T)"
| "remove_view (Timer t rp) (R, T) = (R, T - {#(t, rp)#})"

fun view_taken :: "pair_view \<Rightarrow> 'd hwe_dev \<Rightarrow> bool" where
  "view_taken (Reply rq rp) dev = (replies dev rq \<noteq> None)"
| "view_taken (Timer t rp) dev = False"

section \<open>The invariant\<close>

definition no_dup_requests :: "hwe_pair list \<Rightarrow> bool" where
  "no_dup_requests ps \<longleftrightarrow> distinct (map req_bytes (filter (\<lambda>p. \<not> async_rx p) ps))"

definition dev_inv :: "'d hwe_dev \<Rightarrow> bool" where
  "dev_inv dev \<longleftrightarrow>
     (\<forall>p \<in> set (pair_list dev). wf_pair p \<and> filename p = dec_str (index p)) \<and>
     length (pairs_indexes dev) = HWE_MAX_PAIRS \<and>
     distinct (map index (pair_list dev)) \<and>
     index ` set (pair_list dev) = bits (pairs_indexes dev) \<and>
     no_dup_requests (pair_list dev) \<and>
     pairs_dir dev = map filename (pair_list dev)"

lemma dev_inv_indexed: "dev_inv dev \<Longrightarrow> pair_ix.indexed index (pair_list dev) (pairs_indexes dev)"
  by (simp add: dev_inv_def pair_ix.indexed_def)

lemma dev_inv_iff:
  "dev_inv dev \<longleftrightarrow>
     (\<forall>p \<in> set (pair_list dev). wf_pair p \<and> filename p = dec_str (index p)) \<and>
     pair_ix.indexed index (pair_list dev) (pairs_indexes dev) \<and> no_dup_requests (pair_list dev) \<and>
     pairs_dir dev = map filename (pair_list dev)"
  by (auto simp: dev_inv_def pair_ix.indexed_def)

lemma dev_inv_wf: "dev_inv dev \<Longrightarrow> p \<in> set (pair_list dev) \<Longrightarrow> wf_pair p"
  by (simp add: dev_inv_def)

lemma dev_inv_index_less: "dev_inv dev \<Longrightarrow> p \<in> set (pair_list dev) \<Longrightarrow> index p < HWE_MAX_PAIRS"
  by (rule pair_ix.indexed_below [OF dev_inv_indexed])

lemma find_matches_iff:
  assumes "no_dup_requests ps"
  shows "find (matches rq) ps = Some p \<longleftrightarrow> p \<in> set ps \<and> matches rq p"
  using assms
proof (induction ps)
  case Nil
  then show ?case by simp
next
  case (Cons q ps)
  then have "no_dup_requests ps"
    by (auto simp: no_dup_requests_def split: if_splits)
  with Cons show ?case
    by (auto simp: no_dup_requests_def matches_def)
qed

lemma find_matches_None: "find (matches rq) ps = None \<longleftrightarrow> (\<forall>p \<in> set ps. \<not> matches rq p)"
  by (auto simp: find_None_iff)

lemma replies_Some_iff:
  "dev_inv dev \<Longrightarrow> replies dev rq = Some rp \<longleftrightarrow>
     (\<exists>p \<in> set (pair_list dev). view p = Reply rq rp)"
  by (auto simp: replies_def dev_inv_def find_matches_iff matches_def view_def split: if_splits)

lemma find_response_replies:
  "dev_inv dev \<Longrightarrow> sz \<le> length request \<Longrightarrow>
     map_option resp_bytes (find_response dev request sz) = replies dev (take sz request)"
  by (simp add: find_response_def replies_def find_pair_eq_find dev_inv_wf)

section \<open>Adding a pair\<close>

lemma numbered_simps [simp]:
  "index (numbered p i) = i" "req (numbered p i) = req p" "req_size (numbered p i) = req_size p"
  "resp (numbered p i) = resp p" "resp_size (numbered p i) = resp_size p"
  "async_rx (numbered p i) = async_rx p" "period_ms (numbered p i) = period_ms p"
  "period (numbered p i) = period p" "time (numbered p i) = time p"
  by (simp_all add: numbered_def)

lemma numbered_view [simp]:
  "req_bytes (numbered p i) = req_bytes p" "resp_bytes (numbered p i) = resp_bytes p"
  "view (numbered p i) = view p" "wf_pair (numbered p i) = wf_pair p"
  by (simp_all add: req_bytes_def resp_bytes_def view_def wf_pair_def pair_buf_ok_def)

text \<open>The file name has room for every index: nothing is truncated.\<close>

lemma numbered_filename: "i < HWE_MAX_PAIRS \<Longrightarrow> filename (numbered p i) = dec_str i"
  using length_dec_str [of i 3] by (simp add: numbered_def scnprintf_fits hwe_consts)

lemma view_taken_iff:
  "dev_inv dev \<Longrightarrow> view_taken (view p) dev \<longleftrightarrow>
     \<not> async_rx p \<and> (\<exists>q \<in> set (pair_list dev). \<not> async_rx q \<and> req_bytes q = req_bytes p)"
  by (auto simp: view_def replies_def find_None_iff matches_def)

lemma dev_inv_add:
  assumes inv: "dev_inv dev" and p: "wf_pair p" and fresh: "\<not> view_taken (view p) dev"
    and i: "i = find_first_zero_bit (pairs_indexes dev) HWE_MAX_PAIRS" "i < HWE_MAX_PAIRS"
  shows "dev_inv (add_new_pair dev (numbered p i))"
proof -
  have "pair_ix.indexed index (pair_list dev @ [numbered p i]) (bm_set_bit i (pairs_indexes dev))"
    using pair_ix.indexed_add [OF dev_inv_indexed [OF inv], of "numbered p i"] i by simp
  moreover have "no_dup_requests (pair_list dev @ [numbered p i])"
    using inv fresh by (auto simp: view_taken_iff dev_inv_def no_dup_requests_def)
  ultimately show ?thesis
    using inv p numbered_filename [OF i(2)] by (auto simp: dev_inv_iff add_new_pair_def)
qed

lemma timers_add:
  "timers (add_new_pair dev p) =
     (if async_rx p then add_mset (period_ms p, resp_bytes p) (timers dev) else timers dev)"
  by (simp add: timers_def add_new_pair_def)

lemma find_append:
  "find P (xs @ ys) = (case find P xs of None \<Rightarrow> find P ys | Some x \<Rightarrow> Some x)"
  by (induction xs) auto

lemma replies_add:
  assumes "\<not> view_taken (view p) dev"
  shows "replies (add_new_pair dev p) =
    (if async_rx p then replies dev else (replies dev)(req_bytes p \<mapsto> resp_bytes p))"
proof
  fix rq
  show "replies (add_new_pair dev p) rq =
    (if async_rx p then replies dev else (replies dev)(req_bytes p \<mapsto> resp_bytes p)) rq"
    using assms
    by (cases "find (matches rq) (pair_list dev)")
      (auto simp: replies_def add_new_pair_def find_append matches_def view_def split: option.split)
qed

lemma add_refines:
  assumes "\<not> view_taken (view p) dev"
  shows "(replies (add_new_pair dev p), timers (add_new_pair dev p)) = add_view (view p) (replies dev, timers dev)"
  using assms by (simp add: timers_add replies_add) (simp add: view_def)

section \<open>Deleting pairs\<close>

lemma removeAll_map_remove1:
  "distinct (map f xs) \<Longrightarrow> x \<in> set xs \<Longrightarrow> removeAll (f x) (map f xs) = map f (remove1 x xs)"
proof (induction xs)
  case Nil
  then show ?case by simp
next
  case (Cons y xs)
  then show ?case
    by (cases "x = y") (auto simp: image_iff)
qed

lemma dev_inv_distinct_filenames: "dev_inv dev \<Longrightarrow> distinct (map filename (pair_list dev))"
  by (auto simp: dev_inv_def distinct_map inj_on_def)

lemma no_dup_requests_remove1: "no_dup_requests ps \<Longrightarrow> no_dup_requests (remove1 p ps)"
  unfolding no_dup_requests_def filter_remove1 distinct_map
  by (auto intro: inj_on_subset set_remove1_subset [THEN subset_trans])

lemma dev_inv_delete:
  assumes inv: "dev_inv dev" and p: "p \<in> set (pair_list dev)"
  shows "dev_inv (pair_delete dev p)"
proof -
  have "pair_ix.indexed index (remove1 p (pair_list dev)) (bm_clear_bit (index p) (pairs_indexes dev))"
    using p by (intro pair_ix.indexed_remove [OF dev_inv_indexed [OF inv]]) simp_all
  moreover have "removeAll (filename p) (pairs_dir dev) = map filename (remove1 p (pair_list dev))"
    using inv p removeAll_map_remove1 [OF dev_inv_distinct_filenames [OF inv] p] by (simp add: dev_inv_def)
  moreover have "no_dup_requests (remove1 p (pair_list dev))"
    using inv by (simp add: dev_inv_def no_dup_requests_remove1)
  moreover have "\<forall>q \<in> set (remove1 p (pair_list dev)). wf_pair q \<and> filename q = dec_str (index q)"
    using inv set_remove1_subset [of p "pair_list dev"] by (auto simp: dev_inv_def)
  ultimately show ?thesis
    by (simp add: dev_inv_iff pair_delete_def)
qed

lemma no_dup_requests_same:
  "no_dup_requests ps \<Longrightarrow> p \<in> set ps \<Longrightarrow> q \<in> set ps \<Longrightarrow> \<not> async_rx p \<Longrightarrow> \<not> async_rx q \<Longrightarrow>
     req_bytes p = req_bytes q \<Longrightarrow> p = q"
  by (auto simp: no_dup_requests_def distinct_map dest: inj_onD)

lemma replies_delete:
  assumes inv: "dev_inv dev" and p: "p \<in> set (pair_list dev)"
  shows "replies (pair_delete dev p) = (if async_rx p then replies dev else (replies dev)(req_bytes p := None))"
proof -
  note inv' = dev_inv_delete [OF inv p]
  have set: "set (pair_list (pair_delete dev p)) = set (pair_list dev) - {p}"
    using pair_ix.indexed_distinct [OF dev_inv_indexed [OF inv]] by (simp add: pair_delete_def)
  have dup: "no_dup_requests (pair_list dev)" using inv by (simp add: dev_inv_def)
  have "replies (pair_delete dev p) rq = Some rp \<longleftrightarrow>
      (if async_rx p then replies dev else (replies dev)(req_bytes p := None)) rq = Some rp" for rq rp
    using p no_dup_requests_same [OF dup _ p]
    by (auto simp: replies_Some_iff [OF inv'] replies_Some_iff [OF inv] set view_def split: if_splits)
  then show ?thesis
    by (intro ext) (metis not_None_eq)
qed

lemma timers_delete:
  "p \<in> set (pair_list dev) \<Longrightarrow> timers (pair_delete dev p) =
     (if async_rx p then timers dev - {#(period_ms p, resp_bytes p)#} else timers dev)"
  by (simp add: timers_def pair_delete_def filter_diff_mset image_mset_Diff)

lemma delete_refines:
  assumes "dev_inv dev" and "p \<in> set (pair_list dev)"
  shows "(replies (pair_delete dev p), timers (pair_delete dev p)) = remove_view (view p) (replies dev, timers dev)"
  by (simp add: replies_delete [OF assms] timers_delete [OF assms(2)]) (simp add: view_def)

lemma foldl_pair_delete:
  assumes "dev_inv dev" "pair_list dev = ps"
  shows "dev_inv (foldl pair_delete dev ps) \<and> pair_list (foldl pair_delete dev ps) = []"
  using assms
proof (induction ps arbitrary: dev)
  case Nil
  then show ?case by simp
next
  case (Cons p ps)
  have "dev_inv (pair_delete dev p)" using Cons.prems by (intro dev_inv_delete) simp_all
  moreover have "pair_list (pair_delete dev p) = ps" using Cons.prems by (simp add: pair_delete_def)
  ultimately show ?case using Cons.IH by simp
qed

lemma pair_delete_frame [simp]:
  "iface (pair_delete dev p) = iface dev" "dev_index (pair_delete dev p) = dev_index dev"
  "kobj_name (pair_delete dev p) = kobj_name dev" "device (pair_delete dev p) = device dev"
  by (simp_all add: pair_delete_def)

lemma foldl_pair_delete_frame:
  "iface (foldl pair_delete dev ps) = iface dev \<and> dev_index (foldl pair_delete dev ps) = dev_index dev \<and>
   kobj_name (foldl pair_delete dev ps) = kobj_name dev \<and> device (foldl pair_delete dev ps) = device dev"
  by (induction ps arbitrary: dev) simp_all

lemma dev_inv_clear: "dev_inv dev \<Longrightarrow> dev_inv (clear_pairs dev)"
  using foldl_pair_delete [of dev "pair_list dev"] by (simp add: clear_pairs_def)

lemma pair_list_clear: "dev_inv dev \<Longrightarrow> pair_list (clear_pairs dev) = []"
  using foldl_pair_delete [of dev "pair_list dev"] by (simp add: clear_pairs_def)

lemma clear_pairs_frame [simp]:
  "iface (clear_pairs dev) = iface dev" "dev_index (clear_pairs dev) = dev_index dev"
  "kobj_name (clear_pairs dev) = kobj_name dev" "device (clear_pairs dev) = device dev"
  by (simp_all add: clear_pairs_def foldl_pair_delete_frame)

lemma clear_refines:
  assumes "dev_inv dev"
  shows "replies (clear_pairs dev) = (\<lambda>_. None)" "timers (clear_pairs dev) = {#}"
    "bits (pairs_indexes (clear_pairs dev)) = {}" "pairs_dir (clear_pairs dev) = []"
  using pair_list_clear [OF assms] dev_inv_clear [OF assms]
  by (auto simp: replies_def timers_def dev_inv_def)

section \<open>The handlers against the abstract view\<close>

lemma find_pair_taken:
  assumes inv: "dev_inv dev" and q: "wf_pair q"
  shows "find_pair (pair_list dev) (req q) (req_size q) = None \<longleftrightarrow> \<not> view_taken (view q) dev"
proof (cases "async_rx q")
  case True
  then have "req_size q = 0" using q by (simp add: wf_pair_def)
  moreover have "find_pair (pair_list dev) (req q) 0 = None"
  proof (cases "find_pair (pair_list dev) (req q) 0")
    case (Some p)
    then have "p \<in> set (pair_list dev)" "\<not> async_rx p" using find_pair_Some by auto
    then have "req_bytes p \<noteq> []" using req_bytes_ok dev_inv_wf [OF inv] by blast
    moreover have "find (matches []) (pair_list dev) = Some p"
      using Some find_pair_eq_find [of "pair_list dev" 0 "req q"] dev_inv_wf [OF inv] by simp
    ultimately show ?thesis by (auto simp: find_Some_iff matches_def)
  qed simp
  ultimately show ?thesis using True by (simp add: view_def)
next
  case False
  have "req_size q \<le> length (req q)" using q False by (simp add: wf_pair_def pair_buf_ok_def)
  then have "find_pair (pair_list dev) (req q) (req_size q) = find (matches (req_bytes q)) (pair_list dev)"
    using find_pair_eq_find [of "pair_list dev"] dev_inv_wf [OF inv] by (simp add: req_bytes_def)
  then show ?thesis using False by (simp add: view_def replies_def)
qed

text \<open>
  Whether an addition succeeds: the memory is there, the text parses to a pair whose request
  is new, the device has room and the file can be created.
\<close>

definition add_accepted :: "klib \<Rightarrow> add_env \<Rightarrow> 'd hwe_dev \<Rightarrow> string \<Rightarrow> nat \<Rightarrow> hwe_pair \<Rightarrow> bool" where
  "add_accepted K E dev buf n q \<longleftrightarrow>
     kmalloc_ok E \<and> str_to_pair K buf n (raw_pair E) = Inr q \<and> \<not> view_taken (view q) dev \<and>
     length (pair_list dev) < HWE_MAX_PAIRS \<and> create_file_err E = 0"

lemma first_free_less:
  "dev_inv dev \<Longrightarrow> find_first_zero_bit (pairs_indexes dev) HWE_MAX_PAIRS \<noteq> HWE_MAX_PAIRS
     \<longleftrightarrow> length (pair_list dev) < HWE_MAX_PAIRS"
  using pair_ix.full_iff [OF dev_inv_indexed] pair_ix.indexed_length_le [OF dev_inv_indexed]
  by (metis le_neq_implies_less less_irrefl)

lemma first_free_bound:
  "dev_inv dev \<Longrightarrow> length (pair_list dev) < HWE_MAX_PAIRS \<Longrightarrow>
     find_first_zero_bit (pairs_indexes dev) HWE_MAX_PAIRS < HWE_MAX_PAIRS"
  using first_free_less pair_ix.next_free_le by (metis dev_inv_def le_neq_implies_less)

lemma add_accepted_guards:
  assumes "dev_inv dev" "pair_buf_ok (raw_pair E)" "add_accepted K E dev buf n q"
  shows "find_pair (pair_list dev) (req q) (req_size q) = None"
    and "find_first_zero_bit (pairs_indexes dev) HWE_MAX_PAIRS \<noteq> HWE_MAX_PAIRS"
proof -
  have "wf_pair q" using assms by (auto simp: add_accepted_def intro: str_to_pair_wf_pair)
  then show "find_pair (pair_list dev) (req q) (req_size q) = None"
    using assms find_pair_taken [of dev q] by (simp add: add_accepted_def)
  show "find_first_zero_bit (pairs_indexes dev) HWE_MAX_PAIRS \<noteq> HWE_MAX_PAIRS"
    using assms first_free_less [of dev] by (simp add: add_accepted_def)
qed

lemma dev_add_store_accepted:
  assumes "dev_inv dev" "pair_buf_ok (raw_pair E)" "add_accepted K E dev buf n q"
  shows "dev_add_store_locked K E dev buf n =
    (int n, add_new_pair dev (numbered q (find_first_zero_bit (pairs_indexes dev) HWE_MAX_PAIRS)))"
  using assms(3) add_accepted_guards [OF assms]
  by (simp add: dev_add_store_locked_def add_accepted_def Let_def)

lemma hwe_add_pair_accepted:
  assumes "dev_inv dev" "pair_buf_ok (raw_pair E)" "add_accepted K E dev buf (length (c_string buf)) q"
  shows "hwe_add_pair_locked K E dev buf =
    (int (find_first_zero_bit (pairs_indexes dev) HWE_MAX_PAIRS),
     add_new_pair dev (numbered q (find_first_zero_bit (pairs_indexes dev) HWE_MAX_PAIRS)))"
  using assms(3) add_accepted_guards [OF assms]
  by (simp add: hwe_add_pair_locked_def add_accepted_def Let_def)

lemma dev_add_store_rejected:
  assumes "dev_inv dev" "pair_buf_ok (raw_pair E)" "\<nexists>q. add_accepted K E dev buf n q" "create_file_err E \<le> 0"
  shows "fst (dev_add_store_locked K E dev buf n) < 0 \<and> snd (dev_add_store_locked K E dev buf n) = dev"
proof (cases "str_to_pair K buf n (raw_pair E)")
  case (Inl e)
  then show ?thesis by (simp add: dev_add_store_locked_def)
next
  case (Inr q)
  note q = str_to_pair_wf_pair [OF this assms(2)]
  show ?thesis
    using assms Inr first_free_less [OF assms(1)] find_pair_taken [OF assms(1) q]
    by (auto simp: dev_add_store_locked_def add_accepted_def Let_def split: option.split)
qed

lemma hwe_add_pair_rejected:
  assumes "dev_inv dev" "pair_buf_ok (raw_pair E)"
    "\<nexists>q. add_accepted K E dev buf (length (c_string buf)) q" "create_file_err E \<le> 0"
  shows "fst (hwe_add_pair_locked K E dev buf) < 0 \<and> snd (hwe_add_pair_locked K E dev buf) = dev"
proof (cases "str_to_pair K buf (length (c_string buf)) (raw_pair E)")
  case (Inl e)
  then show ?thesis by (simp add: hwe_add_pair_locked_def)
next
  case (Inr q)
  note q = str_to_pair_wf_pair [OF this assms(2)]
  show ?thesis
    using assms Inr first_free_less [OF assms(1)] find_pair_taken [OF assms(1) q]
    by (auto simp: hwe_add_pair_locked_def add_accepted_def Let_def split: option.split)
qed

lemma add_accepted_inv:
  assumes "dev_inv dev" "pair_buf_ok (raw_pair E)" "add_accepted K E dev buf n q"
  shows "dev_inv (add_new_pair dev (numbered q (find_first_zero_bit (pairs_indexes dev) HWE_MAX_PAIRS)))"
proof -
  have "wf_pair q" using assms str_to_pair_wf_pair by (auto simp: add_accepted_def)
  then show ?thesis
    using assms first_free_bound [OF assms(1)] by (intro dev_inv_add) (simp_all add: add_accepted_def)
qed

lemma dev_add_store_inv:
  assumes "dev_inv dev" "pair_buf_ok (raw_pair E)"
  shows "dev_inv (snd (dev_add_store_locked K E dev buf n))"
proof (cases "\<exists>q. add_accepted K E dev buf n q")
  case True
  then show ?thesis
    using dev_add_store_accepted [OF assms] add_accepted_inv [OF assms] by fastforce
next
  case False
  show ?thesis
  proof (cases "str_to_pair K buf n (raw_pair E)")
    case (Inl e)
    then show ?thesis using assms by (simp add: dev_add_store_locked_def)
  next
    case (Inr q)
    then show ?thesis
      using False assms first_free_less [OF assms(1)] find_pair_taken [OF assms(1) str_to_pair_wf_pair [OF Inr assms(2)]]
      by (auto simp: dev_add_store_locked_def add_accepted_def Let_def split: option.split)
  qed
qed

lemma hwe_add_pair_same_device:
  "snd (hwe_add_pair_locked K E dev buf) = snd (dev_add_store_locked K E dev buf (length (c_string buf)))"
  by (simp add: hwe_add_pair_locked_def dev_add_store_locked_def Let_def split: sum.split option.split)

lemma hwe_add_pair_inv:
  "dev_inv dev \<Longrightarrow> pair_buf_ok (raw_pair E) \<Longrightarrow> dev_inv (snd (hwe_add_pair_locked K E dev buf))"
  unfolding hwe_add_pair_same_device by (rule dev_add_store_inv)

lemma get_pair_at_index_Some: "get_pair_at_index ps i = Some p \<Longrightarrow> p \<in> set ps \<and> index p = i"
  by (auto simp: get_pair_at_index_eq_find find_Some_iff)

lemma dev_delete_store_inv: "dev_inv dev \<Longrightarrow> dev_inv (snd (dev_delete_store_locked K dev buf n))"
  by (auto simp: dev_delete_store_locked_def split: option.split dest: get_pair_at_index_Some intro: dev_inv_delete)

lemma hwe_delete_pair_inv: "dev_inv dev \<Longrightarrow> dev_inv (snd (hwe_delete_pair_locked dev i))"
  by (auto simp: hwe_delete_pair_locked_def split: option.split dest: get_pair_at_index_Some intro: dev_inv_delete)

lemmas dev_inv_ops [wf_intros] =
  dev_add_store_inv hwe_add_pair_inv dev_delete_store_inv hwe_delete_pair_inv dev_inv_clear dev_inv_delete

lemma size_of_long_small: "0 \<le> i \<Longrightarrow> i < 2 ^ 63 \<Longrightarrow> size_of_long i = nat i"
  by (simp add: size_of_long_def)

lemma size_of_long_negative: "i < 0 \<Longrightarrow> - (2 ^ 63) \<le> i \<Longrightarrow> 2 ^ 63 \<le> size_of_long i"
proof -
  assume "i < 0" "- (2 ^ 63) \<le> i"
  then have "(i + 2 ^ 64) mod 2 ^ 64 = i + 2 ^ 64"
    by (intro mod_pos_pos_trivial) simp_all
  then have "i mod 2 ^ 64 = i + 2 ^ 64"
    by (simp only: mod_add_self2)
  with \<open>- (2 ^ 63) \<le> i\<close> show ?thesis by (simp add: size_of_long_def)
qed

end
