(* ===== verification/Registry.thy ===== *)
theory Registry
  imports Device
begin

text \<open>
  The devices of each interface (\<open>struct hwe_iface\<close> of \<open>hwe_sysfs.c\<close>): the interface semaphore,
  index allocation, and the creation and removal of devices (\<open>new_dev\<close>, \<open>add_dev\<close>, \<open>del_dev\<close>,
  \<open>shutdown_dev\<close>). The drivers are reached through the table \<open>dev_ops\<close>, as in the code: it is an
  argument here, the type \<open>'d\<close> is a driver's private data of one device and \<open>'w\<close> the state of
  all drivers. A device is named by its interface and index; \<open>replace_dev\<close> writes through such
  a name, which is what an assignment through a \<open>struct hwe_dev *\<close> does.

  What the kernel decides is in \<open>new_env\<close>: whether \<open>kzalloc\<close> succeeds, the results of
  \<open>kobject_init_and_add\<close> and \<open>kobject_create_and_add\<close>.
\<close>

section \<open>State\<close>

record 'd hwe_iface =
  dev_list :: "'d hwe_dev list"
  dev_indexes :: bitmap
  sem :: nat
  kobj_live :: bool

record ('d, 'w) sysfs =
  ifaces :: "HWE_IFACE \<Rightarrow> 'd hwe_iface"
  drv :: 'w
  base_kset :: bool

record ('d, 'w) hwe_dev_ops =
  create :: "HWE_IFACE \<Rightarrow> nat \<Rightarrow> 'w \<Rightarrow> 'd option \<times> 'w"
  destroy :: "HWE_IFACE \<Rightarrow> 'd \<Rightarrow> 'w \<Rightarrow> 'w"

record new_env =
  kzalloc_ok :: bool
  kobject_add_err :: int
  pairs_kobj_ok :: bool

abbreviation devs :: "('d, 'w) sysfs \<Rightarrow> HWE_IFACE \<Rightarrow> 'd hwe_dev list" where
  "devs st i \<equiv> dev_list (ifaces st i)"

definition update_iface ::
  "HWE_IFACE \<Rightarrow> ('d hwe_iface \<Rightarrow> 'd hwe_iface) \<Rightarrow> ('d, 'w) sysfs \<Rightarrow> ('d, 'w) sysfs" where
  "update_iface i f st = st\<lparr>ifaces := (ifaces st)(i := f (ifaces st i))\<rparr>"

section \<open>Indexes and locks\<close>

definition find_free_dev_index :: "HWE_IFACE \<Rightarrow> ('d, 'w) sysfs \<Rightarrow> int" where
  "find_free_dev_index i st =
     (let ret = find_first_zero_bit (dev_indexes (ifaces st i)) HWE_MAX_DEVICES
      in if ret = HWE_MAX_DEVICES then -1 else int ret)"

definition take_dev_index :: "HWE_IFACE \<Rightarrow> int \<Rightarrow> ('d, 'w) sysfs \<Rightarrow> ('d, 'w) sysfs" where
  "take_dev_index i idx st =
     (if idx \<ge> 0 then update_iface i (\<lambda>ifc. ifc\<lparr>dev_indexes := bm_set_bit (nat idx) (dev_indexes ifc)\<rparr>) st
      else st)"

definition put_dev_index :: "HWE_IFACE \<Rightarrow> int \<Rightarrow> ('d, 'w) sysfs \<Rightarrow> ('d, 'w) sysfs" where
  "put_dev_index i idx st =
     (if idx \<ge> 0 then update_iface i (\<lambda>ifc. ifc\<lparr>dev_indexes := bm_clear_bit (nat idx) (dev_indexes ifc)\<rparr>) st
      else st)"

text \<open>\<open>down\<close> waits while the count is 0: \<open>None\<close>.\<close>

definition lock_iface_devs :: "HWE_IFACE \<Rightarrow> ('d, 'w) sysfs \<Rightarrow> ('d, 'w) sysfs option" where
  "lock_iface_devs i st =
     (if sem (ifaces st i) = 0 then None
      else Some (update_iface i (\<lambda>ifc. ifc\<lparr>sem := sem ifc - 1\<rparr>) st))"

definition try_lock_iface_devs :: "HWE_IFACE \<Rightarrow> ('d, 'w) sysfs \<Rightarrow> bool \<times> ('d, 'w) sysfs" where
  "try_lock_iface_devs i st =
     (if sem (ifaces st i) = 0 then (False, st)
      else (True, update_iface i (\<lambda>ifc. ifc\<lparr>sem := sem ifc - 1\<rparr>) st))"

definition unlock_iface_devs :: "HWE_IFACE \<Rightarrow> ('d, 'w) sysfs \<Rightarrow> ('d, 'w) sysfs" where
  "unlock_iface_devs i st = update_iface i (\<lambda>ifc. ifc\<lparr>sem := sem ifc + 1\<rparr>) st"

definition with_iface_lock ::
  "HWE_IFACE \<Rightarrow> (('d, 'w) sysfs \<Rightarrow> ('r \<times> ('d, 'w) sysfs) run) \<Rightarrow> ('d, 'w) sysfs \<Rightarrow>
     ('r \<times> ('d, 'w) sysfs) run" where
  "with_iface_lock i body st =
     (case lock_iface_devs i st of
        None \<Rightarrow> Blocked
      | Some st \<Rightarrow>
          (case body st of
             Done (r, st) \<Rightarrow> Done (r, unlock_iface_devs i st)
           | Blocked \<Rightarrow> Blocked
           | Oops \<Rightarrow> Oops))"

section \<open>Looking devices up\<close>

definition find_first_device :: "HWE_IFACE \<Rightarrow> ('d, 'w) sysfs \<Rightarrow> 'd hwe_dev option" where
  "find_first_device i st = (case devs st i of [] \<Rightarrow> None | d # _ \<Rightarrow> Some d)"

definition find_next_device :: "HWE_IFACE \<Rightarrow> 'd hwe_dev \<Rightarrow> ('d, 'w) sysfs \<Rightarrow> 'd hwe_dev option" where
  "find_next_device i dev st =
     (case tl (dropWhile (\<lambda>d. dev_index d \<noteq> dev_index dev) (devs st i)) of
        [] \<Rightarrow> None | d # _ \<Rightarrow> Some d)"

definition find_device :: "HWE_IFACE \<Rightarrow> string \<Rightarrow> ('d, 'w) sysfs \<Rightarrow> 'd hwe_dev option" where
  "find_device i name st = find (\<lambda>dev. kobj_name dev = name) (devs st i)"

definition find_device_by_index :: "HWE_IFACE \<Rightarrow> nat \<Rightarrow> ('d, 'w) sysfs \<Rightarrow> 'd hwe_dev option" where
  "find_device_by_index i idx st = find (\<lambda>dev. dev_index dev = idx) (devs st i)"

definition replace_dev :: "HWE_IFACE \<Rightarrow> 'd hwe_dev \<Rightarrow> ('d, 'w) sysfs \<Rightarrow> ('d, 'w) sysfs" where
  "replace_dev i dev st =
     update_iface i (\<lambda>ifc. ifc\<lparr>dev_list :=
       map (\<lambda>d. if dev_index d = dev_index dev then dev else d) (dev_list ifc)\<rparr>) st"

definition unlink_dev :: "HWE_IFACE \<Rightarrow> nat \<Rightarrow> ('d, 'w) sysfs \<Rightarrow> ('d, 'w) sysfs" where
  "unlink_dev i idx st =
     update_iface i (\<lambda>ifc. ifc\<lparr>dev_list := filter (\<lambda>d. dev_index d \<noteq> idx) (dev_list ifc)\<rparr>) st"

section \<open>Creating and removing devices\<close>

definition fresh_dev :: "HWE_IFACE \<Rightarrow> nat \<Rightarrow> 'd hwe_dev" where
  "fresh_dev i idx =
     \<lparr>iface = i, dev_index = idx, kobj_name = [], pair_list = [],
      pairs_indexes = bitmap_zero HWE_MAX_PAIRS, pairs_dir = [], device = None\<rparr>"

definition add_dev ::
  "bool \<Rightarrow> HWE_IFACE \<Rightarrow> nat \<Rightarrow> ('d, 'w) sysfs \<Rightarrow> 'd hwe_dev option \<times> ('d, 'w) sysfs" where
  "add_dev alloc_ok i idx st =
     (if alloc_ok then
        let ret = fresh_dev i idx;
            st = take_dev_index i (int idx) st;
            st = update_iface i (\<lambda>ifc. ifc\<lparr>dev_list := ret # dev_list ifc\<rparr>) st
        in (Some ret, st)
      else (None, st))"

definition del_dev :: "'d hwe_dev \<Rightarrow> ('d, 'w) sysfs \<Rightarrow> ('d, 'w) sysfs" where
  "del_dev dev st =
     (let st = unlink_dev (iface dev) (dev_index dev) st
      in put_dev_index (iface dev) (int (dev_index dev)) st)"

definition shutdown_dev ::
  "('d, 'w) hwe_dev_ops \<Rightarrow> 'd hwe_dev \<Rightarrow> ('d, 'w) sysfs \<Rightarrow> ('d, 'w) sysfs" where
  "shutdown_dev ops dev st =
     (let st = (case device dev of
                  None \<Rightarrow> st
                | Some d \<Rightarrow> st\<lparr>drv := destroy ops (iface dev) d (drv st)\<rparr>);
          st = replace_dev (iface dev) (clear_pairs dev) st;
          st = unlink_dev (iface dev) (dev_index dev) st
      in put_dev_index (iface dev) (int (dev_index dev)) st)"

definition new_dev ::
  "('d, 'w) hwe_dev_ops \<Rightarrow> new_env \<Rightarrow> HWE_IFACE \<Rightarrow> ('d, 'w) sysfs \<Rightarrow>
     'd hwe_dev option \<times> ('d, 'w) sysfs" where
  "new_dev ops E i st =
     (let idx = find_free_dev_index i st
      in if idx < 0 then (None, st)
         else
           (case add_dev (kzalloc_ok E) i (nat idx) st of
              (None, st) \<Rightarrow> (None, st)
            | (Some ret, st) \<Rightarrow>
                (case create ops i (nat idx) (drv st) of
                   (None, w) \<Rightarrow> (None, del_dev ret (st\<lparr>drv := w\<rparr>))
                 | (Some d, w) \<Rightarrow>
                     let ret = ret\<lparr>device := Some d\<rparr>;
                         st = replace_dev i ret (st\<lparr>drv := w\<rparr>);
                         ret = ret\<lparr>kobj_name := iface_to_str i @ dec_str (nat idx)\<rparr>;
                         st = replace_dev i ret st
                     in if kobject_add_err E \<noteq> 0 then (None, shutdown_dev ops ret st)
                        else if \<not> pairs_kobj_ok E then (None, shutdown_dev ops ret st)
                        else (Some ret, st))))"

section \<open>The invariant of an interface\<close>

definition dev_ok :: "HWE_IFACE \<Rightarrow> 'd hwe_dev \<Rightarrow> bool" where
  "dev_ok i dev \<longleftrightarrow>
     dev_inv dev \<and> iface dev = i \<and> device dev \<noteq> None \<and>
     kobj_name dev = iface_to_str i @ dec_str (dev_index dev)"

definition iface_inv :: "HWE_IFACE \<Rightarrow> 'd hwe_iface \<Rightarrow> bool" where
  "iface_inv i ifc \<longleftrightarrow>
     (\<forall>dev \<in> set (dev_list ifc). dev_ok i dev) \<and>
     length (dev_indexes ifc) = HWE_MAX_DEVICES \<and>
     distinct (map dev_index (dev_list ifc)) \<and>
     dev_index ` set (dev_list ifc) = bits (dev_indexes ifc)"

text \<open>Between operations every interface is consistent and unlocked.\<close>

definition sysfs_inv :: "('d, 'w) sysfs \<Rightarrow> bool" where
  "sysfs_inv st \<longleftrightarrow> (\<forall>i. iface_inv i (ifaces st i) \<and> sem (ifaces st i) = 1)"

lemma iface_inv_iff:
  "iface_inv i ifc \<longleftrightarrow>
     (\<forall>dev \<in> set (dev_list ifc). dev_ok i dev) \<and> dev_ix.indexed dev_index (dev_list ifc) (dev_indexes ifc)"
  by (auto simp: iface_inv_def dev_ix.indexed_def)

lemma iface_inv_indexed: "iface_inv i ifc \<Longrightarrow> dev_ix.indexed dev_index (dev_list ifc) (dev_indexes ifc)"
  by (simp add: iface_inv_iff)

lemma iface_inv_sem [simp]: "iface_inv i (ifc\<lparr>sem := n\<rparr>) = iface_inv i ifc"
  by (simp add: iface_inv_def)

lemma iface_inv_kobj [simp]: "iface_inv i (ifc\<lparr>kobj_live := b\<rparr>) = iface_inv i ifc"
  by (simp add: iface_inv_def)

lemma update_iface_simps [simp]:
  "ifaces (update_iface i f st) i = f (ifaces st i)"
  "j \<noteq> i \<Longrightarrow> ifaces (update_iface i f st) j = ifaces st j"
  "drv (update_iface i f st) = drv st"
  "base_kset (update_iface i f st) = base_kset st"
  by (simp_all add: update_iface_def)

section \<open>Lookups\<close>

lemma find_device_by_index_Some:
  "find_device_by_index i n st = Some dev \<Longrightarrow> dev \<in> set (devs st i) \<and> dev_index dev = n"
  by (auto simp: find_device_by_index_def find_Some_iff)

lemma find_device_by_index_None:
  "find_device_by_index i n st = None \<longleftrightarrow> (\<forall>dev \<in> set (devs st i). dev_index dev \<noteq> n)"
  by (auto simp: find_device_by_index_def find_None_iff)

lemma find_device_by_index_iff:
  "iface_inv i (ifaces st i) \<Longrightarrow>
     find_device_by_index i n st = Some dev \<longleftrightarrow> dev \<in> set (devs st i) \<and> dev_index dev = n"
  using find_device_by_index_Some [of i n st dev]
    dev_ix.indexed_unique [OF iface_inv_indexed, of i "ifaces st i"] find_device_by_index_None [of i n st]
  by (cases "find_device_by_index i n st") (auto dest: find_device_by_index_Some)

lemma find_device_Some:
  "find_device i name st = Some dev \<Longrightarrow> dev \<in> set (devs st i) \<and> kobj_name dev = name"
  by (auto simp: find_device_def find_Some_iff)

text \<open>Looking up by name and by index agree: names are unique because indexes are.\<close>

lemma find_device_by_name:
  assumes "iface_inv i (ifaces st i)"
  shows "find_device i (iface_to_str i @ dec_str n) st = find_device_by_index i n st"
proof -
  have "kobj_name dev = iface_to_str i @ dec_str n \<longleftrightarrow> dev_index dev = n" if "dev \<in> set (devs st i)" for dev
    using assms that by (simp add: iface_inv_def dev_ok_def)
  then show ?thesis
    unfolding find_device_def find_device_by_index_def by (intro find_cong refl) auto
qed

section \<open>Writing through a device pointer\<close>

lemma update_iface_update [simp]:
  "update_iface i f (update_iface i g st) = update_iface i (\<lambda>ifc. f (g ifc)) st"
  by (simp add: update_iface_def)

lemma update_iface_same: "f (ifaces st i) = ifaces st i \<Longrightarrow> update_iface i f st = st"
  by (simp add: update_iface_def)

lemma update_iface_cong: "f (ifaces st i) = g (ifaces st i) \<Longrightarrow> update_iface i f st = update_iface i g st"
  by (simp add: update_iface_def)

lemma update_iface_drv [simp]: "update_iface i f (st\<lparr>drv := w\<rparr>) = (update_iface i f st)\<lparr>drv := w\<rparr>"
  by (simp add: update_iface_def)

lemma map_replace_other:
  "n \<notin> dev_index ` set ds \<Longrightarrow> map (\<lambda>d. if dev_index d = n then x else d) ds = ds"
  by (induction ds) auto

lemma filter_other: "n \<notin> dev_index ` set ds \<Longrightarrow> filter (\<lambda>d. dev_index d \<noteq> n) ds = ds"
  by (induction ds) auto

lemma devs_replace_dev:
  "devs (replace_dev i dev st) i = map (\<lambda>d. if dev_index d = dev_index dev then dev else d) (devs st i)"
  by (simp add: replace_dev_def)

lemma iface_inv_replace:
  assumes "iface_inv i (ifaces st i)" "dev_ok i dev"
  shows "iface_inv i (ifaces (replace_dev i dev st) i)"
proof -
  let ?f = "\<lambda>d. if dev_index d = dev_index dev then dev else d"
  have "dev_ix.indexed dev_index (map ?f (devs st i)) (dev_indexes (ifaces st i))"
    by (rule dev_ix.indexed_map [OF iface_inv_indexed [OF assms(1)]]) simp
  moreover have "dev_indexes (ifaces (replace_dev i dev st) i) = dev_indexes (ifaces st i)"
    by (simp add: replace_dev_def)
  moreover have "\<forall>d \<in> set (map ?f (devs st i)). dev_ok i d"
    using assms by (auto simp: iface_inv_def)
  ultimately show ?thesis
    by (simp only: iface_inv_iff devs_replace_dev)
qed

lemma find_replace_dev:
  assumes "find_device_by_index i n st = Some dev0" "dev_index dev = n"
  shows "find_device_by_index i n (replace_dev i dev st) = Some dev"
proof -
  have "find (\<lambda>d. dev_index d = n) (map (\<lambda>d. if dev_index d = dev_index dev then dev else d) ds) = Some dev"
    if "find (\<lambda>d. dev_index d = n) ds = Some dev0" for ds
    using that assms(2) by (induction ds) (auto split: if_splits)
  then show ?thesis
    using assms(1) unfolding find_device_by_index_def devs_replace_dev by blast
qed

lemma find_replace_dev_other:
  assumes "dev_index dev \<noteq> n"
  shows "find_device_by_index i n (replace_dev i dev st) = find_device_by_index i n st"
proof -
  have "find (\<lambda>d. dev_index d = n) (map (\<lambda>d. if dev_index d = dev_index dev then dev else d) ds)
      = find (\<lambda>d. dev_index d = n) ds" for ds
    using assms by (induction ds) auto
  then show ?thesis
    unfolding find_device_by_index_def devs_replace_dev by blast
qed

section \<open>Creating a device\<close>

definition next_index :: "HWE_IFACE \<Rightarrow> ('d, 'w) sysfs \<Rightarrow> nat" where
  "next_index i st = find_first_zero_bit (dev_indexes (ifaces st i)) HWE_MAX_DEVICES"

definition added :: "HWE_IFACE \<Rightarrow> 'd hwe_dev \<Rightarrow> ('d, 'w) sysfs \<Rightarrow> ('d, 'w) sysfs" where
  "added i dev st =
     update_iface i (\<lambda>ifc. ifc\<lparr>dev_list := dev # dev_list ifc,
       dev_indexes := bm_set_bit (dev_index dev) (dev_indexes ifc)\<rparr>) st"

lemma fresh_dev_simps [simp]:
  "iface (fresh_dev i n) = i" "dev_index (fresh_dev i n) = n" "device (fresh_dev i n) = None"
  "pair_list (fresh_dev i n) = []"
  by (simp_all add: fresh_dev_def)

lemma added_drv [simp]:
  "drv (added i dev st) = drv st" "added i dev (st\<lparr>drv := w\<rparr>) = (added i dev st)\<lparr>drv := w\<rparr>"
  by (simp_all add: added_def)

lemma add_dev_added: "add_dev True i n st = (Some (fresh_dev i n), added i (fresh_dev i n) st)"
  by (simp add: add_dev_def take_dev_index_def added_def Let_def) (rule update_iface_cong, simp)

lemma next_index_fresh:
  assumes "iface_inv i (ifaces st i)"
  shows "next_index i st \<notin> dev_index ` set (devs st i)"
  using assms find_first_zero_bit_props(2) by (fastforce simp: iface_inv_def next_index_def)

lemma replace_added:
  assumes "iface_inv i (ifaces st i)" "dev_index dev = next_index i st" "dev_index dev' = next_index i st"
  shows "replace_dev i dev' (added i dev st) = added i dev' st"
  using assms next_index_fresh [OF assms(1)]
  by (auto simp: replace_dev_def added_def map_replace_other intro!: update_iface_cong)

lemma clear_set_bit: "i < length bm \<Longrightarrow> i \<notin> bits bm \<Longrightarrow> bm_clear_bit i (bm_set_bit i bm) = bm"
  by (simp add: bm_clear_bit_def bm_set_bit_def bits_def list_update_same_conv)

lemma remove_added:
  assumes "iface_inv i (ifaces st i)" "dev_index dev = next_index i st" "next_index i st < HWE_MAX_DEVICES"
  shows "put_dev_index i (int (dev_index dev)) (unlink_dev i (dev_index dev) (added i dev st)) = st"
proof -
  have "length (dev_indexes (ifaces st i)) = HWE_MAX_DEVICES"
    and "next_index i st \<notin> bits (dev_indexes (ifaces st i))"
    using assms(1) next_index_fresh [OF assms(1)] by (simp_all add: iface_inv_def)
  then show ?thesis
    using assms(2,3) next_index_fresh [OF assms(1)]
    by (simp add: put_dev_index_def unlink_dev_def added_def filter_other clear_set_bit update_iface_same)
qed

lemma find_free_dev_index_eq:
  "find_free_dev_index i st = (if next_index i st = HWE_MAX_DEVICES then -1 else int (next_index i st))"
  by (simp add: find_free_dev_index_def next_index_def Let_def)

lemma write_drv [simp]:
  "replace_dev i dev (st\<lparr>drv := w\<rparr>) = (replace_dev i dev st)\<lparr>drv := w\<rparr>"
  "unlink_dev i n (st\<lparr>drv := w\<rparr>) = (unlink_dev i n st)\<lparr>drv := w\<rparr>"
  "put_dev_index i k (st\<lparr>drv := w\<rparr>) = (put_dev_index i k st)\<lparr>drv := w\<rparr>"
  by (simp_all add: replace_dev_def unlink_dev_def put_dev_index_def)

lemma shutdown_added:
  assumes "iface_inv i (ifaces st i)" "dev_index dev = next_index i st" "next_index i st < HWE_MAX_DEVICES"
    "iface dev = i" "device dev = Some d"
  shows "shutdown_dev ops dev (added i dev st) = st\<lparr>drv := destroy ops i d (drv st)\<rparr>"
proof -
  have "replace_dev i (clear_pairs dev) (added i dev st) = added i (clear_pairs dev) st"
    using assms by (intro replace_added) simp_all
  moreover have "put_dev_index i (int (dev_index dev)) (unlink_dev i (dev_index dev) (added i (clear_pairs dev) st)) = st"
    using remove_added [of i st "clear_pairs dev"] assms by simp
  ultimately show ?thesis
    using assms(4,5) by (simp add: shutdown_dev_def Let_def)
qed

text \<open>The device \<open>new_dev\<close> hands out.\<close>

definition made_dev :: "HWE_IFACE \<Rightarrow> nat \<Rightarrow> 'd \<Rightarrow> 'd hwe_dev" where
  "made_dev i n d = (fresh_dev i n)\<lparr>device := Some d, kobj_name := iface_to_str i @ dec_str n\<rparr>"

lemma new_dev_eq:
  assumes inv: "iface_inv i (ifaces st i)"
  shows "new_dev ops E i st =
    (let n = next_index i st
     in if n = HWE_MAX_DEVICES \<or> \<not> kzalloc_ok E then (None, st)
        else
          (case create ops i n (drv st) of
             (None, w) \<Rightarrow> (None, st\<lparr>drv := w\<rparr>)
           | (Some d, w) \<Rightarrow>
               if kobject_add_err E \<noteq> 0 \<or> \<not> pairs_kobj_ok E
               then (None, st\<lparr>drv := destroy ops i d w\<rparr>)
               else (Some (made_dev i n d), added i (made_dev i n d) (st\<lparr>drv := w\<rparr>))))"
proof (cases "next_index i st = HWE_MAX_DEVICES \<or> \<not> kzalloc_ok E")
  case True
  then show ?thesis by (auto simp: new_dev_def find_free_dev_index_eq add_dev_def Let_def)
next
  case False
  define n where "n = next_index i st"
  have "n \<le> HWE_MAX_DEVICES"
    using inv find_first_zero_bit_props(1) unfolding iface_inv_def n_def next_index_def by blast
  then have n: "n < HWE_MAX_DEVICES" "n = next_index i st"
    using False by (simp_all add: n_def)
  obtain od w where c: "create ops i n (drv st) = (od, w)" by (cases "create ops i n (drv st)")
  have inv': "iface_inv i (ifaces (st\<lparr>drv := w\<rparr>) i)" "next_index i (st\<lparr>drv := w\<rparr>) = n"
    using inv by (simp_all add: n_def next_index_def)
  note replace = replace_added [OF inv'(1), unfolded inv'(2)]
  show ?thesis
  proof (cases od)
    case None
    have "del_dev (fresh_dev i n) (added i (fresh_dev i n) (st\<lparr>drv := w\<rparr>)) = st\<lparr>drv := w\<rparr>"
      using remove_added [OF inv'(1), of "fresh_dev i n"] n inv'(2) by (simp add: del_dev_def Let_def)
    with None c n False show ?thesis
      by (simp add: new_dev_def find_free_dev_index_eq add_dev_added Let_def)
  next
    case (Some d)
    define ret where "ret = (fresh_dev i n)\<lparr>device := Some d\<rparr>"
    have "replace_dev i ret (added i (fresh_dev i n) (st\<lparr>drv := w\<rparr>)) = added i ret (st\<lparr>drv := w\<rparr>)"
      by (rule replace) (simp_all add: ret_def)
    moreover have "replace_dev i (made_dev i n d) (added i ret (st\<lparr>drv := w\<rparr>)) = added i (made_dev i n d) (st\<lparr>drv := w\<rparr>)"
      by (rule replace) (simp_all add: ret_def made_dev_def)
    moreover have "ret\<lparr>kobj_name := iface_to_str i @ dec_str n\<rparr> = made_dev i n d"
      by (simp add: ret_def made_dev_def)
    moreover have "shutdown_dev ops (made_dev i n d) (added i (made_dev i n d) (st\<lparr>drv := w\<rparr>))
        = st\<lparr>drv := destroy ops i d w\<rparr>"
      using shutdown_added [OF inv'(1), of "made_dev i n d" d ops] n inv'(2) by (simp add: made_dev_def)
    ultimately show ?thesis
      using Some c n False
      by (simp add: new_dev_def find_free_dev_index_eq add_dev_added Let_def ret_def)
  qed
qed

lemma dev_inv_fresh:
  "pair_list dev = [] \<Longrightarrow> pairs_indexes dev = bitmap_zero HWE_MAX_PAIRS \<Longrightarrow> pairs_dir dev = [] \<Longrightarrow> dev_inv dev"
  by (simp add: dev_inv_def no_dup_requests_def)

lemma dev_ok_made: "dev_ok i (made_dev i n d)"
  by (simp add: dev_ok_def made_dev_def fresh_dev_def dev_inv_fresh)

lemma made_dev_simps [simp]:
  "dev_index (made_dev i n d) = n" "device (made_dev i n d) = Some d" "iface (made_dev i n d) = i"
  "pair_list (made_dev i n d) = []"
  by (simp_all add: made_dev_def)

lemma iface_inv_added:
  assumes "iface_inv i (ifaces st i)" "dev_ok i dev" "dev_index dev = next_index i st"
    "next_index i st < HWE_MAX_DEVICES"
  shows "iface_inv i (ifaces (added i dev st) i)"
  using assms dev_ix.indexed_add [OF iface_inv_indexed [OF assms(1)], of dev "dev # devs st i"]
  by (simp add: iface_inv_iff added_def next_index_def)

lemma next_index_less:
  "iface_inv i (ifaces st i) \<Longrightarrow> next_index i st \<noteq> HWE_MAX_DEVICES \<Longrightarrow> next_index i st < HWE_MAX_DEVICES"
  using find_first_zero_bit_props(1) unfolding iface_inv_def next_index_def by (metis le_neq_implies_less)

lemma next_index_full:
  "iface_inv i (ifaces st i) \<Longrightarrow> next_index i st = HWE_MAX_DEVICES \<longleftrightarrow> length (devs st i) = HWE_MAX_DEVICES"
  using dev_ix.full_iff [OF iface_inv_indexed] by (simp add: next_index_def)

lemma next_index_least:
  "iface_inv i (ifaces st i) \<Longrightarrow> k < next_index i st \<Longrightarrow> k \<in> dev_index ` set (devs st i)"
  using find_first_zero_bit_props(3) unfolding iface_inv_def next_index_def by blast

section \<open>Removing a device\<close>

definition removed :: "HWE_IFACE \<Rightarrow> nat \<Rightarrow> ('d, 'w) sysfs \<Rightarrow> ('d, 'w) sysfs" where
  "removed i n st =
     update_iface i (\<lambda>ifc. ifc\<lparr>dev_list := filter (\<lambda>d. dev_index d \<noteq> n) (dev_list ifc),
       dev_indexes := bm_clear_bit n (dev_indexes ifc)\<rparr>) st"

lemma filter_replaced:
  "dev_index dev = n \<Longrightarrow> filter (\<lambda>d. dev_index d \<noteq> n) (map (\<lambda>d. if dev_index d = n then dev else d) ds)
     = filter (\<lambda>d. dev_index d \<noteq> n) ds"
  by (induction ds) auto

lemma shutdown_dev_eq:
  assumes "iface dev = i" "device dev = Some d"
  shows "shutdown_dev ops dev st = (removed i (dev_index dev) st)\<lparr>drv := destroy ops i d (drv st)\<rparr>"
proof -
  have "put_dev_index i (int (dev_index dev)) (unlink_dev i (dev_index dev) (replace_dev i (clear_pairs dev) st))
      = removed i (dev_index dev) st"
    by (simp add: put_dev_index_def unlink_dev_def replace_dev_def removed_def)
      (rule update_iface_cong, simp add: filter_replaced)
  with assms show ?thesis by (simp add: shutdown_dev_def Let_def)
qed

lemma filter_index_remove1:
  "distinct (map dev_index ds) \<Longrightarrow> dev \<in> set ds \<Longrightarrow>
     mset ds = add_mset dev (mset (filter (\<lambda>d. dev_index d \<noteq> dev_index dev) ds))"
proof (induction ds)
  case Nil
  then show ?case by simp
next
  case (Cons x ds)
  then show ?case
    by (cases "x = dev") (auto simp: filter_other image_iff)
qed

lemma iface_inv_removed:
  assumes "iface_inv i (ifaces st i)" "dev \<in> set (devs st i)" "n = dev_index dev"
  shows "iface_inv i (ifaces (removed i n st) i)"
proof -
  have "distinct (map dev_index (devs st i))" using assms(1) by (simp add: iface_inv_def)
  then have "dev_ix.indexed dev_index (filter (\<lambda>d. dev_index d \<noteq> n) (devs st i))
      (bm_clear_bit n (dev_indexes (ifaces st i)))"
    using dev_ix.indexed_remove [OF iface_inv_indexed [OF assms(1)] assms(2)] filter_index_remove1 assms(2,3)
    by blast
  then show ?thesis
    using assms(1) by (simp add: iface_inv_iff removed_def)
qed

lemma removed_simps [simp]:
  "devs (removed i n st) i = filter (\<lambda>d. dev_index d \<noteq> n) (devs st i)"
  "j \<noteq> i \<Longrightarrow> ifaces (removed i n st) j = ifaces st j"
  "sem (ifaces (removed i n st) i) = sem (ifaces st i)" "drv (removed i n st) = drv st"
  by (simp_all add: removed_def)

lemma added_simps [simp]:
  "devs (added i dev st) i = dev # devs st i"
  "j \<noteq> i \<Longrightarrow> ifaces (added i dev st) j = ifaces st j"
  "sem (ifaces (added i dev st) i) = sem (ifaces st i)"
  by (simp_all add: added_def)

lemma replace_dev_simps [simp]:
  "j \<noteq> i \<Longrightarrow> ifaces (replace_dev i dev st) j = ifaces st j"
  "sem (ifaces (replace_dev i dev st) i) = sem (ifaces st i)"
  "drv (replace_dev i dev st) = drv st"
  by (simp_all add: replace_dev_def)

section \<open>Locking\<close>

definition all_inv :: "('d, 'w) sysfs \<Rightarrow> bool" where
  "all_inv st \<longleftrightarrow> (\<forall>i. iface_inv i (ifaces st i))"

definition locked :: "HWE_IFACE \<Rightarrow> ('d, 'w) sysfs \<Rightarrow> ('d, 'w) sysfs" where
  "locked i st = update_iface i (\<lambda>ifc. ifc\<lparr>sem := 0\<rparr>) st"

definition same_locks :: "('d, 'w) sysfs \<Rightarrow> ('d, 'w) sysfs \<Rightarrow> bool" where
  "same_locks st st' \<longleftrightarrow> (\<forall>i. sem (ifaces st' i) = sem (ifaces st i))"

lemma sysfs_inv_all_inv: "sysfs_inv st \<Longrightarrow> all_inv st"
  by (simp add: sysfs_inv_def all_inv_def)

lemma all_inv_locked [simp]: "all_inv (locked i st) = all_inv st"
proof -
  have "iface_inv j (ifaces (locked i st) j) = iface_inv j (ifaces st j)" for j
    by (cases "j = i") (simp_all add: locked_def)
  then show ?thesis by (simp add: all_inv_def)
qed

lemma locked_simps [simp]:
  "devs (locked i st) j = devs st j" "drv (locked i st) = drv st"
  "dev_indexes (ifaces (locked i st) j) = dev_indexes (ifaces st j)"
  "find_device_by_index j n (locked i st) = find_device_by_index j n st"
  "find_device j name (locked i st) = find_device j name st"
  by (cases "j = i"; simp add: locked_def find_device_by_index_def find_device_def)+

lemma with_iface_lock_eq:
  "sysfs_inv st \<Longrightarrow> with_iface_lock i body st =
     (case body (locked i st) of
        Done (r, st') \<Rightarrow> Done (r, unlock_iface_devs i st') | Blocked \<Rightarrow> Blocked | Oops \<Rightarrow> Oops)"
  by (simp add: with_iface_lock_def lock_iface_devs_def sysfs_inv_def locked_def update_iface_def)

lemma unlock_inv:
  assumes "sysfs_inv st" "all_inv st'" "same_locks (locked i st) st'"
  shows "sysfs_inv (unlock_iface_devs i st')"
proof -
  have "iface_inv j (ifaces (unlock_iface_devs i st') j) \<and> sem (ifaces (unlock_iface_devs i st') j) = 1" for j
    using assms by (cases "j = i")
      (simp_all add: all_inv_def same_locks_def unlock_iface_devs_def locked_def sysfs_inv_def)
  then show ?thesis by (simp add: sysfs_inv_def)
qed

text \<open>
  A handler whose body keeps the invariant and the locks, run on a consistent unlocked
  state, returns, and leaves a consistent unlocked state.
\<close>

lemma with_iface_lock_inv:
  assumes "sysfs_inv st" "body (locked i st) = Done (r, st')" "all_inv st'" "same_locks (locked i st) st'"
  shows "\<exists>st''. with_iface_lock i body st = Done (r, st'') \<and> sysfs_inv st'' \<and> st'' = unlock_iface_devs i st'"
  using assms unlock_inv by (simp add: with_iface_lock_eq)

lemma unlock_simps [simp]:
  "devs (unlock_iface_devs i st) j = devs st j" "drv (unlock_iface_devs i st) = drv st"
  "find_device_by_index j n (unlock_iface_devs i st) = find_device_by_index j n st"
  by (cases "j = i"; simp add: unlock_iface_devs_def find_device_by_index_def)+

end
