(* ===== verification/Sysfs.thy ===== *)
theory Sysfs
  imports Registry "HOL-Library.While_Combinator"
begin

text \<open>
  The entry points of \<open>hwe_sysfs.c\<close>: the \<open>sysfs\<close> attribute handlers of interfaces and devices,
  the functions \<open>hwe_*\<close> the \<open>ioctl\<close> interface calls, and the set-up and clean-up of the
  unit. Every handler takes the interface lock, runs its body and releases the lock.

  A device handler gets a pointer to its device from \<open>sysfs\<close>; the pointer is the interface and the
  index, and using it when no such device is in the list is an \<open>Oops\<close>. Log messages are
  left out. \<open>buf\<close> holds the \<open>cnt\<close> bytes written and ends with the NUL that \<open>sysfs\<close> adds.
\<close>

section \<open>Device handlers\<close>

definition dev_handler ::
  "HWE_IFACE \<Rightarrow> nat \<Rightarrow> ('d hwe_dev \<Rightarrow> 'r \<times> 'd hwe_dev) \<Rightarrow> ('d, 'w) sysfs \<Rightarrow> ('r \<times> ('d, 'w) sysfs) run" where
  "dev_handler i n f st =
     with_iface_lock i
       (\<lambda>st. case find_device_by_index i n st of
               None \<Rightarrow> Oops
             | Some dev \<Rightarrow> (case f dev of (r, dev') \<Rightarrow> Done (r, replace_dev i dev' st))) st"

definition dev_count_show ::
  "HWE_IFACE \<Rightarrow> nat \<Rightarrow> ('d, 'w) sysfs \<Rightarrow> (string \<times> ('d, 'w) sysfs) run" where
  "dev_count_show i n st =
     dev_handler i n (\<lambda>dev. (dec_str (bitmap_weight (pairs_indexes dev) HWE_MAX_PAIRS), dev)) st"

definition dev_add_store ::
  "klib \<Rightarrow> add_env \<Rightarrow> HWE_IFACE \<Rightarrow> nat \<Rightarrow> string \<Rightarrow> nat \<Rightarrow> ('d, 'w) sysfs \<Rightarrow> (int \<times> ('d, 'w) sysfs) run" where
  "dev_add_store K E i n buf cnt st =
     dev_handler i n (\<lambda>dev. dev_add_store_locked K E dev buf cnt) st"

definition dev_delete_store ::
  "klib \<Rightarrow> HWE_IFACE \<Rightarrow> nat \<Rightarrow> string \<Rightarrow> nat \<Rightarrow> ('d, 'w) sysfs \<Rightarrow> (int \<times> ('d, 'w) sysfs) run" where
  "dev_delete_store K i n buf cnt st =
     dev_handler i n (\<lambda>dev. dev_delete_store_locked K dev buf cnt) st"

definition dev_clear_store ::
  "HWE_IFACE \<Rightarrow> nat \<Rightarrow> nat \<Rightarrow> ('d, 'w) sysfs \<Rightarrow> (int \<times> ('d, 'w) sysfs) run" where
  "dev_clear_store i n cnt st =
     (if cnt = 0 then Done (- EIO, st)
      else dev_handler i n (\<lambda>dev. (int cnt, clear_pairs dev)) st)"

definition int_str :: "int \<Rightarrow> string" where
  "int_str i = (if i < 0 then CHR ''-'' # dec_str (nat (- i)) else dec_str (nat i))"

definition pair_show ::
  "klib \<Rightarrow> string \<Rightarrow> string \<Rightarrow> string \<Rightarrow> ('d, 'w) sysfs \<Rightarrow> (string \<times> ('d, 'w) sysfs) run" where
  "pair_show K iface_name dev_name fname st =
     (case kl_kstrtol K fname of
        None \<Rightarrow> Done (''ERROR: invalid index '' @ [CHR 0x27] @ fname @ [CHR 0x27] @ ''!'', st)
      | Some idx \<Rightarrow>
          (case str_to_iface iface_name of
             None \<Rightarrow> Done (''ERROR: invalid interface '' @ [CHR 0x27] @ iface_name @ [CHR 0x27] @ ''!'', st)
           | Some i \<Rightarrow>
               (case with_iface_lock i
                       (\<lambda>st. Done (case find_device i dev_name st of
                          None \<Rightarrow> ''ERROR: device '' @ [CHR 0x27] @ dev_name @ [CHR 0x27] @ '' not found!''
                        | Some dev \<Rightarrow> pair_show_locked dev idx, st)) st of
                  Done (ret, st) \<Rightarrow>
                    Done (if ret \<noteq> [] then ret
                          else ''ERROR: pair with index '' @ int_str idx @ '' not found!'', st)
                | Blocked \<Rightarrow> Blocked
                | Oops \<Rightarrow> Oops)))"

datatype dev_attr = DA_count | DA_add | DA_delete | DA_clear

fun dev_attr_show ::
  "dev_attr \<Rightarrow> HWE_IFACE \<Rightarrow> nat \<Rightarrow> ('d, 'w) sysfs \<Rightarrow> ((int + string) \<times> ('d, 'w) sysfs) run" where
  "dev_attr_show DA_count i n st =
     (case dev_count_show i n st of
        Done (text, st) \<Rightarrow> Done (Inr text, st) | Blocked \<Rightarrow> Blocked | Oops \<Rightarrow> Oops)"
| "dev_attr_show a i n st = Done (Inl (- EIO), st)"

fun dev_attr_store ::
  "klib \<Rightarrow> add_env \<Rightarrow> dev_attr \<Rightarrow> HWE_IFACE \<Rightarrow> nat \<Rightarrow> string \<Rightarrow> nat \<Rightarrow> ('d, 'w) sysfs \<Rightarrow>
     (int \<times> ('d, 'w) sysfs) run" where
  "dev_attr_store K E DA_add i n buf len st = dev_add_store K E i n buf len st"
| "dev_attr_store K E DA_delete i n buf len st = dev_delete_store K i n buf len st"
| "dev_attr_store K E DA_clear i n buf len st = dev_clear_store i n len st"
| "dev_attr_store K E DA_count i n buf len st = Done (- EIO, st)"

section \<open>Interface handlers\<close>

fun skip_spaces :: "string \<Rightarrow> string" where
  "skip_spaces [] = []"
| "skip_spaces (c # src) = (if isspace c then skip_spaces src else c # src)"

fun copy_chars :: "string \<Rightarrow> nat \<Rightarrow> string" where
  "copy_chars [] dst_len = []"
| "copy_chars (c # src) dst_len =
     (if dst_len > 1 \<and> c \<noteq> NUL \<and> \<not> isspace c \<and> isprint c
      then c # copy_chars src (dst_len - 1) else [])"

text \<open>The word copied; its length is the C function's result.\<close>

definition copy_word :: "string \<Rightarrow> nat \<Rightarrow> nat \<Rightarrow> string" where
  "copy_word src src_len dst_len =
     (let s = skip_spaces (take src_len src)
      in if s = [] \<or> dst_len < 1 then [] else copy_chars s dst_len)"

definition hwe_add_device ::
  "('d, 'w) hwe_dev_ops \<Rightarrow> new_env \<Rightarrow> HWE_IFACE \<Rightarrow> ('d, 'w) sysfs \<Rightarrow> (int \<times> ('d, 'w) sysfs) run" where
  "hwe_add_device ops E i st =
     with_iface_lock i
       (\<lambda>st. case new_dev ops E i st of
               (None, st) \<Rightarrow> Done (- ENODEV, st)
             | (Some dev, st) \<Rightarrow> Done (int (dev_index dev), st)) st"

definition iface_add_store ::
  "('d, 'w) hwe_dev_ops \<Rightarrow> new_env \<Rightarrow> HWE_IFACE \<Rightarrow> nat \<Rightarrow> ('d, 'w) sysfs \<Rightarrow> (int \<times> ('d, 'w) sysfs) run" where
  "iface_add_store ops E i cnt st =
     (if cnt = 0 then Done (- EIO, st)
      else
        (case str_to_iface (iface_to_str i) of
           None \<Rightarrow> Done (- EIO, st)
         | Some ifc \<Rightarrow>
             with_iface_lock ifc
               (\<lambda>st. case new_dev ops E ifc st of
                       (None, st) \<Rightarrow> Done (- EIO, st)
                     | (Some dev, st) \<Rightarrow> Done (int cnt, st)) st))"

definition iface_uninstall_store ::
  "('d, 'w) hwe_dev_ops \<Rightarrow> HWE_IFACE \<Rightarrow> string \<Rightarrow> nat \<Rightarrow> ('d, 'w) sysfs \<Rightarrow> (int \<times> ('d, 'w) sysfs) run" where
  "iface_uninstall_store ops i buf cnt st =
     (if cnt = 0 then Done (- EINVAL, st)
      else
        (case str_to_iface (iface_to_str i) of
           None \<Rightarrow> Done (- EINVAL, st)
         | Some ifc \<Rightarrow>
             let dev_name = copy_word buf cnt 16
             in if length dev_name = 0 then Done (- EINVAL, st)
                else
                  with_iface_lock ifc
                    (\<lambda>st. case find_device ifc dev_name st of
                            None \<Rightarrow> Done (- EINVAL, st)
                          | Some dev \<Rightarrow> Done (int cnt, shutdown_dev ops dev st)) st))"

definition hwe_delete_device ::
  "('d, 'w) hwe_dev_ops \<Rightarrow> HWE_IFACE \<Rightarrow> nat \<Rightarrow> ('d, 'w) sysfs \<Rightarrow> (int \<times> ('d, 'w) sysfs) run" where
  "hwe_delete_device ops i n st =
     with_iface_lock i
       (\<lambda>st. case find_device_by_index i n st of
               None \<Rightarrow> Done (- ENODEV, st)
             | Some dev \<Rightarrow> Done (0, shutdown_dev ops dev st)) st"

datatype iface_attr = IA_add | IA_uninstall

fun iface_attr_show :: "iface_attr \<Rightarrow> ('d, 'w) sysfs \<Rightarrow> (int \<times> ('d, 'w) sysfs) run" where
  "iface_attr_show a st = Done (- EIO, st)"

fun iface_attr_store ::
  "('d, 'w) hwe_dev_ops \<Rightarrow> new_env \<Rightarrow> iface_attr \<Rightarrow> HWE_IFACE \<Rightarrow> string \<Rightarrow> nat \<Rightarrow> ('d, 'w) sysfs \<Rightarrow>
     (int \<times> ('d, 'w) sysfs) run" where
  "iface_attr_store ops E IA_add i buf len st = iface_add_store ops E i len st"
| "iface_attr_store ops E IA_uninstall i buf len st = iface_uninstall_store ops i buf len st"

section \<open>Functions for the ioctl interface\<close>

definition hwe_get_pair_count ::
  "HWE_IFACE \<Rightarrow> nat \<Rightarrow> ('d, 'w) sysfs \<Rightarrow> (int \<times> ('d, 'w) sysfs) run" where
  "hwe_get_pair_count i n st =
     with_iface_lock i
       (\<lambda>st. Done (case find_device_by_index i n st of
          None \<Rightarrow> - ENODEV
        | Some dev \<Rightarrow> int (bitmap_weight (pairs_indexes dev) HWE_MAX_PAIRS), st)) st"

definition hwe_get_pair ::
  "int \<Rightarrow> HWE_IFACE \<Rightarrow> nat \<Rightarrow> int \<Rightarrow> ('d, 'w) sysfs \<Rightarrow> ((int + string) \<times> ('d, 'w) sysfs) run" where
  "hwe_get_pair stack i n pair_index st =
     with_iface_lock i
       (\<lambda>st. Done (case find_device_by_index i n st of
          None \<Rightarrow> Inl (- ENODEV)
        | Some dev \<Rightarrow> hwe_get_pair_locked stack dev pair_index, st)) st"

text \<open>
  \<open>hwe_add_pair\<close> has no \<open>else\<close> after the test for a missing device: it goes on with the null
  pointer, and dereferences it once memory and text are fine.
\<close>

definition hwe_add_pair ::
  "klib \<Rightarrow> add_env \<Rightarrow> HWE_IFACE \<Rightarrow> nat \<Rightarrow> string \<Rightarrow> ('d, 'w) sysfs \<Rightarrow> (int \<times> ('d, 'w) sysfs) run" where
  "hwe_add_pair K E i n pair_str st =
     with_iface_lock i
       (\<lambda>st. case find_device_by_index i n st of
               None \<Rightarrow>
                 (if \<not> kmalloc_ok E then Done (- ENOMEM, st)
                  else
                    (case str_to_pair K pair_str (length (c_string pair_str)) (raw_pair E) of
                       Inl err \<Rightarrow> Done (- EINVAL, st)
                     | Inr pair \<Rightarrow> Oops))
             | Some dev \<Rightarrow>
                 (case hwe_add_pair_locked K E dev pair_str of
                    (r, dev') \<Rightarrow> Done (r, replace_dev i dev' st))) st"

definition hwe_delete_pair ::
  "HWE_IFACE \<Rightarrow> nat \<Rightarrow> int \<Rightarrow> ('d, 'w) sysfs \<Rightarrow> (int \<times> ('d, 'w) sysfs) run" where
  "hwe_delete_pair i n pair_index st =
     with_iface_lock i
       (\<lambda>st. case find_device_by_index i n st of
               None \<Rightarrow> Done (- ENODEV, st)
             | Some dev \<Rightarrow>
                 (case hwe_delete_pair_locked dev pair_index of
                    (r, dev') \<Rightarrow> Done (r, replace_dev i dev' st))) st"

definition hwe_clear_pairs :: "HWE_IFACE \<Rightarrow> nat \<Rightarrow> ('d, 'w) sysfs \<Rightarrow> (int \<times> ('d, 'w) sysfs) run" where
  "hwe_clear_pairs i n st =
     with_iface_lock i
       (\<lambda>st. case find_device_by_index i n st of
               None \<Rightarrow> Done (- ENODEV, st)
             | Some dev \<Rightarrow> Done (0, replace_dev i (clear_pairs dev) st)) st"

section \<open>Set-up and clean-up\<close>

record init_env =
  kset_ok :: bool
  iface_add_err :: "HWE_IFACE \<Rightarrow> int"

definition init_iface :: "init_env \<Rightarrow> HWE_IFACE \<Rightarrow> ('d, 'w) sysfs \<Rightarrow> int \<times> ('d, 'w) sysfs" where
  "init_iface E i st =
     (let st = update_iface i (\<lambda>ifc. ifc\<lparr>dev_list := [], dev_indexes := bitmap_zero HWE_MAX_DEVICES, sem := 1\<rparr>) st;
          err = iface_add_err E i
      in (err, update_iface i (\<lambda>ifc. ifc\<lparr>kobj_live := err = 0\<rparr>) st))"

definition shutdown_devs ::
  "('d, 'w) hwe_dev_ops \<Rightarrow> HWE_IFACE \<Rightarrow> ('d, 'w) sysfs \<Rightarrow> ('d, 'w) sysfs" where
  "shutdown_devs ops i st =
     while (\<lambda>st. devs st i \<noteq> []) (\<lambda>st. shutdown_dev ops (hd (devs st i)) st) st"

definition cleanup_iface ::
  "('d, 'w) hwe_dev_ops \<Rightarrow> HWE_IFACE \<Rightarrow> ('d, 'w) sysfs \<Rightarrow> ('d, 'w) sysfs" where
  "cleanup_iface ops i st = update_iface i (\<lambda>ifc. ifc\<lparr>kobj_live := False\<rparr>) (shutdown_devs ops i st)"

fun init_ifaces ::
  "('d, 'w) hwe_dev_ops \<Rightarrow> init_env \<Rightarrow> HWE_IFACE list \<Rightarrow> HWE_IFACE list \<Rightarrow> ('d, 'w) sysfs \<Rightarrow>
     int \<times> ('d, 'w) sysfs" where
  "init_ifaces ops E installed [] st = (0, st)"
| "init_ifaces ops E installed (i # todo) st =
     (case init_iface E i st of
        (err, st) \<Rightarrow>
          if err \<noteq> 0 then (err, foldl (\<lambda>st i. cleanup_iface ops i st) st installed)
          else init_ifaces ops E (i # installed) todo st)"

definition hwe_init_sysfs ::
  "('d, 'w) hwe_dev_ops \<Rightarrow> init_env \<Rightarrow> ('d, 'w) sysfs \<Rightarrow> int \<times> ('d, 'w) sysfs" where
  "hwe_init_sysfs ops E st =
     (if \<not> kset_ok E then (- ENOMEM, st\<lparr>base_kset := False\<rparr>)
      else init_ifaces ops E [] all_ifaces (st\<lparr>base_kset := True\<rparr>))"

definition hwe_cleanup_sysfs ::
  "('d, 'w) hwe_dev_ops \<Rightarrow> ('d, 'w) sysfs \<Rightarrow> ('d, 'w) sysfs" where
  "hwe_cleanup_sysfs ops st =
     (foldl (\<lambda>st i. cleanup_iface ops i st) st (rev all_ifaces))\<lparr>base_kset := False\<rparr>"

section \<open>Operations on one device\<close>

text \<open>
  The contract of an operation on a locked device: under its precondition on the inputs it
  keeps the device consistent and does not change what identifies the device.
\<close>

locale dev_operation =
  fixes ok :: "'a \<Rightarrow> bool"
    and operation :: "'a \<Rightarrow> 'd hwe_dev \<Rightarrow> 'r \<times> 'd hwe_dev"
  assumes keeps_inv: "ok a \<Longrightarrow> dev_inv dev \<Longrightarrow> dev_inv (snd (operation a dev))"
    and keeps_index: "dev_index (snd (operation a dev)) = dev_index dev"
    and keeps_iface: "iface (snd (operation a dev)) = iface dev"
    and keeps_name: "kobj_name (snd (operation a dev)) = kobj_name dev"
    and keeps_device: "device (snd (operation a dev)) = device dev"
begin

lemma keeps_dev_ok: "ok a \<Longrightarrow> dev_ok i dev \<Longrightarrow> dev_ok i (snd (operation a dev))"
  by (simp add: dev_ok_def keeps_inv keeps_index keeps_iface keeps_name keeps_device)

lemma replace_keeps_all_inv:
  assumes "ok a" "all_inv st" "find_device_by_index i n st = Some dev"
  shows "all_inv (replace_dev i (snd (operation a dev)) st)"
    and "same_locks st (replace_dev i (snd (operation a dev)) st)"
proof -
  have inv: "iface_inv i (ifaces st i)" using assms(2) by (simp add: all_inv_def)
  have "dev_ok i dev"
    using assms(3) inv find_device_by_index_Some by (fastforce simp: iface_inv_def)
  then have "iface_inv i (ifaces (replace_dev i (snd (operation a dev)) st) i)"
    by (intro iface_inv_replace inv keeps_dev_ok assms(1))
  then have "iface_inv j (ifaces (replace_dev i (snd (operation a dev)) st) j)" for j
    using assms(2) by (cases "j = i") (simp_all add: all_inv_def)
  then show "all_inv (replace_dev i (snd (operation a dev)) st)"
    by (simp add: all_inv_def)
  have "sem (ifaces (replace_dev i (snd (operation a dev)) st) j) = sem (ifaces st j)" for j
    by (cases "j = i") simp_all
  then show "same_locks st (replace_dev i (snd (operation a dev)) st)"
    by (simp add: same_locks_def)
qed

text \<open>Run on an existing device, the operation returns, changes that device only and unlocks.\<close>

lemma handler_runs:
  assumes "sysfs_inv st" "ok a" "find_device_by_index i n st = Some dev"
  shows "\<exists>st'. dev_handler i n (operation a) st = Done (fst (operation a dev), st') \<and> sysfs_inv st' \<and>
    find_device_by_index i n st' = Some (snd (operation a dev)) \<and>
    (\<forall>m. m \<noteq> n \<longrightarrow> find_device_by_index i m st' = find_device_by_index i m st) \<and>
    (\<forall>j. j \<noteq> i \<longrightarrow> devs st' j = devs st j) \<and> drv st' = drv st"
proof -
  define dev' where "dev' = snd (operation a dev)"
  define st1 where "st1 = replace_dev i dev' (locked i st)"
  have found: "find_device_by_index i n (locked i st) = Some dev" using assms(3) by simp
  have inv: "all_inv (locked i st)" using assms(1) by (simp add: sysfs_inv_all_inv)
  note keeps = replace_keeps_all_inv [OF assms(2) inv found, folded dev'_def, folded st1_def]
  have n: "dev_index dev' = n"
    using assms(3) find_device_by_index_Some keeps_index dev'_def by fastforce
  have "dev_handler i n (operation a) st = Done (fst (operation a dev), unlock_iface_devs i st1)"
    unfolding dev_handler_def with_iface_lock_eq [OF assms(1)]
    by (simp add: assms(3) st1_def dev'_def split: prod.split)
  moreover have "sysfs_inv (unlock_iface_devs i st1)"
    by (rule unlock_inv [OF assms(1) keeps])
  moreover have "find_device_by_index i n (unlock_iface_devs i st1) = Some dev'"
    using find_replace_dev [OF found n] by (simp add: st1_def)
  moreover have "find_device_by_index i m (unlock_iface_devs i st1) = find_device_by_index i m st"
    if "m \<noteq> n" for m
    using find_replace_dev_other [of dev' m i "locked i st"] n that by (simp add: st1_def)
  moreover have "devs (unlock_iface_devs i st1) j = devs st j" if "j \<noteq> i" for j
    using that by (simp add: st1_def)
  moreover have "drv (unlock_iface_devs i st1) = drv st"
    by (simp add: st1_def)
  ultimately show ?thesis by (auto simp: dev'_def)
qed

end

text \<open>The operations of the code meet the contract.\<close>

lemma add_new_pair_frame [simp]:
  "iface (add_new_pair dev p) = iface dev" "dev_index (add_new_pair dev p) = dev_index dev"
  "kobj_name (add_new_pair dev p) = kobj_name dev" "device (add_new_pair dev p) = device dev"
  by (simp_all add: add_new_pair_def)

lemma dev_add_store_frame [simp]:
  "iface (snd (dev_add_store_locked K E dev buf n)) = iface dev"
  "dev_index (snd (dev_add_store_locked K E dev buf n)) = dev_index dev"
  "kobj_name (snd (dev_add_store_locked K E dev buf n)) = kobj_name dev"
  "device (snd (dev_add_store_locked K E dev buf n)) = device dev"
  by (simp_all add: dev_add_store_locked_def Let_def split: sum.split option.split)

lemma hwe_add_pair_frame [simp]:
  "iface (snd (hwe_add_pair_locked K E dev buf)) = iface dev"
  "dev_index (snd (hwe_add_pair_locked K E dev buf)) = dev_index dev"
  "kobj_name (snd (hwe_add_pair_locked K E dev buf)) = kobj_name dev"
  "device (snd (hwe_add_pair_locked K E dev buf)) = device dev"
  by (simp_all add: hwe_add_pair_same_device)

lemma dev_delete_store_frame [simp]:
  "iface (snd (dev_delete_store_locked K dev buf n)) = iface dev"
  "dev_index (snd (dev_delete_store_locked K dev buf n)) = dev_index dev"
  "kobj_name (snd (dev_delete_store_locked K dev buf n)) = kobj_name dev"
  "device (snd (dev_delete_store_locked K dev buf n)) = device dev"
  by (simp_all add: dev_delete_store_locked_def split: option.split)

lemma hwe_delete_pair_frame [simp]:
  "iface (snd (hwe_delete_pair_locked dev k)) = iface dev"
  "dev_index (snd (hwe_delete_pair_locked dev k)) = dev_index dev"
  "kobj_name (snd (hwe_delete_pair_locked dev k)) = kobj_name dev"
  "device (snd (hwe_delete_pair_locked dev k)) = device dev"
  by (simp_all add: hwe_delete_pair_locked_def split: option.split)

interpretation add_store_op: dev_operation "\<lambda>(K, E, buf, n). pair_buf_ok (raw_pair E)"
  "\<lambda>(K, E, buf, n) dev. dev_add_store_locked K E dev buf n"
  by unfold_locales (auto simp: dev_add_store_inv)

interpretation add_pair_op: dev_operation "\<lambda>(K, E, buf). pair_buf_ok (raw_pair E)"
  "\<lambda>(K, E, buf) dev. hwe_add_pair_locked K E dev buf"
  by unfold_locales (auto simp: hwe_add_pair_inv)

interpretation delete_store_op: dev_operation "\<lambda>(K, buf, n). True"
  "\<lambda>(K, buf, n) dev. dev_delete_store_locked K dev buf n"
  by unfold_locales (auto simp: dev_delete_store_inv)

interpretation delete_pair_op: dev_operation "\<lambda>k. True" "\<lambda>k dev. hwe_delete_pair_locked dev k"
  by unfold_locales (auto simp: hwe_delete_pair_inv)

interpretation clear_op: dev_operation "\<lambda>r. True" "\<lambda>r dev. (r, clear_pairs dev)"
  by unfold_locales (auto simp: dev_inv_clear)

interpretation count_op: dev_operation "\<lambda>u. True"
  "\<lambda>u dev. (dec_str (bitmap_weight (pairs_indexes dev) HWE_MAX_PAIRS), dev)"
  by unfold_locales auto

section \<open>Every entry point keeps the invariant\<close>

lemma unlock_locked [simp]: "sysfs_inv st \<Longrightarrow> unlock_iface_devs i (locked i st) = st"
  by (simp add: unlock_iface_devs_def locked_def sysfs_inv_def update_iface_same)

lemma dev_handler_missing:
  "sysfs_inv st \<Longrightarrow> find_device_by_index i n st = None \<Longrightarrow> dev_handler i n f st = Oops"
  unfolding dev_handler_def with_iface_lock_eq by simp

lemma with_lock_read_only:
  "sysfs_inv st \<Longrightarrow> with_iface_lock i (\<lambda>st. Done (g st, st)) st = Done (g (locked i st), st)"
  unfolding with_iface_lock_eq by simp

lemma hwe_delete_pair_eq:
  "sysfs_inv st \<Longrightarrow> hwe_delete_pair i n k st =
     (case find_device_by_index i n st of
        None \<Rightarrow> Done (- ENODEV, st)
      | Some dev \<Rightarrow> dev_handler i n (\<lambda>dev. hwe_delete_pair_locked dev k) st)"
  unfolding hwe_delete_pair_def dev_handler_def with_iface_lock_eq by (simp split: option.split)

lemma hwe_clear_pairs_eq:
  "sysfs_inv st \<Longrightarrow> hwe_clear_pairs i n st =
     (case find_device_by_index i n st of
        None \<Rightarrow> Done (- ENODEV, st)
      | Some dev \<Rightarrow> dev_handler i n (\<lambda>dev. (0, clear_pairs dev)) st)"
  unfolding hwe_clear_pairs_def dev_handler_def with_iface_lock_eq by (simp split: option.split)

lemma hwe_add_pair_eq:
  "sysfs_inv st \<Longrightarrow> hwe_add_pair K E i n str st =
     (case find_device_by_index i n st of
        None \<Rightarrow>
          (if \<not> kmalloc_ok E then Done (- ENOMEM, st)
           else (case str_to_pair K str (length (c_string str)) (raw_pair E) of
                   Inl err \<Rightarrow> Done (- EINVAL, st) | Inr pair \<Rightarrow> Oops))
      | Some dev \<Rightarrow> dev_handler i n (\<lambda>dev. hwe_add_pair_locked K E dev str) st)"
  unfolding hwe_add_pair_def dev_handler_def with_iface_lock_eq
  by (simp split: option.split sum.split)

text \<open>Handlers of one device, from the contract.\<close>

lemma dev_add_store_runs:
  assumes "sysfs_inv st" "pair_buf_ok (raw_pair E)" "find_device_by_index i n st = Some dev"
  shows "\<exists>st'. dev_add_store K E i n buf cnt st = Done (fst (dev_add_store_locked K E dev buf cnt), st') \<and>
    sysfs_inv st' \<and> find_device_by_index i n st' = Some (snd (dev_add_store_locked K E dev buf cnt)) \<and>
    (\<forall>m. m \<noteq> n \<longrightarrow> find_device_by_index i m st' = find_device_by_index i m st) \<and>
    (\<forall>j. j \<noteq> i \<longrightarrow> devs st' j = devs st j) \<and> drv st' = drv st"
  using add_store_op.handler_runs [OF assms(1) _ assms(3), of "(K, E, buf, cnt)"] assms(2)
  by (simp add: dev_add_store_def)

lemma dev_delete_store_runs:
  assumes "sysfs_inv st" "find_device_by_index i n st = Some dev"
  shows "\<exists>st'. dev_delete_store K i n buf cnt st = Done (fst (dev_delete_store_locked K dev buf cnt), st') \<and>
    sysfs_inv st' \<and> find_device_by_index i n st' = Some (snd (dev_delete_store_locked K dev buf cnt)) \<and>
    (\<forall>m. m \<noteq> n \<longrightarrow> find_device_by_index i m st' = find_device_by_index i m st) \<and>
    (\<forall>j. j \<noteq> i \<longrightarrow> devs st' j = devs st j) \<and> drv st' = drv st"
  using delete_store_op.handler_runs [OF assms(1) _ assms(2), of "(K, buf, cnt)"]
  by (simp add: dev_delete_store_def)

lemma hwe_add_pair_runs:
  assumes "sysfs_inv st" "pair_buf_ok (raw_pair E)" "find_device_by_index i n st = Some dev"
  shows "\<exists>st'. hwe_add_pair K E i n str st = Done (fst (hwe_add_pair_locked K E dev str), st') \<and>
    sysfs_inv st' \<and> find_device_by_index i n st' = Some (snd (hwe_add_pair_locked K E dev str)) \<and>
    (\<forall>m. m \<noteq> n \<longrightarrow> find_device_by_index i m st' = find_device_by_index i m st) \<and>
    (\<forall>j. j \<noteq> i \<longrightarrow> devs st' j = devs st j) \<and> drv st' = drv st"
  using add_pair_op.handler_runs [OF assms(1) _ assms(3), of "(K, E, str)"] assms
  by (simp add: hwe_add_pair_eq)

lemma dev_clear_store_runs:
  assumes "sysfs_inv st" "find_device_by_index i n st = Some dev" "cnt \<noteq> 0"
  shows "\<exists>st'. dev_clear_store i n cnt st = Done (int cnt, st') \<and> sysfs_inv st' \<and>
    find_device_by_index i n st' = Some (clear_pairs dev) \<and>
    (\<forall>m. m \<noteq> n \<longrightarrow> find_device_by_index i m st' = find_device_by_index i m st) \<and>
    (\<forall>j. j \<noteq> i \<longrightarrow> devs st' j = devs st j) \<and> drv st' = drv st"
  using clear_op.handler_runs [OF assms(1) _ assms(2), of "int cnt"] assms(3)
  by (simp add: dev_clear_store_def)

lemma hwe_delete_pair_runs:
  assumes "sysfs_inv st" "find_device_by_index i n st = Some dev"
  shows "\<exists>st'. hwe_delete_pair i n k st = Done (fst (hwe_delete_pair_locked dev k), st') \<and>
    sysfs_inv st' \<and> find_device_by_index i n st' = Some (snd (hwe_delete_pair_locked dev k)) \<and>
    (\<forall>m. m \<noteq> n \<longrightarrow> find_device_by_index i m st' = find_device_by_index i m st) \<and>
    (\<forall>j. j \<noteq> i \<longrightarrow> devs st' j = devs st j) \<and> drv st' = drv st"
  using delete_pair_op.handler_runs [OF assms(1) _ assms(2), of k] assms
  by (simp add: hwe_delete_pair_eq)

lemma hwe_clear_pairs_runs:
  assumes "sysfs_inv st" "find_device_by_index i n st = Some dev"
  shows "\<exists>st'. hwe_clear_pairs i n st = Done (0, st') \<and> sysfs_inv st' \<and>
    find_device_by_index i n st' = Some (clear_pairs dev) \<and>
    (\<forall>m. m \<noteq> n \<longrightarrow> find_device_by_index i m st' = find_device_by_index i m st) \<and>
    (\<forall>j. j \<noteq> i \<longrightarrow> devs st' j = devs st j) \<and> drv st' = drv st"
  using clear_op.handler_runs [OF assms(1) _ assms(2), of "0 :: int"] assms
  by (simp add: hwe_clear_pairs_eq)

lemma dev_count_show_eq:
  assumes "sysfs_inv st" "find_device_by_index i n st = Some dev"
  shows "\<exists>st'. dev_count_show i n st = Done (dec_str (length (pair_list dev)), st') \<and> sysfs_inv st' \<and>
    find_device_by_index i n st' = Some dev"
proof -
  have "dev \<in> set (devs st i)"
    using find_device_by_index_Some [OF assms(2)] by simp
  then have "dev_inv dev"
    using assms(1) by (simp add: sysfs_inv_def iface_inv_def dev_ok_def)
  then have "bitmap_weight (pairs_indexes dev) HWE_MAX_PAIRS = length (pair_list dev)"
    by (rule pair_ix_weight [OF dev_inv_indexed])
  then show ?thesis
    using count_op.handler_runs [OF assms(1) _ assms(2)] by (auto simp: dev_count_show_def)
qed

section \<open>Adding and removing devices\<close>

lemma all_inv_added:
  assumes "all_inv st" "dev_ok i dev" "dev_index dev = next_index i st" "next_index i st < HWE_MAX_DEVICES"
  shows "all_inv (added i dev st)"
proof -
  have "iface_inv j (ifaces (added i dev st) j)" for j
    using assms iface_inv_added [of i st dev] by (cases "j = i") (simp_all add: all_inv_def)
  then show ?thesis by (simp add: all_inv_def)
qed

lemma all_inv_removed:
  assumes "all_inv st" "dev \<in> set (devs st i)"
  shows "all_inv (removed i (dev_index dev) st)"
proof -
  have "iface_inv j (ifaces (removed i (dev_index dev) st) j)" for j
    using assms iface_inv_removed [of i st dev] by (cases "j = i") (simp_all add: all_inv_def)
  then show ?thesis by (simp add: all_inv_def)
qed

lemma same_locks_simps [simp]:
  "same_locks st st" "same_locks st (st'\<lparr>drv := w\<rparr>) = same_locks st st'"
  "same_locks st (added i dev st)" "same_locks st (removed i n st)"
  "same_locks (st\<lparr>drv := w\<rparr>) st' = same_locks st st'"
  by (auto simp: same_locks_def added_def removed_def update_iface_def)

lemma all_inv_drv [simp]: "all_inv (st\<lparr>drv := w\<rparr>) = all_inv st"
  by (simp add: all_inv_def)

lemma next_index_locked [simp]:
  "next_index i (locked j st) = next_index i st" "next_index i (st\<lparr>drv := w\<rparr>) = next_index i st"
  by (simp_all add: next_index_def)

lemma new_dev_inv:
  assumes "all_inv st" "new_dev ops E i st = (r, st')"
  shows "all_inv st' \<and> same_locks st st'"
proof -
  have inv: "iface_inv i (ifaces st i)" using assms(1) by (simp add: all_inv_def)
  show ?thesis
    using assms new_dev_eq [OF inv, of ops E]
      all_inv_added [OF _ dev_ok_made, of "st\<lparr>drv := w\<rparr>" i "next_index i st" d for w d]
      next_index_less [OF inv]
    by (auto simp: Let_def split: if_splits prod.splits option.splits)
qed

definition device_created ::
  "('d, 'w) hwe_dev_ops \<Rightarrow> new_env \<Rightarrow> HWE_IFACE \<Rightarrow> ('d, 'w) sysfs \<Rightarrow> bool" where
  "device_created ops E i st \<longleftrightarrow>
     length (devs st i) < HWE_MAX_DEVICES \<and> kzalloc_ok E \<and>
     fst (create ops i (next_index i st) (drv st)) \<noteq> None \<and> kobject_add_err E = 0 \<and> pairs_kobj_ok E"

lemma next_index_room:
  assumes "iface_inv i (ifaces st i)"
  shows "next_index i st \<noteq> HWE_MAX_DEVICES \<longleftrightarrow> length (devs st i) < HWE_MAX_DEVICES"
  using next_index_full [OF assms] dev_ix.indexed_length_le [OF iface_inv_indexed [OF assms]] by linarith

lemma new_dev_created:
  assumes "iface_inv i (ifaces st i)" "device_created ops E i st"
  shows "\<exists>d w. create ops i (next_index i st) (drv st) = (Some d, w) \<and>
    new_dev ops E i st = (Some (made_dev i (next_index i st) d),
      added i (made_dev i (next_index i st) d) (st\<lparr>drv := w\<rparr>))"
proof -
  from assms(2) obtain d w where "create ops i (next_index i st) (drv st) = (Some d, w)"
    by (cases "create ops i (next_index i st) (drv st)") (auto simp: device_created_def)
  then show ?thesis
    using assms new_dev_eq [OF assms(1), of ops E] next_index_room [OF assms(1)]
    by (simp add: device_created_def Let_def)
qed

lemma new_dev_not_created:
  assumes "iface_inv i (ifaces st i)" "\<not> device_created ops E i st"
  shows "\<exists>w. new_dev ops E i st = (None, st\<lparr>drv := w\<rparr>)"
proof -
  have "\<exists>w. st = st\<lparr>drv := w\<rparr>" by (rule exI [of _ "drv st"]) simp
  then show ?thesis
    using assms new_dev_eq [OF assms(1), of ops E] next_index_room [OF assms(1)]
    by (auto simp: device_created_def Let_def split: if_splits prod.splits option.splits)
qed

lemma hwe_add_device_eq:
  assumes "sysfs_inv st"
  shows "hwe_add_device ops E i st =
    (case new_dev ops E i (locked i st) of
       (None, st') \<Rightarrow> Done (- ENODEV, unlock_iface_devs i st')
     | (Some dev, st') \<Rightarrow> Done (int (dev_index dev), unlock_iface_devs i st'))"
  unfolding hwe_add_device_def with_iface_lock_eq [OF assms] by (simp split: prod.split option.split)

lemma hwe_add_device_inv:
  assumes "sysfs_inv st"
  shows "\<exists>r st'. hwe_add_device ops E i st = Done (r, st') \<and> sysfs_inv st'"
proof -
  obtain r st' where n: "new_dev ops E i (locked i st) = (r, st')"
    by (cases "new_dev ops E i (locked i st)")
  have "sysfs_inv (unlock_iface_devs i st')"
    using new_dev_inv [OF _ n] assms unlock_inv [OF assms] by (simp add: sysfs_inv_all_inv)
  then show ?thesis
    using n by (cases r) (simp_all add: hwe_add_device_eq [OF assms])
qed

lemma iface_add_store_eq:
  assumes "sysfs_inv st" "cnt \<noteq> 0"
  shows "iface_add_store ops E i cnt st =
    (case new_dev ops E i (locked i st) of
       (None, st') \<Rightarrow> Done (- EIO, unlock_iface_devs i st')
     | (Some dev, st') \<Rightarrow> Done (int cnt, unlock_iface_devs i st'))"
  unfolding iface_add_store_def str_to_iface_to_str option.case with_iface_lock_eq [OF assms(1)]
  using assms(2) by (simp split: prod.split option.split)

lemma iface_add_store_inv:
  assumes "sysfs_inv st"
  shows "\<exists>r st'. iface_add_store ops E i cnt st = Done (r, st') \<and> sysfs_inv st'"
proof (cases "cnt = 0")
  case True
  then show ?thesis using assms by (simp add: iface_add_store_def)
next
  case False
  obtain r st' where n: "new_dev ops E i (locked i st) = (r, st')"
    by (cases "new_dev ops E i (locked i st)")
  have "sysfs_inv (unlock_iface_devs i st')"
    using new_dev_inv [OF _ n] assms unlock_inv [OF assms] by (simp add: sysfs_inv_all_inv)
  then show ?thesis
    using n by (cases r) (simp_all add: iface_add_store_eq [OF assms False])
qed

lemma shutdown_dev_inv:
  assumes "all_inv st" "dev \<in> set (devs st i)"
  shows "all_inv (shutdown_dev ops dev st) \<and> same_locks st (shutdown_dev ops dev st)"
proof -
  have "dev_ok i dev" using assms by (simp add: all_inv_def iface_inv_def)
  then obtain d where "iface dev = i" "device dev = Some d" by (auto simp: dev_ok_def)
  then show ?thesis
    using all_inv_removed [OF assms] by (simp add: shutdown_dev_eq)
qed

lemma hwe_delete_device_inv:
  assumes "sysfs_inv st"
  shows "\<exists>r st'. hwe_delete_device ops i n st = Done (r, st') \<and> sysfs_inv st'"
proof (cases "find_device_by_index i n st")
  case None
  then show ?thesis
    unfolding hwe_delete_device_def with_iface_lock_eq [OF assms] using assms by simp
next
  case (Some dev)
  then have "dev \<in> set (devs (locked i st) i)" using find_device_by_index_Some by fastforce
  then have "sysfs_inv (unlock_iface_devs i (shutdown_dev ops dev (locked i st)))"
    using shutdown_dev_inv [of "locked i st" dev i ops] assms unlock_inv [OF assms] by (simp add: sysfs_inv_all_inv)
  with Some show ?thesis
    unfolding hwe_delete_device_def with_iface_lock_eq [OF assms] by simp
qed

lemma iface_uninstall_store_inv:
  assumes "sysfs_inv st"
  shows "\<exists>r st'. iface_uninstall_store ops i buf cnt st = Done (r, st') \<and> sysfs_inv st'"
proof (cases "cnt = 0 \<or> copy_word buf cnt 16 = []")
  case True
  then show ?thesis using assms by (auto simp: iface_uninstall_store_def Let_def)
next
  case False
  then have eq: "iface_uninstall_store ops i buf cnt st =
      (case find_device i (copy_word buf cnt 16) st of
         None \<Rightarrow> Done (- EINVAL, st)
       | Some dev \<Rightarrow> Done (int cnt, unlock_iface_devs i (shutdown_dev ops dev (locked i st))))"
    unfolding iface_uninstall_store_def str_to_iface_to_str option.case with_iface_lock_eq [OF assms]
    using assms by (simp add: Let_def split: option.split)
  show ?thesis
  proof (cases "find_device i (copy_word buf cnt 16) st")
    case None
    then show ?thesis using assms eq by simp
  next
    case (Some dev)
    then have "dev \<in> set (devs (locked i st) i)" using find_device_Some by fastforce
    then have "sysfs_inv (unlock_iface_devs i (shutdown_dev ops dev (locked i st)))"
      using shutdown_dev_inv [of "locked i st" dev i ops] assms unlock_inv [OF assms] by (simp add: sysfs_inv_all_inv)
    with Some eq show ?thesis by simp
  qed
qed

section \<open>Set-up and clean-up\<close>

lemma devs_index_distinct: "all_inv st \<Longrightarrow> distinct (map dev_index (devs st i))"
  by (simp add: all_inv_def iface_inv_def)

text \<open>
  The loop of \<open>cleanup_iface\<close> ends: each round removes the first device of the list and no
  other. It leaves the interface without devices, and each driver's \<open>destroy\<close> has been called
  once per device, in the order of the list.
\<close>

lemma shutdown_devs_terminates:
  assumes "all_inv st"
  shows "\<exists>st'. while_option (\<lambda>st. devs st i \<noteq> []) (\<lambda>st. shutdown_dev ops (hd (devs st i)) st) st = Some st' \<and>
    devs st' i = [] \<and> all_inv st' \<and> same_locks st st' \<and> (\<forall>j. j \<noteq> i \<longrightarrow> ifaces st' j = ifaces st j) \<and>
    base_kset st' = base_kset st \<and>
    drv st' = fold (\<lambda>dev. destroy ops i (the (device dev))) (devs st i) (drv st)"
  using assms
proof (induction "devs st i" arbitrary: st)
  case Nil
  then show ?case by (subst while_option_unfold) simp
next
  case (Cons dev ds)
  have mem: "dev \<in> set (devs st i)" by (simp flip: Cons.hyps(2))
  define st1 where "st1 = shutdown_dev ops dev st"
  have ok: "dev_ok i dev" using Cons.prems mem by (simp add: all_inv_def iface_inv_def)
  then obtain d where d: "iface dev = i" "device dev = Some d" by (auto simp: dev_ok_def)
  have eq: "st1 = (removed i (dev_index dev) st)\<lparr>drv := destroy ops i d (drv st)\<rparr>"
    unfolding st1_def by (rule shutdown_dev_eq [OF d])
  have "dev_index dev \<notin> dev_index ` set ds"
    using devs_index_distinct [OF Cons.prems, of i] by (simp flip: Cons.hyps(2))
  then have ds: "devs st1 i = ds"
    by (simp add: eq filter_other flip: Cons.hyps(2))
  have inv1: "all_inv st1" "same_locks st st1"
    using shutdown_dev_inv [OF Cons.prems mem, of ops] by (simp_all add: st1_def)
  obtain st' where st': "while_option (\<lambda>st. devs st i \<noteq> []) (\<lambda>st. shutdown_dev ops (hd (devs st i)) st) st1 = Some st'"
    and rest: "devs st' i = []" "all_inv st'" "same_locks st1 st'" "\<forall>j. j \<noteq> i \<longrightarrow> ifaces st' j = ifaces st1 j"
      "base_kset st' = base_kset st1"
      "drv st' = fold (\<lambda>dev. destroy ops i (the (device dev))) ds (drv st1)"
    using Cons.hyps(1) [OF ds [symmetric] inv1(1)] ds by auto
  have step: "while_option (\<lambda>st. devs st i \<noteq> []) (\<lambda>st. shutdown_dev ops (hd (devs st i)) st) st = Some st'"
    using st' by (subst while_option_unfold) (simp add: st1_def flip: Cons.hyps(2))
  have "same_locks st st'" using inv1(2) rest(3) by (simp add: same_locks_def)
  moreover have "drv st' = fold (\<lambda>dev. destroy ops i (the (device dev))) (devs st i) (drv st)"
    using rest(6) d by (simp add: eq flip: Cons.hyps(2))
  moreover have "base_kset st' = base_kset st" using rest(5) by (simp add: eq removed_def)
  moreover have "\<forall>j. j \<noteq> i \<longrightarrow> ifaces st' j = ifaces st j" using rest(4) by (simp add: eq)
  ultimately show ?case using step rest(1,2) by blast
qed

lemma shutdown_devs_result:
  assumes "all_inv st"
  shows "devs (shutdown_devs ops i st) i = []" "all_inv (shutdown_devs ops i st)"
    "same_locks st (shutdown_devs ops i st)" "j \<noteq> i \<Longrightarrow> ifaces (shutdown_devs ops i st) j = ifaces st j"
    "base_kset (shutdown_devs ops i st) = base_kset st"
    "drv (shutdown_devs ops i st) = fold (\<lambda>dev. destroy ops i (the (device dev))) (devs st i) (drv st)"
  using shutdown_devs_terminates [where i = i and ops = ops, OF assms] by (auto simp: shutdown_devs_def while_def)

lemma all_inv_kobj [simp]: "all_inv (update_iface i (\<lambda>ifc. ifc\<lparr>kobj_live := b\<rparr>) st) = all_inv st"
proof -
  have "iface_inv j (ifaces (update_iface i (\<lambda>ifc. ifc\<lparr>kobj_live := b\<rparr>) st) j) = iface_inv j (ifaces st j)" for j
    by (cases "j = i") simp_all
  then show ?thesis by (simp add: all_inv_def)
qed

lemma cleanup_iface_result:
  assumes "all_inv st"
  shows "devs (cleanup_iface ops i st) i = []" "\<not> kobj_live (ifaces (cleanup_iface ops i st) i)"
    "all_inv (cleanup_iface ops i st)"
    "j \<noteq> i \<Longrightarrow> ifaces (cleanup_iface ops i st) j = ifaces st j"
    "base_kset (cleanup_iface ops i st) = base_kset st"
    "drv (cleanup_iface ops i st) = fold (\<lambda>dev. destroy ops i (the (device dev))) (devs st i) (drv st)"
  using shutdown_devs_result [where i = i and ops = ops, OF assms] by (simp_all add: cleanup_iface_def)

end
