(* ===== verification/Sysfs_Correct.thy ===== *)
theory Sysfs_Correct
  imports Sysfs
begin

text \<open>
  What the entry points of \<open>hwe_sysfs.c\<close> promise, stated over the abstract state: every existing
  device is a pair of a map from requests to responses and a multiset of periodic packets
  (\<open>abs_state\<close>). Each operation is shown to change exactly the named device, in exactly the way
  the abstract operation says, and to report an error exactly when it changes nothing.

  \<open>pair_buf_ok\<close> says that the memory \<open>kmalloc\<close> returns has the size of the struct, and
  \<open>create_file_err E \<le> 0\<close> that \<open>sysfs_create_file\<close> returns 0 or a negative error number.
\<close>

section \<open>The abstract state\<close>

type_synonym abs_dev = "(byte list \<Rightarrow> byte list option) \<times> (nat \<times> byte list) multiset"

definition abs_dev :: "'d hwe_dev \<Rightarrow> abs_dev" where
  "abs_dev dev = (replies dev, timers dev)"

definition abs_state :: "('d, 'w) sysfs \<Rightarrow> HWE_IFACE \<Rightarrow> nat \<Rightarrow> abs_dev option" where
  "abs_state st i n = map_option abs_dev (find_device_by_index i n st)"

definition abs_update ::
  "HWE_IFACE \<Rightarrow> nat \<Rightarrow> abs_dev option \<Rightarrow> (HWE_IFACE \<Rightarrow> nat \<Rightarrow> abs_dev option) \<Rightarrow>
     HWE_IFACE \<Rightarrow> nat \<Rightarrow> abs_dev option" where
  "abs_update i n v A = A(i := (A i)(n := v))"

lemma abs_update_same: "A i n = v \<Longrightarrow> abs_update i n v A = A"
  by (simp add: abs_update_def fun_upd_idem)

lemma abs_state_changed:
  assumes "find_device_by_index i n st' = Some dev'"
    "\<forall>m. m \<noteq> n \<longrightarrow> find_device_by_index i m st' = find_device_by_index i m st"
    "\<forall>j. j \<noteq> i \<longrightarrow> devs st' j = devs st j"
  shows "abs_state st' = abs_update i n (Some (abs_dev dev')) (abs_state st)"
proof (intro ext)
  fix j m
  have "find_device_by_index j m st' = find_device_by_index j m st" if "j \<noteq> i"
    using assms(3) that by (simp add: find_device_by_index_def)
  then show "abs_state st' j m = abs_update i n (Some (abs_dev dev')) (abs_state st) j m"
    using assms(1,2) by (auto simp: abs_state_def abs_update_def)
qed

lemma sysfs_inv_dev: "sysfs_inv st \<Longrightarrow> find_device_by_index i n st = Some dev \<Longrightarrow> dev_inv dev \<and> dev_ok i dev"
  using find_device_by_index_Some [of i n st dev] by (auto simp: sysfs_inv_def iface_inv_def dev_ok_def)

section \<open>Sample states\<close>

definition empty_iface :: "'d hwe_iface" where
  "empty_iface =
     \<lparr>dev_list = [], dev_indexes = bitmap_zero HWE_MAX_DEVICES, sem = 1, kobj_live = True\<rparr>"

definition empty_sysfs :: "'w \<Rightarrow> ('d, 'w) sysfs" where
  "empty_sysfs w = \<lparr>ifaces = (\<lambda>i. empty_iface), drv = w, base_kset = True\<rparr>"

definition sample_dev :: "unit hwe_dev" where
  "sample_dev = add_new_pair (made_dev HWE_TTY 0 ()) (numbered sample_pair 0)"

definition sample_state :: "(unit, unit) sysfs" where
  "sample_state = added HWE_TTY sample_dev (empty_sysfs ())"

definition sample_env :: add_env where
  "sample_env = \<lparr>kmalloc_ok = True, raw_pair = sample_pair, create_file_err = 0\<rparr>"

lemma sample_env_ok: "pair_buf_ok (raw_pair sample_env)" "create_file_err sample_env = 0"
  "kmalloc_ok sample_env"
  by (simp_all add: sample_env_def sample_pair_wf)

lemma empty_sysfs_inv: "sysfs_inv (empty_sysfs w)"
  by (simp add: sysfs_inv_def empty_sysfs_def empty_iface_def iface_inv_def)

lemma first_zero_of_zero [simp]: "0 < n \<Longrightarrow> find_first_zero_bit (bitmap_zero n) n = 0"
  by (cases n) (simp_all add: find_first_zero_bit_def bitmap_zero_def)

lemma next_index_empty: "next_index i (empty_sysfs w) = 0"
  by (simp add: next_index_def empty_sysfs_def empty_iface_def hwe_consts)

lemma one_pair_dev_ok:
  assumes "wf_pair p" "\<not> view_taken (view p) (made_dev i 0 d)"
  shows "dev_ok i (add_new_pair (made_dev i 0 d) (numbered p 0))"
    "dev_index (add_new_pair (made_dev i 0 d) (numbered p 0)) = 0"
proof -
  have d: "dev_ok i (made_dev i 0 d)" by (rule dev_ok_made)
  moreover have "0 = find_first_zero_bit (pairs_indexes (made_dev i 0 d)) HWE_MAX_PAIRS"
    by (simp add: made_dev_def fresh_dev_def hwe_consts)
  ultimately have "dev_inv (add_new_pair (made_dev i 0 d) (numbered p 0))"
    using assms by (intro dev_inv_add) (simp_all add: dev_ok_def hwe_consts)
  then show "dev_ok i (add_new_pair (made_dev i 0 d) (numbered p 0))" using d by (simp add: dev_ok_def)
  show "dev_index (add_new_pair (made_dev i 0 d) (numbered p 0)) = 0" by simp
qed

lemma one_dev_state_inv:
  assumes "dev_ok i dev" "dev_index dev = 0"
  shows "sysfs_inv (added i dev (empty_sysfs w))"
proof -
  have "all_inv (added i dev (empty_sysfs w))"
    using assms by (intro all_inv_added)
      (simp_all add: next_index_empty sysfs_inv_all_inv empty_sysfs_inv hwe_consts)
  moreover have "sem (ifaces (added i dev (empty_sysfs w)) j) = 1" for j
    by (cases "j = i") (simp_all add: empty_sysfs_def empty_iface_def)
  ultimately show ?thesis by (simp add: sysfs_inv_def all_inv_def)
qed

lemma sample_dev_ok: "dev_ok HWE_TTY sample_dev" "dev_index sample_dev = 0"
proof -
  have "\<not> view_taken (view sample_pair) (made_dev HWE_TTY 0 ())"
    by (simp add: view_def sample_pair_wf replies_def)
  then show "dev_ok HWE_TTY sample_dev" "dev_index sample_dev = 0"
    using one_pair_dev_ok [OF sample_pair_wf(1)] by (simp_all add: sample_dev_def)
qed

lemma sample_state_inv: "sysfs_inv sample_state"
  unfolding sample_state_def by (rule one_dev_state_inv [OF sample_dev_ok])

lemma sample_state_dev: "find_device_by_index HWE_TTY 0 sample_state = Some sample_dev"
  by (simp add: sample_state_def find_device_by_index_def sample_dev_ok)

lemma sample_dev_pairs: "pair_list sample_dev = [numbered sample_pair 0]"
  by (simp add: sample_dev_def add_new_pair_def)

lemmas sample_facts = sample_env_ok sample_state_inv sample_state_dev

section \<open>Adding pairs\<close>

definition add_effect :: "klib \<Rightarrow> add_env \<Rightarrow> 'd hwe_dev \<Rightarrow> string \<Rightarrow> nat \<Rightarrow> abs_dev" where
  "add_effect K E dev buf n =
     (case str_to_pair K buf n (raw_pair E) of
        Inl err \<Rightarrow> abs_dev dev
      | Inr q \<Rightarrow> if add_accepted K E dev buf n q then add_view (view q) (abs_dev dev) else abs_dev dev)"

lemma add_locked_effect:
  assumes "dev_inv dev" "pair_buf_ok (raw_pair E)" "create_file_err E \<le> 0"
  shows "abs_dev (snd (dev_add_store_locked K E dev buf n)) = add_effect K E dev buf n"
    and "fst (dev_add_store_locked K E dev buf n) = int n \<and> (\<exists>q. add_accepted K E dev buf n q) \<or>
      fst (dev_add_store_locked K E dev buf n) < 0 \<and> (\<nexists>q. add_accepted K E dev buf n q)"
proof -
  show "abs_dev (snd (dev_add_store_locked K E dev buf n)) = add_effect K E dev buf n"
  proof (cases "\<exists>q. add_accepted K E dev buf n q")
    case True
    then obtain q where q: "add_accepted K E dev buf n q" by blast
    then have "\<not> view_taken (view q) dev" "str_to_pair K buf n (raw_pair E) = Inr q"
      by (simp_all add: add_accepted_def)
    with q show ?thesis
      using dev_add_store_accepted [OF assms(1,2) q]
        add_refines [of "numbered q (find_first_zero_bit (pairs_indexes dev) HWE_MAX_PAIRS)" dev]
      by (simp add: add_effect_def abs_dev_def)
  next
    case False
    then show ?thesis
      using dev_add_store_rejected [OF assms(1,2) False assms(3)]
      by (auto simp: add_effect_def split: sum.split)
  qed
  show "fst (dev_add_store_locked K E dev buf n) = int n \<and> (\<exists>q. add_accepted K E dev buf n q) \<or>
      fst (dev_add_store_locked K E dev buf n) < 0 \<and> (\<nexists>q. add_accepted K E dev buf n q)"
    using dev_add_store_accepted [OF assms(1,2), where n = n] dev_add_store_rejected [OF assms(1,2) _ assms(3), where n = n]
    by (cases "\<exists>q. add_accepted K E dev buf n q") fastforce+
qed

text \<open>C17: writing a pair's text to a device's \<open>add\<close> file refines insertion into the abstract
  device. The handler returns and leaves a consistent, unlocked state. It reports the count
  exactly when the text parses to a pair whose request is new, the device has fewer than 1000
  pairs and the kernel's allocations succeed; then the request maps to the response (or the
  periodic packet is added). Otherwise it reports an error and changes nothing. No other
  device changes in either case.\<close>

theorem dev_add_store_refines:
  assumes "sysfs_inv st" "find_device_by_index i n st = Some dev" "pair_buf_ok (raw_pair E)"
    "create_file_err E \<le> 0"
  shows "\<exists>r st'. dev_add_store K E i n buf cnt st = Done (r, st') \<and> sysfs_inv st' \<and>
    abs_state st' = abs_update i n (Some (add_effect K E dev buf cnt)) (abs_state st) \<and>
    (r = int cnt \<and> (\<exists>q. add_accepted K E dev buf cnt q) \<or>
     r < 0 \<and> (\<nexists>q. add_accepted K E dev buf cnt q) \<and> abs_state st' = abs_state st)"
proof -
  have inv: "dev_inv dev" using sysfs_inv_dev [OF assms(1,2)] by simp
  note effect = add_locked_effect [OF inv assms(3,4), of K buf cnt]
  obtain st' where st': "dev_add_store K E i n buf cnt st = Done (fst (dev_add_store_locked K E dev buf cnt), st')"
    "sysfs_inv st'" "find_device_by_index i n st' = Some (snd (dev_add_store_locked K E dev buf cnt))"
    "\<forall>m. m \<noteq> n \<longrightarrow> find_device_by_index i m st' = find_device_by_index i m st"
    "\<forall>j. j \<noteq> i \<longrightarrow> devs st' j = devs st j"
    using dev_add_store_runs [OF assms(1,3,2), of K buf cnt] by auto
  have abs: "abs_state st' = abs_update i n (Some (add_effect K E dev buf cnt)) (abs_state st)"
    using abs_state_changed [OF st'(3-5)] effect(1) by simp
  moreover have "abs_state st' = abs_state st" if "\<nexists>q. add_accepted K E dev buf cnt q"
    unfolding abs using that assms(2)
    by (intro abs_update_same) (auto simp: abs_state_def add_effect_def split: sum.split)
  ultimately show ?thesis using st'(1,2) effect(2) by blast
qed

theorem dev_add_store_refines_witness:
  "\<exists>r st'. dev_add_store sample_klib sample_env HWE_TTY 0 ''01=02'' 5 sample_state = Done (r, st') \<and> sysfs_inv st' \<and>
    abs_state st' = abs_update HWE_TTY 0 (Some (add_effect sample_klib sample_env sample_dev ''01=02'' 5)) (abs_state sample_state) \<and>
    (r = int 5 \<and> (\<exists>q. add_accepted sample_klib sample_env sample_dev ''01=02'' 5 q) \<or>
     r < 0 \<and> (\<nexists>q. add_accepted sample_klib sample_env sample_dev ''01=02'' 5 q) \<and> abs_state st' = abs_state sample_state)"
  by (rule dev_add_store_refines [OF sample_state_inv sample_state_dev]) (simp_all add: sample_env_ok)

text \<open>The ioctl function \<open>hwe_add_pair\<close>, a copy of \<open>dev_add_store\<close>, has the same effect on an
  existing device: for every text and every answer of the kernel both leave the same state, and
  both succeed or both fail. On success \<open>hwe_add_pair\<close> returns the least free pair index.\<close>

lemma hwe_add_pair_same_as_store:
  assumes "sysfs_inv st" "find_device_by_index i n st = Some dev" "pair_buf_ok (raw_pair E)"
    "create_file_err E \<le> 0"
  shows "\<exists>r r' st'. hwe_add_pair K E i n str st = Done (r, st') \<and>
    dev_add_store K E i n str (length (c_string str)) st = Done (r', st') \<and> (r < 0 \<longleftrightarrow> r' < 0) \<and>
    (0 \<le> r \<longrightarrow> r = int (find_first_zero_bit (pairs_indexes dev) HWE_MAX_PAIRS))"
proof -
  have inv: "dev_inv dev" using sysfs_inv_dev [OF assms(1,2)] by simp
  define cnt where "cnt = length (c_string str)"
  have found: "find_device_by_index i n (locked i st) = Some dev" using assms(2) by simp
  have "fst (hwe_add_pair_locked K E dev str) < 0 \<longleftrightarrow> fst (dev_add_store_locked K E dev str cnt) < 0"
    "0 \<le> fst (hwe_add_pair_locked K E dev str) \<longrightarrow>
      fst (hwe_add_pair_locked K E dev str) = int (find_first_zero_bit (pairs_indexes dev) HWE_MAX_PAIRS)"
    using hwe_add_pair_accepted [OF inv assms(3), of K str] dev_add_store_accepted [OF inv assms(3), of K str cnt]
      hwe_add_pair_rejected [OF inv assms(3) _ assms(4), of K str]
      dev_add_store_rejected [OF inv assms(3) _ assms(4), of K str cnt]
    unfolding cnt_def by (cases "\<exists>q. add_accepted K E dev str (length (c_string str)) q"; fastforce)+
  moreover have "hwe_add_pair K E i n str st =
      Done (fst (hwe_add_pair_locked K E dev str), unlock_iface_devs i (replace_dev i (snd (hwe_add_pair_locked K E dev str)) (locked i st)))"
    "dev_add_store K E i n str cnt st =
      Done (fst (dev_add_store_locked K E dev str cnt), unlock_iface_devs i (replace_dev i (snd (dev_add_store_locked K E dev str cnt)) (locked i st)))"
    unfolding hwe_add_pair_def dev_add_store_def dev_handler_def with_iface_lock_eq [OF assms(1)] found
    by (simp_all split: prod.split)
  ultimately show ?thesis
    unfolding cnt_def hwe_add_pair_same_device by blast
qed

section \<open>Lookups and deletions\<close>

lemma find_response_is_the_map_facts:
  assumes "sysfs_inv st" "find_device_by_index i n st = Some dev" "sz \<le> length request"
  shows "map_option resp_bytes (find_response dev request sz) = fst (the (abs_state st i n)) (take sz request)"
    and "find_response dev request sz = Some p \<Longrightarrow> \<not> async_rx p \<and> req_bytes p = take sz request"
proof -
  have inv: "dev_inv dev" using sysfs_inv_dev [OF assms(1,2)] by simp
  then show "map_option resp_bytes (find_response dev request sz) = fst (the (abs_state st i n)) (take sz request)"
    using assms(2,3) by (simp add: abs_state_def abs_dev_def find_response_replies)
  show "\<not> async_rx p \<and> req_bytes p = take sz request" if "find_response dev request sz = Some p"
    using that assms(3) inv dev_inv_wf [OF inv]
    by (simp add: find_response_def find_pair_eq_find find_Some_iff matches_def) blast
qed

text \<open>C18: the drivers' lookup \<open>find_response\<close> computes the abstract map. Whatever memory the request
  sits in, it finds a pair exactly when the map knows the request's bytes, and the pair's
  response is the map's answer. Timers are never found.\<close>

theorem find_response_is_the_map:
  assumes "sysfs_inv st" "find_device_by_index i n st = Some dev" "sz \<le> length request"
  shows "map_option resp_bytes (find_response dev request sz) = fst (the (abs_state st i n)) (take sz request) \<and>
    (\<forall>p. find_response dev request sz = Some p \<longrightarrow> \<not> async_rx p \<and> req_bytes p = take sz request)"
  using find_response_is_the_map_facts [OF assms] by blast

theorem find_response_is_the_map_witness:
  "map_option resp_bytes (find_response sample_dev [1, 0xAB, 0] 2) =
     fst (the (abs_state sample_state HWE_TTY 0)) (take 2 [1, 0xAB, 0])"
  using find_response_is_the_map [OF sample_state_inv sample_state_dev, of 2 "[1, 0xAB, 0]"] by simp

lemma delete_locked_effect:
  assumes "dev_inv dev" "p \<in> set (pair_list dev)"
  shows "hwe_delete_pair_locked dev (int (index p)) = (0, pair_delete dev p)"
    and "abs_dev (pair_delete dev p) = remove_view (view p) (abs_dev dev)"
proof -
  have "find (\<lambda>q. index q = index p) (pair_list dev) = Some p"
    using pair_ix.indexed_unique [OF dev_inv_indexed [OF assms(1)]] assms(2)
    by (cases "find (\<lambda>q. index q = index p) (pair_list dev)") (auto simp: find_Some_iff find_None_iff)
  moreover have "index p < 2 ^ 63"
    using dev_inv_index_less [OF assms] by (simp add: hwe_consts)
  ultimately show "hwe_delete_pair_locked dev (int (index p)) = (0, pair_delete dev p)"
    by (simp add: hwe_delete_pair_locked_def get_pair_at_index_eq_find size_of_long_small)
  show "abs_dev (pair_delete dev p) = remove_view (view p) (abs_dev dev)"
    unfolding abs_dev_def using delete_refines [OF assms] .
qed

lemma delete_locked_missing:
  assumes "dev_inv dev" "\<forall>p \<in> set (pair_list dev). int (index p) \<noteq> k" "- (2 ^ 63) \<le> k" "k < 2 ^ 63"
  shows "hwe_delete_pair_locked dev k = (- ENOENT, dev)"
proof -
  have "index p \<noteq> size_of_long k" if "p \<in> set (pair_list dev)" for p
  proof (cases "0 \<le> k")
    case True
    then show ?thesis using assms(2,4) that by (fastforce simp: size_of_long_small)
  next
    case False
    then have "2 ^ 63 \<le> size_of_long k" using size_of_long_negative assms(3) by simp
    moreover have "index p < 2 ^ 63" using dev_inv_index_less [OF assms(1) that] by (simp add: hwe_consts)
    ultimately show ?thesis by linarith
  qed
  then have "get_pair_at_index (pair_list dev) (size_of_long k) = None"
    by (auto simp: get_pair_at_index_eq_find find_None_iff)
  then show ?thesis by (simp add: hwe_delete_pair_locked_def)
qed

text \<open>C19: deleting a pair by its index (the ioctl function) refines removal from the abstract
  device: it takes out exactly the pair with that index, be it a reply or one occurrence of a
  periodic packet, and returns 0. For an index that no pair has, negative ones included, it
  returns \<open>-ENOENT\<close> and changes nothing; for a missing device, \<open>-ENODEV\<close>.\<close>

theorem hwe_delete_pair_refines:
  assumes "sysfs_inv st" "- (2 ^ 63) \<le> k" "k < 2 ^ 63"
  shows "\<exists>r st'. hwe_delete_pair i n k st = Done (r, st') \<and> sysfs_inv st' \<and>
    (case find_device_by_index i n st of
       None \<Rightarrow> r = - ENODEV \<and> st' = st
     | Some dev \<Rightarrow>
         (r = - ENOENT \<and> (\<forall>p \<in> set (pair_list dev). int (index p) \<noteq> k) \<and> abs_state st' = abs_state st \<or>
          r = 0 \<and> (\<exists>p \<in> set (pair_list dev). int (index p) = k \<and>
            abs_state st' = abs_update i n (Some (remove_view (view p) (abs_dev dev))) (abs_state st))))"
proof (cases "find_device_by_index i n st")
  case None
  then show ?thesis using assms(1) by (simp add: hwe_delete_pair_eq)
next
  case (Some dev)
  have inv: "dev_inv dev" using sysfs_inv_dev [OF assms(1) Some] by simp
  obtain st' where st': "hwe_delete_pair i n k st = Done (fst (hwe_delete_pair_locked dev k), st')"
    "sysfs_inv st'" "find_device_by_index i n st' = Some (snd (hwe_delete_pair_locked dev k))"
    "\<forall>m. m \<noteq> n \<longrightarrow> find_device_by_index i m st' = find_device_by_index i m st"
    "\<forall>j. j \<noteq> i \<longrightarrow> devs st' j = devs st j"
    using hwe_delete_pair_runs [OF assms(1) Some, of k] by auto
  note abs = abs_state_changed [OF st'(3-5)]
  show ?thesis
  proof (cases "\<exists>p \<in> set (pair_list dev). int (index p) = k")
    case True
    then obtain p where p: "p \<in> set (pair_list dev)" "k = int (index p)" by auto
    then show ?thesis
      using st'(1,2) abs delete_locked_effect [OF inv p(1)] Some by auto
  next
    case False
    then have "hwe_delete_pair_locked dev k = (- ENOENT, dev)"
      using assms(2,3) by (intro delete_locked_missing [OF inv]) auto
    moreover have "abs_update i n (Some (abs_dev dev)) (abs_state st) = abs_state st"
      using Some by (intro abs_update_same) (simp add: abs_state_def)
    ultimately show ?thesis using st'(1,2) abs False Some by auto
  qed
qed

theorem hwe_delete_pair_refines_witness:
  "\<exists>r st'. hwe_delete_pair HWE_TTY 0 0 sample_state = Done (r, st') \<and> sysfs_inv st' \<and>
    (case find_device_by_index HWE_TTY 0 sample_state of
       None \<Rightarrow> r = - ENODEV \<and> st' = sample_state
     | Some dev \<Rightarrow>
         (r = - ENOENT \<and> (\<forall>p \<in> set (pair_list dev). int (index p) \<noteq> 0) \<and> abs_state st' = abs_state sample_state \<or>
          r = 0 \<and> (\<exists>p \<in> set (pair_list dev). int (index p) = 0 \<and>
            abs_state st' = abs_update HWE_TTY 0 (Some (remove_view (view p) (abs_dev dev))) (abs_state sample_state))))"
  by (rule hwe_delete_pair_refines [OF sample_state_inv]) simp_all

text \<open>The \<open>delete\<close> file does what the ioctl function does. When the text is a number \<open>k\<close> the
  handler leaves the state \<open>hwe_delete_pair\<close> leaves, and succeeds exactly when it does; an empty
  write or a text that is no number changes nothing and is an error.\<close>

lemma dev_delete_store_same_as_ioctl:
  assumes "sysfs_inv st" "find_device_by_index i n st = Some dev" "\<And>k. kl_kstrtouint K buf = Some k \<Longrightarrow> k \<le> UINT_MAX"
  shows "case kl_kstrtouint K buf of
      None \<Rightarrow> dev_delete_store K i n buf cnt st = Done (- EINVAL, st)
    | Some k \<Rightarrow>
        if cnt = 0 then dev_delete_store K i n buf cnt st = Done (- EINVAL, st)
        else \<exists>r st'. hwe_delete_pair i n (int k) st = Done (r, st') \<and>
          dev_delete_store K i n buf cnt st = Done (if r = 0 then int cnt else - EINVAL, st') \<and> (r = 0 \<or> r = - ENOENT)"
proof -
  have found: "find_device_by_index i n (locked i st) = Some dev" using assms(2) by simp
  have in_list: "dev \<in> set (devs st i)" and n: "dev_index dev = n"
    using find_device_by_index_Some [OF assms(2)] by simp_all
  have "replace_dev i dev (locked i st) = locked i st"
  proof -
    have "distinct (map dev_index (devs st i))" using assms(1) by (simp add: sysfs_inv_def iface_inv_def)
    then have "map (\<lambda>d. if dev_index d = dev_index dev then dev else d) (devs (locked i st) i) = devs (locked i st) i"
      using in_list by (intro map_idI) (auto simp: distinct_map dest: inj_onD)
    then show ?thesis unfolding replace_dev_def by (intro update_iface_same) simp
  qed
  then have same: "unlock_iface_devs i (replace_dev i dev (locked i st)) = st" using assms(1) by simp
  have eqs: "dev_delete_store K i n buf cnt st =
      Done (fst (dev_delete_store_locked K dev buf cnt), unlock_iface_devs i (replace_dev i (snd (dev_delete_store_locked K dev buf cnt)) (locked i st)))"
    "hwe_delete_pair i n k st =
      Done (fst (hwe_delete_pair_locked dev k), unlock_iface_devs i (replace_dev i (snd (hwe_delete_pair_locked dev k)) (locked i st)))" for k
    unfolding dev_delete_store_def hwe_delete_pair_def dev_handler_def with_iface_lock_eq [OF assms(1)] found
    by (simp_all split: prod.split)
  show ?thesis
    unfolding eqs using same assms(3)
    by (auto simp: dev_delete_store_locked_def hwe_delete_pair_locked_def size_of_long_small split: option.split)
      (rule exI [of _ "- ENOENT"], simp)
qed

text \<open>Clearing a device, from its \<open>clear\<close> file or by ioctl, empties it: no request has an
  answer, no timer is left, the \<open>pairs\<close> directory is empty and every pair index is free again.
  Other devices keep their pairs.\<close>

lemma clear_empties_device:
  assumes "sysfs_inv st" "find_device_by_index i n st = Some dev" "cnt \<noteq> 0"
  shows "\<exists>st' dev'. dev_clear_store i n cnt st = Done (int cnt, st') \<and> hwe_clear_pairs i n st = Done (0, st') \<and>
    sysfs_inv st' \<and> abs_state st' = abs_update i n (Some (\<lambda>_. None, {#})) (abs_state st) \<and>
    find_device_by_index i n st' = Some dev' \<and> pairs_dir dev' = [] \<and> bits (pairs_indexes dev') = {}"
proof -
  have inv: "dev_inv dev" using sysfs_inv_dev [OF assms(1,2)] by simp
  obtain st' where st': "dev_clear_store i n cnt st = Done (int cnt, st')" "sysfs_inv st'"
    "find_device_by_index i n st' = Some (clear_pairs dev)"
    "\<forall>m. m \<noteq> n \<longrightarrow> find_device_by_index i m st' = find_device_by_index i m st"
    "\<forall>j. j \<noteq> i \<longrightarrow> devs st' j = devs st j"
    using dev_clear_store_runs [OF assms] by auto
  have "hwe_clear_pairs i n st = Done (0, st')"
    using st'(1) assms unfolding dev_clear_store_def dev_handler_def hwe_clear_pairs_def with_iface_lock_eq [OF assms(1)]
    by simp
  then show ?thesis
    using st' abs_state_changed [OF st'(3-5)] clear_refines [OF inv] by (auto simp: abs_dev_def)
qed

section \<open>Counting and showing pairs\<close>

lemma map_of_pairs_dom:
  assumes "dev_inv dev"
  shows "dom (replies dev) = req_bytes ` set (filter (\<lambda>p. \<not> async_rx p) (pair_list dev))"
  using replies_Some_iff [OF assms] by (auto simp: dom_def view_def split: if_splits)

lemma length_filter_split: "length (filter P xs) + length (filter (\<lambda>x. \<not> P x) xs) = length xs"
  by (induction xs) auto

lemma pair_number:
  assumes "dev_inv dev"
  shows "finite (dom (replies dev))" "card (dom (replies dev)) + size (timers dev) = length (pair_list dev)"
proof -
  show "finite (dom (replies dev))" by (simp add: map_of_pairs_dom [OF assms])
  have "distinct (map req_bytes (filter (\<lambda>p. \<not> async_rx p) (pair_list dev)))"
    using assms by (simp add: dev_inv_def no_dup_requests_def)
  then have "card (dom (replies dev)) = length (filter (\<lambda>p. \<not> async_rx p) (pair_list dev))"
    unfolding map_of_pairs_dom [OF assms] set_map [symmetric] by (simp only: distinct_card length_map)
  moreover have "size (timers dev) = length (filter async_rx (pair_list dev))"
    by (simp add: timers_def flip: mset_filter)
  ultimately show "card (dom (replies dev)) + size (timers dev) = length (pair_list dev)"
    using length_filter_split [of async_rx "pair_list dev"] by simp
qed

lemma pair_count_is_exact_facts:
  assumes "sysfs_inv st" "find_device_by_index i n st = Some dev"
  shows "hwe_get_pair_count i n st = Done (int (card (dom (replies dev)) + size (timers dev)), st)"
    and "\<exists>st'. dev_count_show i n st = Done (dec_str (card (dom (replies dev)) + size (timers dev)), st') \<and>
      sysfs_inv st' \<and> find_device_by_index i n st' = Some dev"
proof -
  have inv: "dev_inv dev" using sysfs_inv_dev [OF assms] by simp
  note eq = pair_number(2) [OF inv]
  show "\<exists>st'. dev_count_show i n st = Done (dec_str (card (dom (replies dev)) + size (timers dev)), st') \<and>
      sysfs_inv st' \<and> find_device_by_index i n st' = Some dev"
    unfolding eq by (rule dev_count_show_eq [OF assms])
  show "hwe_get_pair_count i n st = Done (int (card (dom (replies dev)) + size (timers dev)), st)"
    unfolding eq hwe_get_pair_count_def with_lock_read_only [OF assms(1)]
    using assms(2) pair_ix_weight [OF dev_inv_indexed [OF inv]] by simp
qed

text \<open>The pair count, shown in a device's \<open>count\<close> file and returned by ioctl, is the number of
  requests the device answers plus the number of its periodic packets; reading it changes
  nothing that can be observed.\<close>

lemma pair_count_is_exact:
  assumes "sysfs_inv st" "find_device_by_index i n st = Some dev"
  shows "hwe_get_pair_count i n st = Done (int (card (dom (replies dev)) + size (timers dev)), st) \<and>
    (\<exists>st'. dev_count_show i n st = Done (dec_str (card (dom (replies dev)) + size (timers dev)), st') \<and>
      sysfs_inv st' \<and> find_device_by_index i n st' = Some dev)"
  using pair_count_is_exact_facts [OF assms] by blast

lemma find_by_index_pair:
  assumes "dev_inv dev" "p \<in> set (pair_list dev)"
  shows "find (\<lambda>q. int (index q) = int (index p)) (pair_list dev) = Some p"
  using pair_ix.indexed_unique [OF dev_inv_indexed [OF assms(1)]] assms(2)
  by (cases "find (\<lambda>q. int (index q) = int (index p)) (pair_list dev)") (auto simp: find_Some_iff find_None_iff)

text \<open>C39: reading a pair's file shows the pair: the handler finds the device by its directory name
  and the pair by its file name, and returns the pair's text, which fits the page \<open>sysfs\<close>
  provides and parses back to a pair with the same meaning.\<close>

theorem pair_file_shows_pair:
  assumes "sysfs_inv st" "find_device_by_index i n st = Some dev" "p \<in> set (pair_list dev)"
    "kl_kstrtol K (filename p) = Some (int (index p))" "strtoull_ok (kl_strtoull K)" "pair_buf_ok p0"
  shows "pair_show K (iface_to_str i) (kobj_name dev) (filename p) st = Done (pair_to_str p, st) \<and>
    length (pair_to_str p) < 4096 \<and>
    (\<exists>q. str_to_pair K (pair_to_str p) (length (pair_to_str p)) p0 = Inr q \<and> view q = view p)"
proof -
  have inv: "dev_inv dev" "kobj_name dev = iface_to_str i @ dec_str n"
    using sysfs_inv_dev [OF assms(1,2)] find_device_by_index_Some [OF assms(2)] by (auto simp: dev_ok_def)
  have "find_device i (kobj_name dev) st = Some dev"
    unfolding inv(2) using assms(1,2) by (simp add: find_device_by_name sysfs_inv_def)
  then have "pair_show K (iface_to_str i) (kobj_name dev) (filename p) st = Done (pair_to_str p, st)"
    unfolding pair_show_def str_to_iface_to_str option.case assms(4) with_lock_read_only [OF assms(1)]
    using find_by_index_pair [OF inv(1) assms(3)] pair_to_str_not_Nil by (simp add: pair_show_locked_def)
  moreover have "length (pair_to_str p) < 4096"
    using length_pair_to_str [of p] by (simp add: hwe_consts)
  ultimately show ?thesis
    using str_to_pair_print [OF assms(5) dev_inv_wf [OF inv(1) assms(3)] assms(6)] by blast
qed

theorem pair_file_shows_pair_witness:
  "pair_show sample_klib (iface_to_str HWE_TTY) (kobj_name sample_dev) (filename (numbered sample_pair 0)) sample_state =
     Done (pair_to_str (numbered sample_pair 0), sample_state) \<and> length (pair_to_str (numbered sample_pair 0)) < 4096 \<and>
    (\<exists>q. str_to_pair sample_klib (pair_to_str (numbered sample_pair 0)) (length (pair_to_str (numbered sample_pair 0))) sample_pair = Inr q \<and>
      view q = view (numbered sample_pair 0))"
proof (rule pair_file_shows_pair [OF sample_state_inv sample_state_dev])
  show "numbered sample_pair 0 \<in> set (pair_list sample_dev)" by (simp add: sample_dev_pairs)
  show "kl_kstrtol sample_klib (filename (numbered sample_pair 0)) = Some (int (index (numbered sample_pair 0)))"
    using numbered_filename [of 0 sample_pair] dec_str_digits [of 0]
    by (simp add: hwe_consts sample_klib_def)
qed (simp_all add: sample_klib_ok sample_pair_wf)

lemma hwe_get_pair_ignores_index_facts:
  assumes "sysfs_inv st" "find_device_by_index i n st = Some dev" "p \<in> set (pair_list dev)"
  shows "hwe_get_pair (int (index p)) i n k st = Done (Inr (pair_to_str p), st)"
    and "hwe_get_pair (- 1) i n (int (index p)) st = Done (Inl (- ENOENT), st)"
proof -
  have inv: "dev_inv dev" using sysfs_inv_dev [OF assms(1,2)] by simp
  show "hwe_get_pair (int (index p)) i n k st = Done (Inr (pair_to_str p), st)"
    unfolding hwe_get_pair_def with_lock_read_only [OF assms(1)]
    using assms(2) find_by_index_pair [OF inv assms(3)] by (simp add: hwe_get_pair_locked_def)
  have "find (\<lambda>q. int (index q) = - 1) (pair_list dev) = None" by (simp add: find_None_iff)
  then show "hwe_get_pair (- 1) i n (int (index p)) st = Done (Inl (- ENOENT), st)"
    unfolding hwe_get_pair_def with_lock_read_only [OF assms(1)]
    using assms(2) by (simp add: hwe_get_pair_locked_def)
qed

text \<open>C40: \<open>hwe_get_pair\<close>, the ioctl function that returns a pair's text, does not use the index it is
  given: it compares with a local variable it never assigns. Whatever pair is asked for, it
  returns the one whose index happens to be in that variable; and when the variable holds no
  pair's index it reports \<open>-ENOENT\<close> for pairs that exist.\<close>

theorem hwe_get_pair_ignores_index:
  assumes "sysfs_inv st" "find_device_by_index i n st = Some dev" "p \<in> set (pair_list dev)"
  shows "(\<forall>k. hwe_get_pair (int (index p)) i n k st = Done (Inr (pair_to_str p), st)) \<and>
    hwe_get_pair (- 1) i n (int (index p)) st = Done (Inl (- ENOENT), st)"
  using hwe_get_pair_ignores_index_facts [OF assms] by blast

theorem hwe_get_pair_ignores_index_witness:
  "(\<forall>k. hwe_get_pair (int (index (numbered sample_pair 0))) HWE_TTY 0 k sample_state =
     Done (Inr (pair_to_str (numbered sample_pair 0)), sample_state)) \<and>
   hwe_get_pair (- 1) HWE_TTY 0 (int (index (numbered sample_pair 0))) sample_state = Done (Inl (- ENOENT), sample_state)"
  by (rule hwe_get_pair_ignores_index [OF sample_state_inv sample_state_dev]) (simp add: sample_dev_pairs)

text \<open>\<open>hwe_add_pair\<close> on a device that does not exist dereferences a null pointer, with the
  interface locked, exactly when the memory is there and the text is a valid pair; otherwise
  it returns an error. (The branch after \<open>find_device_by_index\<close> lacks an \<open>else\<close>.)\<close>

lemma hwe_add_pair_missing_device:
  assumes "sysfs_inv st" "find_device_by_index i n st = None"
  shows "hwe_add_pair K E i n str st = Oops \<longleftrightarrow>
    kmalloc_ok E \<and> (\<exists>q. str_to_pair K str (length (c_string str)) (raw_pair E) = Inr q)"
  using assms(2) unfolding hwe_add_pair_eq [OF assms(1)] by (simp split: sum.split)

end
