(* ===== verification/Lifecycle.thy ===== *)
theory Lifecycle
  imports Sysfs_Correct
begin

text \<open>
  The life of devices and of the \<open>sysfs\<close> unit: creating a device through its interface's \<open>add\<close> file
  or by ioctl, removing it by name (\<open>uninstall\<close> file) or by index (ioctl), loading and unloading
  the unit. The drivers' \<open>create\<close> and \<open>destroy\<close> are an argument \<open>ops\<close> of every operation here;
  the theory \<open>Drivers\<close> provides it from the four drivers.
\<close>

section \<open>Creating devices\<close>

lemma device_created_locked [simp]: "device_created ops E i (locked j st) = device_created ops E i st"
  by (simp add: device_created_def)

lemma ifaces_unlock_locked [simp]:
  "sysfs_inv st \<Longrightarrow> ifaces (unlock_iface_devs i ((locked i st)\<lparr>drv := w\<rparr>)) j = ifaces st j"
  by (cases "j = i") (simp_all add: unlock_iface_devs_def locked_def sysfs_inv_def)

lemma abs_state_ifaces: "(\<And>j. devs st' j = devs st j) \<Longrightarrow> abs_state st' = abs_state st"
  by (simp add: abs_state_def find_device_by_index_def fun_eq_iff)

lemma abs_state_drv [simp]: "abs_state (st\<lparr>drv := w\<rparr>) = abs_state st"
  by (rule abs_state_ifaces) simp

lemma abs_dev_made: "abs_dev (made_dev i n d) = (\<lambda>_. None, {#})"
  by (simp add: abs_dev_def replies_def timers_def fun_eq_iff)

lemma device_created_index:
  assumes "sysfs_inv st" "device_created ops E i st"
  shows "next_index i st < HWE_MAX_DEVICES" "find_device_by_index i (next_index i st) st = None"
    "m < next_index i st \<Longrightarrow> find_device_by_index i m st \<noteq> None"
proof -
  have inv: "iface_inv i (ifaces st i)" using assms(1) by (simp add: sysfs_inv_def)
  show "next_index i st < HWE_MAX_DEVICES"
    using assms(2) next_index_room [OF inv] next_index_less [OF inv] by (simp add: device_created_def)
  show "find_device_by_index i (next_index i st) st = None"
    unfolding find_device_by_index_None using next_index_fresh [OF inv] by (metis imageI)
  show "find_device_by_index i m st \<noteq> None" if "m < next_index i st"
    using next_index_least [OF inv that] by (auto simp: find_device_by_index_None)
qed

lemma unlock_drv [simp]: "unlock_iface_devs i (st\<lparr>drv := w\<rparr>) = (unlock_iface_devs i st)\<lparr>drv := w\<rparr>"
  by (simp add: unlock_iface_devs_def)

lemma abs_state_added:
  assumes "dev_index dev = n"
  shows "abs_state (unlock_iface_devs i (added i dev (locked i st))) =
    abs_update i n (Some (abs_dev dev)) (abs_state st)"
  using assms by (intro abs_state_changed) (auto simp: find_device_by_index_def added_def unlock_iface_devs_def locked_def)


definition sample_ops :: "(unit, nat) hwe_dev_ops" where
  "sample_ops = \<lparr>create = (\<lambda>i n w. (Some (), w + 1)), destroy = (\<lambda>i d w. w - 1)\<rparr>"

definition sample_new_env :: new_env where
  "sample_new_env = \<lparr>kzalloc_ok = True, kobject_add_err = 0, pairs_kobj_ok = True\<rparr>"

definition sample_empty :: "(unit, nat) sysfs" where
  "sample_empty = empty_sysfs 0"

lemma sample_empty_inv: "sysfs_inv sample_empty"
  by (simp add: sample_empty_def empty_sysfs_inv)


text \<open>Writing anything but the empty string to an interface's \<open>add\<close> file does what the ioctl
  request does: it leaves the same state, and succeeds exactly when that succeeds.\<close>

lemma iface_add_store_same_as_ioctl:
  assumes "sysfs_inv st" "cnt \<noteq> 0"
  shows "\<exists>r st'. hwe_add_device ops E i st = Done (r, st') \<and>
    iface_add_store ops E i cnt st = Done (if r < 0 then - EIO else int cnt, st')"
proof -
  obtain r st' where "new_dev ops E i (locked i st) = (r, st')"
    by (cases "new_dev ops E i (locked i st)")
  then show ?thesis
    unfolding hwe_add_device_eq [OF assms(1)] iface_add_store_eq [OF assms] by (cases r) simp_all
qed

section \<open>Removing devices\<close>

definition plain :: "char \<Rightarrow> bool" where
  "plain c \<longleftrightarrow> c \<noteq> NUL \<and> \<not> isspace c \<and> isprint c"

lemma skip_spaces_eq: "skip_spaces s = dropWhile isspace s"
  by (induction s) auto

lemma copy_chars_eq: "copy_chars s n = take (n - 1) (takeWhile plain s)"
  by (induction s arbitrary: n) (auto simp: plain_def take_Cons' split: nat.splits)

lemma copy_word_name:
  assumes "list_all isspace ws" "list_all plain w" "w \<noteq> []" "rest = [] \<or> \<not> plain (hd rest)" "length w < dst_len"
  shows "copy_word (ws @ w @ rest) (length (ws @ w @ rest)) dst_len = w"
proof -
  have "dropWhile isspace (ws @ w @ rest) = w @ rest"
    using assms(1-3) by (cases w) (auto simp: list_all_iff dropWhile_append plain_def)
  moreover have "takeWhile plain (w @ rest) = w"
    using assms(2,4) by (cases rest) (auto simp: list_all_iff takeWhile_append)
  ultimately show ?thesis
    using assms(5) by (simp add: copy_word_def skip_spaces_eq copy_chars_eq Let_def)
qed

lemma digits_plain: "list_all isdigit s \<Longrightarrow> list_all plain s"
  by (auto simp: list_all_iff plain_def isdigit_def isspace_def isprint_def NUL_def)

lemma dev_name_plain: "list_all plain (iface_to_str i @ dec_str n)"
proof -
  have "list_all plain (iface_to_str i)"
    by (cases i) (simp_all add: plain_def isspace_def isprint_def NUL_def)
  then show ?thesis using digits_plain [OF dec_str_digits] by simp
qed

lemma unlock_removed_abs:
  "abs_state (unlock_iface_devs i (removed i n (locked i st))) = abs_update i n None (abs_state st)"
proof (intro ext)
  fix j m
  have "find (\<lambda>d. dev_index d = m) (filter (\<lambda>d. dev_index d \<noteq> n) ds) =
      (if m = n then None else find (\<lambda>d. dev_index d = m) ds)" for ds :: "'a hwe_dev list"
    by (induction ds) auto
  then show "abs_state (unlock_iface_devs i (removed i n (locked i st))) j m = abs_update i n None (abs_state st) j m"
    by (cases "j = i") (auto simp: abs_state_def abs_update_def find_device_by_index_def)
qed

lemma hwe_delete_device_eq:
  assumes "sysfs_inv st"
  shows "hwe_delete_device ops i n st =
    (case find_device_by_index i n st of
       None \<Rightarrow> Done (- ENODEV, st)
     | Some dev \<Rightarrow> Done (0, unlock_iface_devs i (shutdown_dev ops dev (locked i st))))"
  unfolding hwe_delete_device_def with_iface_lock_eq [OF assms] using assms by (simp split: option.split)

text \<open>C35: removing a device by index (ioctl) removes that device and no other: its pairs are gone,
  its index is free, the driver's \<open>destroy\<close> has run once on its private data, and every other
  device has its pairs. For an index without a device it returns \<open>-ENODEV\<close> and changes
  nothing.\<close>

theorem hwe_delete_device_removes_one:
  assumes "sysfs_inv st"
  shows "case find_device_by_index i n st of
      None \<Rightarrow> hwe_delete_device ops i n st = Done (- ENODEV, st)
    | Some dev \<Rightarrow> \<exists>st'. hwe_delete_device ops i n st = Done (0, st') \<and> sysfs_inv st' \<and>
        abs_state st' = abs_update i n None (abs_state st) \<and> n \<notin> bits (dev_indexes (ifaces st' i)) \<and>
        drv st' = destroy ops i (the (device dev)) (drv st)"
proof (cases "find_device_by_index i n st")
  case None
  then show ?thesis by (simp add: hwe_delete_device_eq [OF assms])
next
  case (Some dev)
  have n: "dev_index dev = n" "dev_ok i dev"
    using find_device_by_index_Some [OF Some] sysfs_inv_dev [OF assms Some] by simp_all
  then obtain d where d: "iface dev = i" "device dev = Some d" by (auto simp: dev_ok_def)
  note eq = shutdown_dev_eq [OF d, of ops "locked i st", unfolded n(1)]
  obtain st' where st': "hwe_delete_device ops i n st = Done (0, st')" "sysfs_inv st'"
    using hwe_delete_device_inv [OF assms, of ops i n] Some by (auto simp: hwe_delete_device_eq [OF assms])
  then have st'_eq: "st' = (unlock_iface_devs i (removed i n (locked i st)))\<lparr>drv := destroy ops i d (drv st)\<rparr>"
    using Some eq by (simp add: hwe_delete_device_eq [OF assms])
  have abs: "abs_state st' = abs_update i n None (abs_state st)"
    using unlock_removed_abs [of i n st] by (simp add: st'_eq)
  have "find_device_by_index i n st' = None"
    using fun_cong [OF fun_cong [OF abs], of i n] by (simp add: abs_state_def abs_update_def)
  then have "n \<notin> dev_index ` set (devs st' i)" by (auto simp: find_device_by_index_None)
  then have "n \<notin> bits (dev_indexes (ifaces st' i))"
    using st'(2) by (simp add: sysfs_inv_def iface_inv_def)
  then show ?thesis using st' abs Some d st'_eq by simp
qed

theorem hwe_delete_device_removes_one_witness:
  "case find_device_by_index HWE_TTY 0 sample_state of
      None \<Rightarrow> hwe_delete_device \<lparr>create = (\<lambda>i n w. (Some (), w)), destroy = (\<lambda>i d w. w)\<rparr> HWE_TTY 0 sample_state = Done (- ENODEV, sample_state)
    | Some dev \<Rightarrow> \<exists>st'. hwe_delete_device \<lparr>create = (\<lambda>i n w. (Some (), w)), destroy = (\<lambda>i d w. w)\<rparr> HWE_TTY 0 sample_state = Done (0, st') \<and> sysfs_inv st' \<and>
        abs_state st' = abs_update HWE_TTY 0 None (abs_state sample_state) \<and> 0 \<notin> bits (dev_indexes (ifaces st' HWE_TTY)) \<and>
        drv st' = destroy \<lparr>create = (\<lambda>i n w. (Some (), w)), destroy = (\<lambda>i d w. w)\<rparr> HWE_TTY (the (device dev)) (drv sample_state)"
  by (rule hwe_delete_device_removes_one [OF sample_state_inv])

text \<open>Writing a device's directory name to its interface's \<open>uninstall\<close> file, with blanks before
  it and a blank, a newline or nothing after it, does what the ioctl request for its index
  does: the same state results, and the write fails exactly when there is no such device.\<close>

lemma uninstall_by_name:
  assumes "sysfs_inv st" "list_all isspace ws" "rest = [] \<or> isspace (hd rest)" "n < HWE_MAX_DEVICES"
  shows "\<exists>r st'. hwe_delete_device ops i n st = Done (r, st') \<and>
    iface_uninstall_store ops i (ws @ (iface_to_str i @ dec_str n) @ rest) (length (ws @ (iface_to_str i @ dec_str n) @ rest)) st =
      Done (if r = 0 then int (length (ws @ (iface_to_str i @ dec_str n) @ rest)) else - EINVAL, st') \<and>
    (r = 0 \<longleftrightarrow> find_device_by_index i n st \<noteq> None)"
proof -
  define name where "name = iface_to_str i @ dec_str n"
  define buf where "buf = ws @ name @ rest"
  have "length name < 16"
    using length_dec_str [of n 3] assms(4) by (simp add: name_def hwe_consts)
  moreover have "list_all plain name" "name \<noteq> []"
    using dev_name_plain by (simp_all add: name_def)
  moreover have "rest = [] \<or> \<not> plain (hd rest)" using assms(3) by (auto simp: plain_def)
  ultimately have w: "copy_word buf (length buf) 16 = name"
    unfolding buf_def by (intro copy_word_name assms(2))
  have found: "find_device i name (locked i st) = find_device_by_index i n st"
    unfolding name_def using assms(1) find_device_by_name [of i st n] by (simp add: sysfs_inv_def)
  have nz: "length buf \<noteq> 0" "length name \<noteq> 0" by (simp_all add: buf_def name_def)
  have "iface_uninstall_store ops i buf (length buf) st =
    (case find_device_by_index i n st of
       None \<Rightarrow> Done (- EINVAL, st)
     | Some dev \<Rightarrow> Done (int (length buf), unlock_iface_devs i (shutdown_dev ops dev (locked i st))))"
    unfolding iface_uninstall_store_def Let_def w str_to_iface_to_str option.case with_iface_lock_eq [OF assms(1)] found
    using nz assms(1) by (simp split: option.split)
  then have "\<exists>r st'. hwe_delete_device ops i n st = Done (r, st') \<and>
      iface_uninstall_store ops i buf (length buf) st = Done (if r = 0 then int (length buf) else - EINVAL, st') \<and>
      (r = 0 \<longleftrightarrow> find_device_by_index i n st \<noteq> None)"
    unfolding hwe_delete_device_eq [OF assms(1)] by (cases "find_device_by_index i n st") auto
  then show ?thesis by (simp only: buf_def name_def)
qed

section \<open>Loading and unloading the unit\<close>

lemma init_iface_result:
  "init_iface E i st = (iface_add_err E i, snd (init_iface E i st))"
  "ifaces (snd (init_iface E i st)) i =
     (ifaces st i)\<lparr>dev_list := [], dev_indexes := bitmap_zero HWE_MAX_DEVICES, sem := 1, kobj_live := iface_add_err E i = 0\<rparr>"
  "j \<noteq> i \<Longrightarrow> ifaces (snd (init_iface E i st)) j = ifaces st j"
  "drv (snd (init_iface E i st)) = drv st" "base_kset (snd (init_iface E i st)) = base_kset st"
  by (simp_all add: init_iface_def Let_def)

definition ready :: "'d hwe_iface \<Rightarrow> bool" where
  "ready ifc \<longleftrightarrow> dev_list ifc = [] \<and> dev_indexes ifc = bitmap_zero HWE_MAX_DEVICES \<and> sem ifc = 1"

lemma ready_inv: "ready ifc \<Longrightarrow> iface_inv i ifc"
  by (simp add: ready_def iface_inv_def)

lemma init_ifaces_ok:
  assumes "\<forall>i \<in> set todo. iface_add_err E i = 0" "distinct todo"
  shows "\<exists>st'. init_ifaces ops E installed todo st = (0, st') \<and> drv st' = drv st \<and> base_kset st' = base_kset st \<and>
    (\<forall>i. if i \<in> set todo then ready (ifaces st' i) \<and> kobj_live (ifaces st' i) else ifaces st' i = ifaces st i)"
  using assms
proof (induction todo arbitrary: installed st)
  case Nil
  then show ?case by simp
next
  case (Cons i todo)
  define st1 where "st1 = snd (init_iface E i st)"
  have step: "init_ifaces ops E installed (i # todo) st = init_ifaces ops E (i # installed) todo st1"
    using Cons.prems init_iface_result(1) [of E i st] by (simp add: st1_def split: prod.splits) (metis prod.inject)
  obtain st' where st': "init_ifaces ops E (i # installed) todo st1 = (0, st')" "drv st' = drv st1"
    "base_kset st' = base_kset st1"
    "\<forall>j. if j \<in> set todo then ready (ifaces st' j) \<and> kobj_live (ifaces st' j) else ifaces st' j = ifaces st1 j"
    using Cons.IH [of "i # installed" st1] Cons.prems by auto
  have "ready (ifaces st1 i) \<and> kobj_live (ifaces st1 i)"
    using Cons.prems by (simp add: st1_def init_iface_result(2) ready_def)
  then have all: "if j \<in> set (i # todo) then ready (ifaces st' j) \<and> kobj_live (ifaces st' j) else ifaces st' j = ifaces st j" for j
    using st'(4) Cons.prems(2) init_iface_result(3) [of j i E st] by (cases "j = i") (auto simp: st1_def split: if_splits)
  have "drv st' = drv st" "base_kset st' = base_kset st"
    using st'(2,3) init_iface_result(4,5) [of E i st] by (simp_all add: st1_def)
  then show ?case
    unfolding step using st'(1) all by (intro exI [of _ st']) simp
qed

lemma shutdown_devs_none: "devs st i = [] \<Longrightarrow> shutdown_devs ops i st = st"
  by (simp add: shutdown_devs_def while_unfold)

lemma cleanup_ready:
  assumes "ready (ifaces st i)"
  shows "cleanup_iface ops i st = update_iface i (\<lambda>ifc. ifc\<lparr>kobj_live := False\<rparr>) st"
  using assms by (simp add: cleanup_iface_def shutdown_devs_none ready_def)

lemma cleanup_installed:
  assumes "\<forall>i \<in> set installed. ready (ifaces st i)"
  shows "(\<forall>j. devs (foldl (\<lambda>st i. cleanup_iface ops i st) st installed) j = devs st j \<and>
      (kobj_live (ifaces (foldl (\<lambda>st i. cleanup_iface ops i st) st installed) j) \<longleftrightarrow>
        kobj_live (ifaces st j) \<and> j \<notin> set installed)) \<and>
    drv (foldl (\<lambda>st i. cleanup_iface ops i st) st installed) = drv st \<and>
    base_kset (foldl (\<lambda>st i. cleanup_iface ops i st) st installed) = base_kset st"
  using assms
proof (induction installed arbitrary: st)
  case Nil
  then show ?case by simp
next
  case (Cons i installed)
  define st1 where "st1 = cleanup_iface ops i st"
  have st1: "st1 = update_iface i (\<lambda>ifc. ifc\<lparr>kobj_live := False\<rparr>) st"
    using Cons.prems by (simp add: st1_def cleanup_ready)
  have frame: "devs st1 j = devs st j" "kobj_live (ifaces st1 j) \<longleftrightarrow> kobj_live (ifaces st j) \<and> j \<noteq> i"
    "ready (ifaces st1 j) = ready (ifaces st j)" for j
    by (cases "j = i"; simp add: st1 ready_def)+
  have "drv st1 = drv st" "base_kset st1 = base_kset st" by (simp_all add: st1)
  then show ?case
    using Cons.IH [of st1] Cons.prems by (auto simp: frame simp flip: st1_def)
qed

lemma init_ifaces_fail:
  assumes "distinct (rev installed @ todo)" "\<forall>i \<in> set installed. ready (ifaces st i)"
    "\<forall>j. kobj_live (ifaces st j) \<longrightarrow> j \<in> set installed"
    "\<exists>i \<in> set todo. iface_add_err E i \<noteq> 0"
  shows "\<exists>i \<in> set todo. \<exists>st'. init_ifaces ops E installed todo st = (iface_add_err E i, st') \<and> iface_add_err E i \<noteq> 0 \<and>
    (\<forall>j. \<not> kobj_live (ifaces st' j)) \<and> drv st' = drv st \<and> base_kset st' = base_kset st"
  using assms
proof (induction todo arbitrary: installed st)
  case Nil
  then show ?case by simp
next
  case (Cons i todo)
  define st1 where "st1 = snd (init_iface E i st)"
  have init: "init_iface E i st = (iface_add_err E i, st1)"
    unfolding st1_def by (rule init_iface_result(1))
  have frame: "drv st1 = drv st" "base_kset st1 = base_kset st" "\<And>j. j \<noteq> i \<Longrightarrow> ifaces st1 j = ifaces st j"
    by (simp_all add: st1_def init_iface_result(3-5))
  have i: "i \<notin> set installed" "i \<notin> set todo" using Cons.prems(1) by auto
  then have ready1: "\<forall>j \<in> set installed. ready (ifaces st1 j)"
    using Cons.prems(2) frame(3) by metis
  show ?case
  proof (cases "iface_add_err E i = 0")
    case False
    then have "\<not> kobj_live (ifaces st1 i)" by (simp add: st1_def init_iface_result(2))
    then have "\<forall>j. \<not> kobj_live (ifaces (foldl (\<lambda>st i. cleanup_iface ops i st) st1 installed) j)"
      using cleanup_installed [OF ready1, of ops] Cons.prems(3) frame(3) by metis
    then show ?thesis
      using cleanup_installed [OF ready1, of ops] False init frame(1,2) by auto
  next
    case True
    have "\<exists>k \<in> set todo. \<exists>st'. init_ifaces ops E (i # installed) todo st1 = (iface_add_err E k, st') \<and> iface_add_err E k \<noteq> 0 \<and>
        (\<forall>j. \<not> kobj_live (ifaces st' j)) \<and> drv st' = drv st1 \<and> base_kset st' = base_kset st1"
    proof (rule Cons.IH)
      show "\<forall>j \<in> set (i # installed). ready (ifaces st1 j)"
        using ready1 by (simp add: st1_def init_iface_result(2) ready_def)
      show "\<forall>j. kobj_live (ifaces st1 j) \<longrightarrow> j \<in> set (i # installed)"
        using Cons.prems(3) frame(3) by (metis list.set_intros)
    qed (use Cons.prems(1,4) True in auto)
    then show ?thesis using True init frame(1,2) by auto
  qed
qed

lemma hwe_init_sysfs_outcome:
  assumes "\<forall>i. \<not> kobj_live (ifaces st i)"
  shows "if \<not> kset_ok E then hwe_init_sysfs ops E st = (- ENOMEM, st\<lparr>base_kset := False\<rparr>)
    else if \<forall>i. iface_add_err E i = 0
    then \<exists>st'. hwe_init_sysfs ops E st = (0, st') \<and> sysfs_inv st' \<and> base_kset st' \<and> drv st' = drv st \<and>
      (\<forall>i. devs st' i = [] \<and> kobj_live (ifaces st' i))
    else \<exists>i st'. hwe_init_sysfs ops E st = (iface_add_err E i, st') \<and> iface_add_err E i \<noteq> 0 \<and>
      (\<forall>j. \<not> kobj_live (ifaces st' j)) \<and> base_kset st' \<and> drv st' = drv st"
proof -
  let ?st = "st\<lparr>base_kset := True\<rparr>"
  consider "\<not> kset_ok E" | "kset_ok E" "\<forall>i. iface_add_err E i = 0" | k where "kset_ok E" "iface_add_err E k \<noteq> 0"
    by blast
  then show ?thesis
  proof cases
    case 1
    then show ?thesis by (simp add: hwe_init_sysfs_def)
  next
    case 2
    obtain st' where st': "init_ifaces ops E [] all_ifaces ?st = (0, st')" "drv st' = drv ?st" "base_kset st' = base_kset ?st"
      "\<forall>i. ready (ifaces st' i) \<and> kobj_live (ifaces st' i)"
      using init_ifaces_ok [of all_ifaces E ops "[]" ?st] 2 distinct_all_ifaces all_ifaces_UNIV by auto
    then have "sysfs_inv st'" by (simp add: sysfs_inv_def ready_inv) (simp add: ready_def)
    then show ?thesis using 2 st' by (auto simp: hwe_init_sysfs_def ready_def)
  next
    case 3
    then have "\<exists>i \<in> set all_ifaces. iface_add_err E i \<noteq> 0" using all_ifaces_UNIV by blast
    then show ?thesis
      using init_ifaces_fail [of "[]" all_ifaces ?st E ops] 3 assms distinct_all_ifaces
      by (auto simp: hwe_init_sysfs_def)
  qed
qed

definition boot_sysfs :: "'w \<Rightarrow> ('d, 'w) sysfs" where
  "boot_sysfs w = \<lparr>ifaces = (\<lambda>i. \<lparr>dev_list = [], dev_indexes = bitmap_zero HWE_MAX_DEVICES, sem = 0, kobj_live = False\<rparr>),
     drv = w, base_kset = False\<rparr>"

text \<open>C38: the loop that removes the devices of an interface ends. It runs while the list is not empty
  and always takes the first element; on any consistent state it stops after finitely many
  rounds with the list empty and the registry consistent, after calling the driver's \<open>destroy\<close>
  once for each device in the order of the list.\<close>

theorem shutdown_devs_ends:
  assumes "all_inv st"
  shows "\<exists>st'. while_option (\<lambda>st. devs st i \<noteq> []) (\<lambda>st. shutdown_dev ops (hd (devs st i)) st) st = Some st' \<and>
    shutdown_devs ops i st = st' \<and> devs st' i = [] \<and> all_inv st' \<and>
    drv st' = fold (\<lambda>dev. destroy ops i (the (device dev))) (devs st i) (drv st)"
  using shutdown_devs_terminates [where i = i and ops = ops, OF assms] by (auto simp: shutdown_devs_def while_def)

theorem shutdown_devs_ends_witness:
  "\<exists>st'. while_option (\<lambda>st. devs st HWE_TTY \<noteq> [])
      (\<lambda>st. shutdown_dev \<lparr>create = (\<lambda>i n w. (None, w)), destroy = (\<lambda>i d w. w)\<rparr> (hd (devs st HWE_TTY)) st) sample_state = Some st' \<and>
    devs st' HWE_TTY = []"
  using shutdown_devs_ends [OF sysfs_inv_all_inv [OF sample_state_inv], of HWE_TTY
      "\<lparr>create = (\<lambda>i n w. (None, w)), destroy = (\<lambda>i d w. w)\<rparr>"] by blast

lemma cleanup_ifaces:
  assumes "all_inv st" "distinct is"
  shows "all_inv (foldl (\<lambda>st i. cleanup_iface ops i st) st is)"
    "devs (foldl (\<lambda>st i. cleanup_iface ops i st) st is) j = (if j \<in> set is then [] else devs st j)"
    "kobj_live (ifaces (foldl (\<lambda>st i. cleanup_iface ops i st) st is) j) \<longleftrightarrow> kobj_live (ifaces st j) \<and> j \<notin> set is"
    "drv (foldl (\<lambda>st i. cleanup_iface ops i st) st is) =
      fold (\<lambda>i. fold (\<lambda>dev. destroy ops i (the (device dev))) (devs st i)) is (drv st)"
  using assms
proof (induction "is" arbitrary: st)
  case Nil
  {
    case 1 then show ?case by simp
  next
    case 2 then show ?case by simp
  next
    case 3 then show ?case by simp
  next
    case 4 then show ?case by simp
  }
next
  case (Cons i "is")
  {
    case 1
    then show ?case unfolding foldl.simps by (intro Cons.IH(1) cleanup_iface_result(3)) simp_all
  next
    case 2
    then show ?case
      using Cons.IH(2) [of "cleanup_iface ops i st"] cleanup_iface_result(1,3,4) [of st] by (cases "j = i") auto
  next
    case 3
    then show ?case
      using Cons.IH(3) [of "cleanup_iface ops i st"] cleanup_iface_result(2-4) [of st] by (cases "j = i") auto
  next
    case 4
    have "fold (\<lambda>k. fold (\<lambda>dev. destroy ops k (the (device dev))) (devs (cleanup_iface ops i st) k)) is w =
        fold (\<lambda>k. fold (\<lambda>dev. destroy ops k (the (device dev))) (devs st k)) is w" for w
    proof (intro fold_cong refl)
      fix k
      assume "k \<in> set is"
      then have "k \<noteq> i" using 4 by auto
      then show "fold (\<lambda>dev. destroy ops k (the (device dev))) (devs (cleanup_iface ops i st) k) =
          fold (\<lambda>dev. destroy ops k (the (device dev))) (devs st k)"
        using 4 cleanup_iface_result(4) [of st k i ops] by simp
    qed
    then show ?case
      using 4 Cons.IH(4) [of "cleanup_iface ops i st"] cleanup_iface_result(3,6) [of st] by simp
  }
qed

lemma hwe_cleanup_sysfs_removes_all_facts:
  assumes "all_inv st"
  shows "devs (hwe_cleanup_sysfs ops st) j = []" "\<not> kobj_live (ifaces (hwe_cleanup_sysfs ops st) j)"
    "\<not> base_kset (hwe_cleanup_sysfs ops st)"
    "drv (hwe_cleanup_sysfs ops st) =
      fold (\<lambda>i. fold (\<lambda>dev. destroy ops i (the (device dev))) (devs st i)) [HWE_SPI, HWE_NET, HWE_I2C, HWE_TTY] (drv st)"
proof -
  have "distinct (rev all_ifaces)" "set (rev all_ifaces) = UNIV"
    using distinct_all_ifaces all_ifaces_UNIV by simp_all
  note all = cleanup_ifaces [OF assms this(1), of ops, unfolded this(2)]
  have eq: "hwe_cleanup_sysfs ops st = (foldl (\<lambda>st i. cleanup_iface ops i st) st (rev all_ifaces))\<lparr>base_kset := False\<rparr>"
    by (simp add: hwe_cleanup_sysfs_def)
  show "devs (hwe_cleanup_sysfs ops st) j = []" "\<not> kobj_live (ifaces (hwe_cleanup_sysfs ops st) j)"
    "\<not> base_kset (hwe_cleanup_sysfs ops st)"
    unfolding eq using all(2,3) by simp_all
  have order: "[HWE_SPI, HWE_NET, HWE_I2C, HWE_TTY] = rev all_ifaces" by (simp add: all_ifaces_def)
  show "drv (hwe_cleanup_sysfs ops st) =
      fold (\<lambda>i. fold (\<lambda>dev. destroy ops i (the (device dev))) (devs st i)) [HWE_SPI, HWE_NET, HWE_I2C, HWE_TTY] (drv st)"
    unfolding eq order using all(4) by simp
qed

end
