(* ===== verification/Async.thy ===== *)
theory Async
  imports Lifecycle
begin

text \<open>
  Periodic packets (\<open>hwe_async.c\<close>). \<open>timer_func\<close> runs once per jiffy: on every interface it can
  lock without waiting, for every device and every asynchronous pair that is due, it stamps
  the pair and calls the interface's reception handler. \<open>async i d p\<close> is that handler, the
  entry of the table \<open>async_rx[]\<close>; a device without private data would be passed as a null
  pointer. The walk along \<open>find_first_device\<close> and \<open>find_next_device\<close> is the recursion of
  \<open>timer_devs\<close> along the list (\<open>walk_first\<close>, \<open>walk_next\<close>). Jiffies are 64-bit words, compared by
  \<open>time_after_eq\<close>, which reads the difference as signed. The state of the timer is the jiffy it
  expires at, if it is armed.
\<close>

section \<open>The timer\<close>

type_synonym ('d, 'w) async_handler = "HWE_IFACE \<Rightarrow> 'd \<Rightarrow> hwe_pair \<Rightarrow> 'w \<Rightarrow> 'w run"

definition PERIOD :: ulong where
  "PERIOD = 1"

definition time_after_eq :: "ulong \<Rightarrow> ulong \<Rightarrow> bool" where
  "time_after_eq a b \<longleftrightarrow> 0 \<le> sint (a - b)"

definition due :: "ulong \<Rightarrow> hwe_pair \<Rightarrow> ulong" where
  "due jiff p = (if time p \<noteq> 0 then time p + period p else jiff)"

definition fires :: "ulong \<Rightarrow> hwe_pair \<Rightarrow> bool" where
  "fires jiff p \<longleftrightarrow> async_rx p \<and> time_after_eq jiff (due jiff p)"

definition stamped :: "ulong \<Rightarrow> hwe_pair \<Rightarrow> hwe_pair" where
  "stamped jiff p = p\<lparr>time := due jiff p\<rparr>"

fun timer_pairs :: "(hwe_pair \<Rightarrow> 'w \<Rightarrow> 'w run) \<Rightarrow> ulong \<Rightarrow> hwe_pair list \<Rightarrow> 'w \<Rightarrow> (hwe_pair list \<times> 'w) run" where
  "timer_pairs rx jiff [] w = Done ([], w)"
| "timer_pairs rx jiff (p # ps) w =
     (case (if fires jiff p
            then (let p = stamped jiff p
                  in case rx p w of Done w \<Rightarrow> Done (p, w) | Blocked \<Rightarrow> Blocked | Oops \<Rightarrow> Oops)
            else Done (p, w)) of
        Done (p, w) \<Rightarrow>
          (case timer_pairs rx jiff ps w of
             Done (ps, w) \<Rightarrow> Done (p # ps, w) | Blocked \<Rightarrow> Blocked | Oops \<Rightarrow> Oops)
      | Blocked \<Rightarrow> Blocked
      | Oops \<Rightarrow> Oops)"

definition dev_rx :: "('d \<Rightarrow> hwe_pair \<Rightarrow> 'w \<Rightarrow> 'w run) \<Rightarrow> 'd hwe_dev \<Rightarrow> hwe_pair \<Rightarrow> 'w \<Rightarrow> 'w run" where
  "dev_rx rx dev p w = (case device dev of None \<Rightarrow> Oops | Some d \<Rightarrow> rx d p w)"

fun timer_devs :: "('d \<Rightarrow> hwe_pair \<Rightarrow> 'w \<Rightarrow> 'w run) \<Rightarrow> ulong \<Rightarrow> 'd hwe_dev list \<Rightarrow> 'w \<Rightarrow>
    ('d hwe_dev list \<times> 'w) run" where
  "timer_devs rx jiff [] w = Done ([], w)"
| "timer_devs rx jiff (dev # ds) w =
     (case timer_pairs (dev_rx rx dev) jiff (pair_list dev) w of
        Done (ps, w) \<Rightarrow>
          (case timer_devs rx jiff ds w of
             Done (ds, w) \<Rightarrow> Done (dev\<lparr>pair_list := ps\<rparr> # ds, w) | Blocked \<Rightarrow> Blocked | Oops \<Rightarrow> Oops)
      | Blocked \<Rightarrow> Blocked
      | Oops \<Rightarrow> Oops)"

definition timer_iface ::
  "('d, 'w) async_handler \<Rightarrow> ulong \<Rightarrow> HWE_IFACE \<Rightarrow> ('d, 'w) sysfs \<Rightarrow> ('d, 'w) sysfs run" where
  "timer_iface async jiff ifc st =
     (case try_lock_iface_devs ifc st of
        (False, st) \<Rightarrow> Done st
      | (True, st) \<Rightarrow>
          (case timer_devs (async ifc) jiff (devs st ifc) (drv st) of
             Done (ds, w) \<Rightarrow>
               Done (unlock_iface_devs ifc (update_iface ifc (\<lambda>i. i\<lparr>dev_list := ds\<rparr>) (st\<lparr>drv := w\<rparr>)))
           | Blocked \<Rightarrow> Blocked
           | Oops \<Rightarrow> Oops))"

fun timer_ifaces ::
  "('d, 'w) async_handler \<Rightarrow> ulong \<Rightarrow> HWE_IFACE list \<Rightarrow> ('d, 'w) sysfs \<Rightarrow> ('d, 'w) sysfs run" where
  "timer_ifaces async jiff [] st = Done st"
| "timer_ifaces async jiff (ifc # ifcs) st =
     (case timer_iface async jiff ifc st of
        Done st \<Rightarrow> timer_ifaces async jiff ifcs st | Blocked \<Rightarrow> Blocked | Oops \<Rightarrow> Oops)"

text \<open>\<open>jiff\<close> is read at the beginning, \<open>now\<close> when the timer is armed again.\<close>

definition timer_func ::
  "('d, 'w) async_handler \<Rightarrow> ulong \<Rightarrow> ulong \<Rightarrow> ('d, 'w) sysfs \<Rightarrow> (('d, 'w) sysfs \<times> ulong option) run" where
  "timer_func async jiff now st =
     (case timer_ifaces async jiff all_ifaces st of
        Done st \<Rightarrow> Done (st, Some (now + PERIOD)) | Blocked \<Rightarrow> Blocked | Oops \<Rightarrow> Oops)"

definition hwe_init_async :: "ulong \<Rightarrow> int \<times> ulong option" where
  "hwe_init_async now = (0, Some (now + PERIOD))"

definition hwe_cleanup_async :: "ulong option \<Rightarrow> ulong option" where
  "hwe_cleanup_async timer = None"

section \<open>The walk along the device list\<close>

lemma walk_first: "find_first_device i st = (case devs st i of [] \<Rightarrow> None | dev # ds \<Rightarrow> Some dev)"
  by (simp add: find_first_device_def)

lemma walk_next:
  assumes "distinct (map dev_index (devs st i))" "devs st i = xs @ dev # ds"
  shows "find_next_device i dev st = (case ds of [] \<Rightarrow> None | dev' # ds' \<Rightarrow> Some dev')"
proof -
  have "\<forall>d \<in> set xs. dev_index d \<noteq> dev_index dev" using assms by (auto simp: image_iff)
  then have "dropWhile (\<lambda>d. dev_index d \<noteq> dev_index dev) (xs @ dev # ds) = dev # ds"
    by (induction xs) simp_all
  then show ?thesis using assms(2) by (simp add: find_next_device_def)
qed

section \<open>Handlers that return\<close>

text \<open>
  When the handlers return, a tick is a map over the pairs and a fold over the packets that
  are due, in the order of the interfaces, devices and pairs.
\<close>

definition tick_pair :: "ulong \<Rightarrow> hwe_pair \<Rightarrow> hwe_pair" where
  "tick_pair jiff p = (if fires jiff p then stamped jiff p else p)"

definition tick_dev :: "ulong \<Rightarrow> 'd hwe_dev \<Rightarrow> 'd hwe_dev" where
  "tick_dev jiff dev = dev\<lparr>pair_list := map (tick_pair jiff) (pair_list dev)\<rparr>"

definition due_pairs :: "ulong \<Rightarrow> 'd hwe_dev \<Rightarrow> ('d \<times> hwe_pair) list" where
  "due_pairs jiff dev = map (\<lambda>p. (the (device dev), stamped jiff p)) (filter (fires jiff) (pair_list dev))"

definition packets :: "ulong \<Rightarrow> ('d, 'w) sysfs \<Rightarrow> HWE_IFACE \<Rightarrow> ('d \<times> hwe_pair) list" where
  "packets jiff st i = concat (map (due_pairs jiff) (devs st i))"

lemma timer_pairs_total:
  "timer_pairs (\<lambda>p w. Done (f p w)) jiff ps w =
     Done (map (tick_pair jiff) ps, fold f (map (stamped jiff) (filter (fires jiff) ps)) w)"
  by (induction ps arbitrary: w) (simp_all add: tick_pair_def Let_def)

lemma timer_devs_total:
  assumes "\<forall>dev \<in> set ds. device dev \<noteq> None"
  shows "timer_devs (\<lambda>d p w. Done (f d p w)) jiff ds w =
    Done (map (tick_dev jiff) ds, fold (\<lambda>(d, p). f d p) (concat (map (due_pairs jiff) ds)) w)"
  using assms
proof (induction ds arbitrary: w)
  case Nil
  then show ?case by simp
next
  case (Cons dev ds)
  then obtain d where d: "device dev = Some d" by auto
  then have "dev_rx (\<lambda>d p w. Done (f d p w)) dev = (\<lambda>p w. Done (f d p w))"
    using d by (simp add: dev_rx_def fun_eq_iff)
  moreover have "fold (\<lambda>(d, p). f d p) (due_pairs jiff dev) w =
      fold (f d) (map (stamped jiff) (filter (fires jiff) (pair_list dev))) w"
    by (simp add: due_pairs_def d fold_map comp_def)
  ultimately show ?case
    using Cons by (simp add: timer_pairs_total tick_dev_def)
qed

lemma fires_timer: "fires jiff p \<Longrightarrow> async_rx p"
  by (simp add: fires_def)

lemma tick_pair_simps [simp]:
  "index (tick_pair jiff p) = index p" "filename (tick_pair jiff p) = filename p"
  "async_rx (tick_pair jiff p) = async_rx p" "req_bytes (tick_pair jiff p) = req_bytes p"
  "resp_bytes (tick_pair jiff p) = resp_bytes p" "period_ms (tick_pair jiff p) = period_ms p"
  "wf_pair (tick_pair jiff p) = wf_pair p" "view (tick_pair jiff p) = view p"
  by (simp_all add: tick_pair_def stamped_def req_bytes_def resp_bytes_def wf_pair_def pair_buf_ok_def view_def)

lemma tick_dev_simps [simp]:
  "dev_index (tick_dev jiff dev) = dev_index dev" "iface (tick_dev jiff dev) = iface dev"
  "kobj_name (tick_dev jiff dev) = kobj_name dev" "device (tick_dev jiff dev) = device dev"
  by (simp_all add: tick_dev_def)

lemma tick_dev_inv: "dev_inv dev \<Longrightarrow> dev_inv (tick_dev jiff dev)"
  by (simp add: dev_inv_def tick_dev_def no_dup_requests_def filter_map comp_def image_image)

lemma tick_dev_ok: "dev_ok i dev \<Longrightarrow> dev_ok i (tick_dev jiff dev)"
  by (simp add: dev_ok_def tick_dev_inv)

lemma matches_tick [simp]: "matches rq (tick_pair jiff p) = matches rq p"
  by (simp add: matches_def)

lemma find_map: "find P (map f xs) = map_option f (find (P \<circ> f) xs)"
  by (induction xs) simp_all

lemma abs_dev_tick [simp]: "abs_dev (tick_dev jiff dev) = abs_dev dev"
proof -
  have "replies (tick_dev jiff dev) = replies dev"
    by (simp add: replies_def tick_dev_def find_map comp_def fun_eq_iff option.map_comp)
  moreover have "timers (tick_dev jiff dev) = timers dev"
    by (simp add: timers_def tick_dev_def filter_mset_image_mset comp_def image_mset.compositionality)
  ultimately show ?thesis by (simp add: abs_dev_def)
qed

definition tick_iface :: "ulong \<Rightarrow> 'd hwe_iface \<Rightarrow> 'd hwe_iface" where
  "tick_iface jiff ifc = (if sem ifc = 0 then ifc else ifc\<lparr>dev_list := map (tick_dev jiff) (dev_list ifc)\<rparr>)"

lemma tick_iface_inv: "iface_inv i ifc \<Longrightarrow> iface_inv i (tick_iface jiff ifc)"
  by (auto simp: iface_inv_def tick_iface_def tick_dev_ok comp_def image_image)

text \<open>A tick of one interface.\<close>

lemma timer_iface_total:
  assumes "\<forall>dev \<in> set (devs st i). device dev \<noteq> None"
  shows "timer_iface (\<lambda>i d p w. Done (f i d p w)) jiff i st =
    Done (update_iface i (tick_iface jiff)
      (st\<lparr>drv := if sem (ifaces st i) = 0 then drv st else fold (\<lambda>(d, p). f i d p) (packets jiff st i) (drv st)\<rparr>))"
proof (cases "sem (ifaces st i) = 0")
  case True
  then show ?thesis
    by (simp add: timer_iface_def try_lock_iface_devs_def update_iface_same tick_iface_def)
next
  case False
  define st1 where "st1 = update_iface i (\<lambda>ifc. ifc\<lparr>sem := sem ifc - 1\<rparr>) st"
  have st1: "try_lock_iface_devs i st = (True, st1)" "devs st1 i = devs st i" "drv st1 = drv st"
    using False by (simp_all add: try_lock_iface_devs_def st1_def)
  have run: "timer_devs (\<lambda>d p w. Done (f i d p w)) jiff (devs st1 i) (drv st1) =
      Done (map (tick_dev jiff) (devs st i), fold (\<lambda>(d, p). f i d p) (packets jiff st i) (drv st))"
    using timer_devs_total [OF assms] by (simp add: st1 packets_def)
  have "update_iface i (\<lambda>ifc. ifc\<lparr>dev_list := map (tick_dev jiff) (devs st i), sem := Suc (sem ifc - 1)\<rparr>) st =
      update_iface i (tick_iface jiff) st"
    using False by (intro update_iface_cong) (simp add: tick_iface_def)
  then show ?thesis
    using False by (simp add: timer_iface_def st1(1) run) (simp add: st1_def unlock_iface_devs_def)
qed

text \<open>Whatever the handlers do, a tick that returns has stamped the pairs in this way.\<close>

lemma timer_pairs_Done:
  "timer_pairs rx jiff ps w = Done (ps', w') \<Longrightarrow> ps' = map (tick_pair jiff) ps"
  by (induction ps arbitrary: w ps') (auto simp: tick_pair_def Let_def split: if_splits run.splits)

lemma timer_devs_Done:
  "timer_devs rx jiff ds w = Done (ds', w') \<Longrightarrow> ds' = map (tick_dev jiff) ds"
  by (induction ds arbitrary: w ds') (auto simp: tick_dev_def dest: timer_pairs_Done split: run.splits)

lemma timer_pairs_drv:
  assumes "timer_pairs rx jiff ps w = Done (ps', w')" "P w" "list_all Q ps"
    "\<And>p v v'. P v \<Longrightarrow> Q p \<Longrightarrow> rx (stamped jiff p) v = Done v' \<Longrightarrow> P v'"
  shows "P w'"
  using assms(1-3)
proof (induction ps arbitrary: w ps')
  case (Cons p ps)
  show ?case
  proof (cases "fires jiff p")
    case True
    then obtain v ps2 where "rx (stamped jiff p) w = Done v" "timer_pairs rx jiff ps v = Done (ps2, w')"
      using Cons.prems(1) by (auto simp: Let_def split: run.splits)
    then show ?thesis using Cons.IH Cons.prems(2,3) assms(4) by auto
  next
    case False
    then show ?thesis using Cons by (auto split: run.splits)
  qed
qed simp

lemma timer_devs_drv:
  assumes "timer_devs rx jiff ds w = Done (ds', w')" "P w" "list_all Q ds"
    "\<And>dev d p v v'. P v \<Longrightarrow> Q dev \<Longrightarrow> device dev = Some d \<Longrightarrow> p \<in> set (pair_list dev) \<Longrightarrow>
      rx d (stamped jiff p) v = Done v' \<Longrightarrow> P v'"
  shows "P w'"
  using assms(1-3)
proof (induction ds arbitrary: w ds')
  case (Cons dev ds)
  obtain ps v ds2 where run: "timer_pairs (dev_rx rx dev) jiff (pair_list dev) w = Done (ps, v)"
    "timer_devs rx jiff ds v = Done (ds2, w')"
    using Cons.prems(1) by (auto split: run.splits)
  have step: "P v2" if "P v1" "p \<in> set (pair_list dev)" "dev_rx rx dev (stamped jiff p) v1 = Done v2" for v1 v2 p
    using that Cons.prems(3) assms(4) by (cases "device dev") (auto simp: dev_rx_def)
  have "P v"
    by (rule timer_pairs_drv [where P = P and Q = "\<lambda>p. p \<in> set (pair_list dev)", OF run(1) Cons.prems(2)])
      (simp_all add: list_all_iff, rule step)
  then show ?case using Cons.IH [OF run(2)] Cons.prems(3) by simp
qed simp

lemma timer_iface_Done:
  assumes "timer_iface async jiff i st = Done st'"
  shows "st' = (update_iface i (tick_iface jiff) st)\<lparr>drv := drv st'\<rparr>"
proof (cases "sem (ifaces st i) = 0")
  case True
  then show ?thesis
    using assms by (simp add: timer_iface_def try_lock_iface_devs_def update_iface_same tick_iface_def)
next
  case False
  define st1 where "st1 = update_iface i (\<lambda>ifc. ifc\<lparr>sem := sem ifc - 1\<rparr>) st"
  have st1: "try_lock_iface_devs i st = (True, st1)" "devs st1 i = devs st i"
    using False by (simp_all add: try_lock_iface_devs_def st1_def)
  have eq: "update_iface i (\<lambda>ifc. ifc\<lparr>dev_list := map (tick_dev jiff) (devs st i), sem := Suc (sem ifc - 1)\<rparr>) st =
      update_iface i (tick_iface jiff) st"
    using False by (intro update_iface_cong) (simp add: tick_iface_def)
  show ?thesis
  proof (cases "timer_devs (async i) jiff (devs st i) (drv st1)")
    case (Done r)
    then obtain w where run: "timer_devs (async i) jiff (devs st i) (drv st1) = Done (map (tick_dev jiff) (devs st i), w)"
      using timer_devs_Done by (cases r) fastforce
    have "st' = unlock_iface_devs i (update_iface i (\<lambda>ifc. ifc\<lparr>dev_list := map (tick_dev jiff) (devs st i)\<rparr>) (st1\<lparr>drv := w\<rparr>))"
      using assms by (simp add: timer_iface_def st1 run)
    then show ?thesis using eq by (simp add: st1_def unlock_iface_devs_def)
  qed (use assms in \<open>simp_all add: timer_iface_def st1\<close>)
qed

lemma timer_iface_drv:
  assumes "timer_iface async jiff i st = Done st'" "P (drv st)"
    "\<And>dev d p v v'. P v \<Longrightarrow> dev \<in> set (devs st i) \<Longrightarrow> device dev = Some d \<Longrightarrow> p \<in> set (pair_list dev) \<Longrightarrow>
      async i d (stamped jiff p) v = Done v' \<Longrightarrow> P v'"
  shows "P (drv st')"
proof (cases "sem (ifaces st i) = 0")
  case True
  then show ?thesis using assms(1,2) by (simp add: timer_iface_def try_lock_iface_devs_def)
next
  case False
  then obtain ds w where run: "timer_devs (async i) jiff (devs st i) (drv st) = Done (ds, w)" "drv st' = w"
    using assms(1) by (auto simp: timer_iface_def try_lock_iface_devs_def unlock_iface_devs_def split: run.splits)
  have "P w"
    by (rule timer_devs_drv [where P = P and Q = "\<lambda>dev. dev \<in> set (devs st i)", OF run(1) assms(2)])
      (simp_all add: list_all_iff, rule assms(3))
  then show ?thesis using run(2) by simp
qed

text \<open>If every handler that can be called returns, the tick returns.\<close>

lemma timer_pairs_runs:
  assumes "P w" "\<And>p v. p \<in> set ps \<Longrightarrow> P v \<Longrightarrow> \<exists>v'. rx (stamped jiff p) v = Done v' \<and> P v'"
  shows "\<exists>ps' w'. timer_pairs rx jiff ps w = Done (ps', w') \<and> P w'"
  using assms
proof (induction ps arbitrary: w)
  case (Cons p ps)
  obtain v where v: "(if fires jiff p then rx (stamped jiff p) w else Done w) = Done v" "P v"
    using Cons.prems(1) Cons.prems(2) [of p w] by (cases "fires jiff p") auto
  obtain ps' w' where "timer_pairs rx jiff ps v = Done (ps', w')" "P w'"
    using Cons.IH [OF v(2)] Cons.prems(2) by fastforce
  then show ?case using v by (cases "fires jiff p") simp_all
qed simp

lemma timer_devs_runs:
  assumes "P w" "\<And>dev. dev \<in> set ds \<Longrightarrow> device dev \<noteq> None"
    "\<And>dev d p v. dev \<in> set ds \<Longrightarrow> device dev = Some d \<Longrightarrow> p \<in> set (pair_list dev) \<Longrightarrow> P v \<Longrightarrow>
      \<exists>v'. rx d (stamped jiff p) v = Done v' \<and> P v'"
  shows "\<exists>ds' w'. timer_devs rx jiff ds w = Done (ds', w') \<and> P w'"
  using assms
proof (induction ds arbitrary: w)
  case (Cons dev ds)
  obtain d where d: "device dev = Some d" using Cons.prems(2) [of dev] by auto
  have "\<exists>ps v. timer_pairs (dev_rx rx dev) jiff (pair_list dev) w = Done (ps, v) \<and> P v"
    by (rule timer_pairs_runs [where P = P, OF Cons.prems(1)])
      (unfold dev_rx_def d option.case, rule Cons.prems(3) [OF _ d], simp_all)
  then obtain ps v where v: "timer_pairs (dev_rx rx dev) jiff (pair_list dev) w = Done (ps, v)" "P v" by blast
  obtain ds' w' where "timer_devs rx jiff ds v = Done (ds', w')" "P w'"
    using Cons.IH [OF v(2)] Cons.prems(2,3) by fastforce
  then show ?case using v by simp
qed simp

lemma timer_iface_runs:
  assumes "P (drv st)" "\<And>dev. dev \<in> set (devs st i) \<Longrightarrow> device dev \<noteq> None"
    "\<And>dev d p v. dev \<in> set (devs st i) \<Longrightarrow> device dev = Some d \<Longrightarrow> p \<in> set (pair_list dev) \<Longrightarrow> P v \<Longrightarrow>
      \<exists>v'. async i d (stamped jiff p) v = Done v' \<and> P v'"
  shows "\<exists>st'. timer_iface async jiff i st = Done st' \<and> P (drv st')"
proof -
  have "\<exists>ds w. timer_devs (async i) jiff (devs st i) (drv st) = Done (ds, w) \<and> P w"
    by (rule timer_devs_runs [where P = P and ds = "devs st i" and rx = "async i", OF assms])
  then show ?thesis
    using assms(1) by (auto simp: timer_iface_def try_lock_iface_devs_def unlock_iface_devs_def)
qed

section \<open>A whole tick\<close>

definition ticked :: "ulong \<Rightarrow> HWE_IFACE set \<Rightarrow> ('d, 'w) sysfs \<Rightarrow> HWE_IFACE \<Rightarrow> 'd hwe_iface" where
  "ticked jiff I st i = (if i \<in> I then tick_iface jiff (ifaces st i) else ifaces st i)"

definition due_packets :: "ulong \<Rightarrow> ('d, 'w) sysfs \<Rightarrow> HWE_IFACE \<Rightarrow> (HWE_IFACE \<times> 'd \<times> hwe_pair) list" where
  "due_packets jiff st i = (if sem (ifaces st i) = 0 then [] else map (Pair i) (packets jiff st i))"

lemma timer_ifaces_Done:
  assumes "timer_ifaces async jiff ifcs st = Done st'" "distinct ifcs"
  shows "ifaces st' = ticked jiff (set ifcs) st \<and> base_kset st' = base_kset st"
  using assms
proof (induction ifcs arbitrary: st)
  case Nil
  then show ?case by (simp add: ticked_def fun_eq_iff)
next
  case (Cons i ifcs)
  then obtain st1 where st1: "timer_iface async jiff i st = Done st1" "timer_ifaces async jiff ifcs st1 = Done st'"
    by (auto split: run.splits)
  have eq: "st1 = (update_iface i (tick_iface jiff) st)\<lparr>drv := drv st1\<rparr>" by (rule timer_iface_Done [OF st1(1)])
  have "ifaces st1 = (ifaces st)(i := tick_iface jiff (ifaces st i))" "base_kset st1 = base_kset st"
    by (subst eq, simp add: update_iface_def)+
  then show ?case using Cons.IH [OF st1(2)] Cons.prems(2) by (auto simp: ticked_def fun_eq_iff)
qed

lemma timer_ifaces_drv:
  assumes "timer_ifaces async jiff ifcs st = Done st'" "distinct ifcs" "P (drv st)"
    "\<And>i dev d p v v'. P v \<Longrightarrow> i \<in> set ifcs \<Longrightarrow> dev \<in> set (devs st i) \<Longrightarrow> device dev = Some d \<Longrightarrow>
      p \<in> set (pair_list dev) \<Longrightarrow> async i d (stamped jiff p) v = Done v' \<Longrightarrow> P v'"
  shows "P (drv st')"
  using assms
proof (induction ifcs arbitrary: st)
  case (Cons i ifcs)
  obtain st1 where st1: "timer_iface async jiff i st = Done st1" "timer_ifaces async jiff ifcs st1 = Done st'"
    using Cons.prems(1) by (auto split: run.splits)
  have eq: "st1 = (update_iface i (tick_iface jiff) st)\<lparr>drv := drv st1\<rparr>" by (rule timer_iface_Done [OF st1(1)])
  have P1: "P (drv st1)"
    by (rule timer_iface_drv [where P = P, OF st1(1) Cons.prems(3)]) (rule Cons.prems(4), simp_all)
  have keep: "devs st1 j = devs st j" if "j \<in> set ifcs" for j
    using Cons.prems(2) that by (subst eq, cases "j = i") simp_all
  have distinct: "distinct ifcs" using Cons.prems(2) by simp
  have "P v'"
    if "P v" "j \<in> set ifcs" "dev \<in> set (devs st1 j)" "device dev = Some d" "p \<in> set (pair_list dev)"
      "async j d (stamped jiff p) v = Done v'" for j dev d p v v'
    using Cons.prems(4) [of v j dev d p v'] that keep by simp
  then show ?case by (rule Cons.IH [OF st1(2) distinct P1])
qed simp

lemma timer_ifaces_runs:
  assumes "distinct ifcs" "P (drv st)" "\<And>i dev. dev \<in> set (devs st i) \<Longrightarrow> device dev \<noteq> None"
    "\<And>i dev d p v. dev \<in> set (devs st i) \<Longrightarrow> device dev = Some d \<Longrightarrow> p \<in> set (pair_list dev) \<Longrightarrow> P v \<Longrightarrow>
      i \<in> set ifcs \<Longrightarrow> \<exists>v'. async i d (stamped jiff p) v = Done v' \<and> P v'"
  shows "\<exists>st'. timer_ifaces async jiff ifcs st = Done st'"
  using assms
proof (induction ifcs arbitrary: st)
  case (Cons i ifcs)
  have "\<exists>st1. timer_iface async jiff i st = Done st1 \<and> P (drv st1)"
    by (rule timer_iface_runs [where P = P, OF Cons.prems(2,3)]) (assumption, rule Cons.prems(4), simp_all)
  then obtain st1 where st1: "timer_iface async jiff i st = Done st1" "P (drv st1)" by blast
  have eq: "st1 = (update_iface i (tick_iface jiff) st)\<lparr>drv := drv st1\<rparr>" by (rule timer_iface_Done [OF st1(1)])
  have keep: "devs st1 j = devs st j" if "j \<noteq> i" for j using that by (subst eq) simp
  have "device dev \<noteq> None" if "dev \<in> set (devs st1 j)" for j dev
  proof (cases "j = i")
    case True
    have "devs st1 i = dev_list (tick_iface jiff (ifaces st i))" by (subst eq) simp
    then show ?thesis using that True Cons.prems(3) by (auto simp: tick_iface_def split: if_splits)
  next
    case False
    then show ?thesis using that keep Cons.prems(3) by simp
  qed
  moreover have "\<exists>v'. async j d (stamped jiff p) v = Done v' \<and> P v'"
    if "dev \<in> set (devs st1 j)" "device dev = Some d" "p \<in> set (pair_list dev)" "P v" "j \<in> set ifcs" for j dev d p v
  proof -
    have "j \<noteq> i" using that(5) Cons.prems(1) by auto
    then show ?thesis using that keep Cons.prems(4) by simp
  qed
  ultimately have "\<exists>st'. timer_ifaces async jiff ifcs st1 = Done st'"
    using Cons.prems(1) by (intro Cons.IH [OF _ st1(2)]) simp_all
  then show ?case using st1(1) by simp
qed simp

lemma timer_ifaces_total:
  assumes "\<forall>i \<in> set ifcs. \<forall>dev \<in> set (devs st i). device dev \<noteq> None" "distinct ifcs"
  shows "timer_ifaces (\<lambda>i d p w. Done (f i d p w)) jiff ifcs st =
    Done (st\<lparr>ifaces := ticked jiff (set ifcs) st,
      drv := fold (\<lambda>(i, d, p). f i d p) (concat (map (due_packets jiff st) ifcs)) (drv st)\<rparr>)"
  using assms
proof (induction ifcs arbitrary: st)
  case Nil
  have "ticked jiff {} st = ifaces st" by (simp add: ticked_def fun_eq_iff)
  then show ?case by simp
next
  case (Cons i ifcs)
  define w where "w = (if sem (ifaces st i) = 0 then drv st else fold (\<lambda>(d, p). f i d p) (packets jiff st i) (drv st))"
  define st1 where "st1 = update_iface i (tick_iface jiff) (st\<lparr>drv := w\<rparr>)"
  have run: "timer_iface (\<lambda>i d p w. Done (f i d p w)) jiff i st = Done st1"
    using timer_iface_total [of st i f jiff] Cons.prems(1) by (simp add: st1_def w_def)
  have keep: "ifaces st1 j = ifaces st j" if "j \<in> set ifcs" for j
    using Cons.prems(2) that by (cases "j = i") (simp_all add: st1_def)
  then have due: "map (due_packets jiff st1) ifcs = map (due_packets jiff st) ifcs"
    by (simp add: due_packets_def packets_def)
  have w: "w = fold (\<lambda>(i, d, p). f i d p) (due_packets jiff st i) (drv st)"
    by (simp add: w_def due_packets_def fold_map comp_def)
  have "ticked jiff (set ifcs) st1 = ticked jiff (set (i # ifcs)) st"
    using Cons.prems(2) by (auto simp: ticked_def fun_eq_iff st1_def update_iface_def)
  moreover have "drv st1 = w" "st1\<lparr>ifaces := x, drv := y\<rparr> = st\<lparr>ifaces := x, drv := y\<rparr>" for x y
    by (simp_all add: st1_def update_iface_def)
  ultimately show ?case
    using Cons.IH [of st1] Cons.prems keep run by (simp add: due w)
qed

lemma ticked_all_inv:
  assumes "\<forall>i. iface_inv i (ifaces st i)" "ifaces st' = ticked jiff I st"
  shows "iface_inv i (ifaces st' i)" "sem (ifaces st' i) = sem (ifaces st i)"
    "kobj_live (ifaces st' i) = kobj_live (ifaces st i)"
    "abs_state st' = abs_state st"
proof -
  show "iface_inv i (ifaces st' i)" "sem (ifaces st' i) = sem (ifaces st i)"
    "kobj_live (ifaces st' i) = kobj_live (ifaces st i)"
    using assms by (simp_all add: ticked_def tick_iface_inv) (simp_all add: tick_iface_def)
  have "map_option abs_dev (find_device_by_index j n st') = map_option abs_dev (find_device_by_index j n st)" for j n
    using assms(2) by (simp add: find_device_by_index_def ticked_def tick_iface_def find_map comp_def option.map_comp)
  then show "abs_state st' = abs_state st" by (simp add: abs_state_def fun_eq_iff)
qed

lemma tick_keeps_inv:
  assumes "sysfs_inv st" "timer_func async jiff now st = Done (st', t)"
  shows "sysfs_inv st'" "abs_state st' = abs_state st" "t = Some (now + PERIOD)"
proof -
  have run: "timer_ifaces async jiff all_ifaces st = Done st'" and t: "t = Some (now + PERIOD)"
    using assms(2) by (auto simp: timer_func_def split: run.splits)
  have "ifaces st' = ticked jiff (set all_ifaces) st"
    using timer_ifaces_Done [OF run distinct_all_ifaces] by simp
  then show "sysfs_inv st'" "abs_state st' = abs_state st"
    using ticked_all_inv [of st st'] assms(1) by (simp_all add: sysfs_inv_def)
  show "t = Some (now + PERIOD)" by (rule t)
qed

lemma inv_devices: "sysfs_inv st \<Longrightarrow> dev \<in> set (devs st i) \<Longrightarrow> device dev \<noteq> None"
  by (auto simp: sysfs_inv_def iface_inv_def dev_ok_def)


text \<open>A terminal with one periodic pair.\<close>

definition timer_dev :: "unit hwe_dev" where
  "timer_dev = add_new_pair (made_dev HWE_TTY 0 ()) (numbered sample_timer 0)"

definition timer_state :: "(unit, (HWE_IFACE \<times> byte list) list) sysfs" where
  "timer_state = added HWE_TTY timer_dev (empty_sysfs [])"

lemma timer_dev_ok: "dev_ok HWE_TTY timer_dev" "dev_index timer_dev = 0"
  using sample_timer_wf unfolding timer_dev_def by (intro one_pair_dev_ok, simp_all add: view_def)

lemma timer_state_inv: "sysfs_inv timer_state"
  unfolding timer_state_def by (rule one_dev_state_inv [OF timer_dev_ok])

lemma timer_state_devs: "devs timer_state i = (if i = HWE_TTY then [timer_dev] else [])"
  "drv timer_state = []"
  by (simp_all add: timer_state_def added_def update_iface_def empty_sysfs_def empty_iface_def)

lemma timer_dev_pairs: "pair_list timer_dev = [numbered sample_timer 0]" "device timer_dev = Some ()"
  by (simp_all add: timer_dev_def add_new_pair_def made_dev_def)


section \<open>The schedule of one pair\<close>

fun run_ticks :: "ulong list \<Rightarrow> hwe_pair \<Rightarrow> hwe_pair" where
  "run_ticks [] p = p"
| "run_ticks (j # js) p = run_ticks js (tick_pair j p)"

fun firing_times :: "ulong list \<Rightarrow> hwe_pair \<Rightarrow> ulong list" where
  "firing_times [] p = []"
| "firing_times (j # js) p = (if fires j p then [j] else []) @ firing_times js (tick_pair j p)"

lemma run_ticks_append: "run_ticks (xs @ ys) p = run_ticks ys (run_ticks xs p)"
  by (induction xs arbitrary: p) simp_all

lemma firing_times_append:
  "firing_times (xs @ ys) p = firing_times xs p @ firing_times ys (run_ticks xs p)"
  by (induction xs arbitrary: p) simp_all

lemma period_tick [simp]: "period (tick_pair j p) = period p"
  by (simp add: tick_pair_def stamped_def)

lemma run_ticks_simps [simp]: "period (run_ticks js p) = period p" "async_rx (run_ticks js p) = async_rx p"
  by (induction js arbitrary: p) simp_all

text \<open>The comparison of jiffies, when the two are less than \<open>2 ^ 63\<close> apart.\<close>

lemma time_after_eq_iff:
  assumes "a < b + 2 ^ 63" "b \<le> a + 2 ^ 63"
  shows "time_after_eq (of_nat a) (of_nat b) \<longleftrightarrow> b \<le> a"
proof -
  have eq: "(of_nat a :: ulong) - of_nat b = word_of_int (int a - int b)" by simp
  have "sint (word_of_int (int a - int b) :: ulong) = int a - int b"
    using assms by (subst sint_sbintrunc') (simp add: signed_take_bit_int_eq_self)
  then show ?thesis by (simp add: time_after_eq_def eq del: of_int_diff)
qed

lemma fires_new: "async_rx p \<Longrightarrow> time p = 0 \<Longrightarrow> fires j p"
  by (simp add: fires_def due_def time_after_eq_def)

lemma of_nat_ulong_0: "n < 2 ^ 64 \<Longrightarrow> (of_nat n :: ulong) = 0 \<longleftrightarrow> n = 0"
  by (auto simp: word_of_nat_eq_0_iff dest: dvd_imp_le)

text \<open>The next tick of a pair that has been stamped.\<close>

lemma tick_stamped:
  assumes "async_rx p" "time p = of_nat t" "0 < t" "t \<le> j" "j < 2 ^ 63" "unat (period p) < 2 ^ 63"
  shows "fires (of_nat j) p \<longleftrightarrow> t + unat (period p) \<le> j"
    "time (tick_pair (of_nat j) p) = of_nat (if t + unat (period p) \<le> j then t + unat (period p) else t)"
proof -
  have nz: "(of_nat t :: ulong) \<noteq> 0" using assms of_nat_ulong_0 [of t] by simp
  have due: "due (of_nat j) p = of_nat (t + unat (period p))" using nz assms(2) by (simp add: due_def)
  have "time_after_eq (of_nat j) (of_nat (t + unat (period p))) \<longleftrightarrow> t + unat (period p) \<le> j"
    using assms by (intro time_after_eq_iff) simp_all
  then show fires: "fires (of_nat j) p \<longleftrightarrow> t + unat (period p) \<le> j" using assms(1) by (simp add: fires_def due)
  show "time (tick_pair (of_nat j) p) = of_nat (if t + unat (period p) \<le> j then t + unat (period p) else t)"
    using fires assms(2) due by (simp add: tick_pair_def stamped_def)
qed

lemma schedule_step:
  fixes P :: nat
  assumes "0 < P" "0 < k"
  shows "P * ((k - 1) div P) + P \<le> k \<longleftrightarrow> P dvd k"
    "P * (k div P) = (if P dvd k then P * ((k - 1) div P) + P else P * ((k - 1) div P))"
proof -
  have k: "k div P = (if P dvd k then Suc ((k - 1) div P) else (k - 1) div P)"
    using div_Suc [of "k - 1" P] assms by (auto simp: dvd_eq_mod_eq_0)
  then show "P * (k div P) = (if P dvd k then P * ((k - 1) div P) + P else P * ((k - 1) div P))" by simp
  have "(k - 1) div P * P + P \<le> k \<longleftrightarrow> Suc ((k - 1) div P) \<le> k div P"
    using assms(1) less_eq_div_iff_mult_less_eq [of P "Suc ((k - 1) div P)" k] by (simp add: add.commute)
  then show "P * ((k - 1) div P) + P \<le> k \<longleftrightarrow> P dvd k" using k by (simp add: mult.commute)
qed

lemma every_tick:
  assumes "async_rx p" "time p = 0" "0 < unat (period p)" "unat (period p) < 2 ^ 63" "0 < j" "j + k \<le> 2 ^ 63"
  shows "(0 < k \<longrightarrow> time (run_ticks (map of_nat [j..<j + k]) p) =
      of_nat (j + unat (period p) * ((k - 1) div unat (period p)))) \<and>
    firing_times (map of_nat [j..<j + k]) p = map of_nat (filter (\<lambda>t. unat (period p) dvd t - j) [j..<j + k])"
  using assms(6)
proof (induction k)
  case 0
  then show ?case by simp
next
  case (Suc k)
  define P where "P = unat (period p)"
  define q where "q = run_ticks (map of_nat [j..<j + k]) p"
  have run: "run_ticks (map of_nat [j..<j + Suc k]) p = tick_pair (of_nat (j + k)) q"
    "firing_times (map of_nat [j..<j + Suc k]) p = firing_times (map of_nat [j..<j + k]) p @
       (if fires (of_nat (j + k)) q then [of_nat (j + k)] else [])"
    by (simp_all add: run_ticks_append firing_times_append q_def)
  show ?case
  proof (cases "k = 0")
    case True
    then have "q = p" by (simp add: q_def)
    then have "fires (of_nat (j + k)) q" "time (tick_pair (of_nat (j + k)) q) = of_nat (j + k)"
      using fires_new [of p] assms(1,2) by (simp_all add: tick_pair_def stamped_def due_def)
    then show ?thesis using run Suc.IH Suc.prems True by simp
  next
    case False
    define t where "t = j + P * ((k - 1) div P)"
    have t: "time q = of_nat t" using Suc.IH Suc.prems False by (simp add: q_def t_def P_def)
    have bounds: "0 < t" "t \<le> j + k"
      using assms(5) div_times_less_eq_dividend [of "k - 1" P] unfolding t_def mult.commute [of P] by linarith+
    have eqs: "t + P \<le> j + k \<longleftrightarrow> P dvd k" "j + P * (k div P) = (if P dvd k then t + P else t)"
      using schedule_step [of P k] assms(3) False by (simp_all add: t_def P_def)
    have "fires (of_nat (j + k)) q \<longleftrightarrow> P dvd k"
      "time (tick_pair (of_nat (j + k)) q) = of_nat (j + P * (k div P))"
      using tick_stamped [of q t "j + k"] t bounds eqs Suc.prems assms by (simp_all add: q_def P_def)
    then show ?thesis using run Suc.IH Suc.prems by (simp add: P_def)
  qed
qed

text \<open>C21: the schedule of a periodic pair. When the timer runs at every jiffy from the pair's first
  tick on, the pair fires at that first tick and then exactly every \<open>period\<close> jiffies, at no other
  tick.\<close>

theorem timer_exact_schedule:
  assumes "async_rx p" "time p = 0" "0 < unat (period p)" "unat (period p) < 2 ^ 63" "0 < j" "j + k \<le> 2 ^ 63"
  shows "firing_times (map of_nat [j..<j + k]) p = map of_nat (filter (\<lambda>t. unat (period p) dvd t - j) [j..<j + k])"
  using every_tick [OF assms] by simp

theorem timer_exact_schedule_witness:
  "firing_times (map of_nat [7..<7 + 5]) (sample_timer\<lparr>period := 2\<rparr>) = [7, 9, 11]"
proof -
  have "[7..<7 + 5] = [7, 8, 9, 10, 11 :: nat]" by (simp add: upt_rec)
  then show ?thesis
    using timer_exact_schedule [of "sample_timer\<lparr>period := 2\<rparr>" 7 5]
    by (simp add: sample_timer_def sample_pair_def)
qed

lemma late_ticks:
  assumes "async_rx p" "time p = 0" "0 < unat (period p)" "unat (period p) < 2 ^ 63"
    "js \<noteq> []" "sorted_wrt (<) js" "\<forall>j \<in> set js. 0 < j \<and> j < 2 ^ 63"
  shows "\<exists>n. length (firing_times (map of_nat js) p) = Suc n \<and>
    time (run_ticks (map of_nat js) p) = of_nat (hd js + n * unat (period p)) \<and> hd js + n * unat (period p) \<le> last js"
  using assms(5-7)
proof (induction js rule: rev_nonempty_induct)
  case (single j)
  then show ?case
    using fires_new [of p] assms(1,2) by (intro exI [of _ 0]) (simp add: tick_pair_def stamped_def due_def)
next
  case (snoc j js)
  define P where "P = unat (period p)"
  define q where "q = run_ticks (map of_nat js) p"
  obtain n where n: "length (firing_times (map of_nat js) p) = Suc n" "time q = of_nat (hd js + n * P)"
      "hd js + n * P \<le> last js"
    using snoc by (auto simp: sorted_wrt_append q_def P_def)
  have "0 < hd js" "last js < j" "j < 2 ^ 63"
    using snoc.prems snoc.hyps by (auto simp: sorted_wrt_append)
  then have "fires (of_nat j) q \<longleftrightarrow> hd js + n * P + P \<le> j"
    "time (tick_pair (of_nat j) q) = of_nat (if hd js + n * P + P \<le> j then hd js + n * P + P else hd js + n * P)"
    using tick_stamped [of q "hd js + n * P" j] n assms by (simp_all add: q_def P_def)
  then show ?case
    using n snoc.hyps \<open>last js < j\<close>
    by (intro exI [of _ "if hd js + n * P + P \<le> j then Suc n else n"])
      (simp add: run_ticks_append firing_times_append q_def [symmetric] P_def [symmetric] algebra_simps)
qed

text \<open>C22: a periodic pair never drifts and never fires early, even when ticks are missed. Over any increasing
  sequence of ticks, the stamp after \<open>n\<close> packets is exactly \<open>n - 1\<close> periods after the first tick, so
  the packets never exceed one plus the whole periods that have passed, and a late packet does
  not delay the following ones.\<close>

theorem timer_no_drift:
  assumes "async_rx p" "time p = 0" "0 < unat (period p)" "unat (period p) < 2 ^ 63"
    "js \<noteq> []" "sorted_wrt (<) js" "\<forall>j \<in> set js. 0 < j \<and> j < 2 ^ 63"
  shows "time (run_ticks (map of_nat js) p) =
      of_nat (hd js + (length (firing_times (map of_nat js) p) - 1) * unat (period p)) \<and>
    length (firing_times (map of_nat js) p) \<le> 1 + (last js - hd js) div unat (period p)"
proof -
  obtain n where n: "length (firing_times (map of_nat js) p) = Suc n"
    "time (run_ticks (map of_nat js) p) = of_nat (hd js + n * unat (period p))" "hd js + n * unat (period p) \<le> last js"
    using late_ticks [OF assms] by blast
  have "n \<le> (last js - hd js) div unat (period p)"
    using n(3) assms(3) by (simp add: less_eq_div_iff_mult_less_eq)
  then show ?thesis using n by simp
qed

theorem timer_no_drift_witness:
  "time (run_ticks (map of_nat [7, 12, 13]) (sample_timer\<lparr>period := 2\<rparr>)) =
      of_nat (hd [7, 12, 13] + (length (firing_times (map of_nat [7, 12, 13]) (sample_timer\<lparr>period := 2\<rparr>)) - 1) * 2) \<and>
    length (firing_times (map of_nat [7, 12, 13]) (sample_timer\<lparr>period := 2\<rparr>)) \<le> 1 + (13 - 7) div 2"
  using timer_no_drift [of "sample_timer\<lparr>period := 2\<rparr>" "[7, 12, 13]"]
  by (simp add: sample_timer_def sample_pair_def)

end
