(* ===== verification/Drivers.thy ===== *)
theory Drivers
  imports Tty_Net Async
begin

text \<open>
  The four drivers together. \<open>drivers\<close> is their state; \<open>dev_ops_table\<close> is the table \<open>dev_ops[]\<close> of
  \<open>hwe_sysfs.c\<close> and \<open>async_rx_table\<close> the table \<open>async_rx[]\<close> of \<open>hwe_async.c\<close>, both in the order of the
  enumeration. The pointer \<open>hwedev\<close> that a driver keeps to the device of the registry is the index of
  that device on its interface.

  The locale \<open>driver\<close> is the contract between the registry and a driver: \<open>owner\<close> gives, for each
  live handle, the device it serves; \<open>create\<close> installs a handle that was not live or changes
  nothing, \<open>destroy\<close> removes one. It is interpreted on each of the four drivers and then on the
  table; \<open>linked\<close>, the agreement of the registry with the drivers, rests on it.
\<close>

section \<open>The tables\<close>

record drivers =
  d_tty :: tty_state
  d_i2c :: i2c_list
  d_net :: net_list
  d_spi :: spi_state

fun create_table :: "bus_env \<Rightarrow> HWE_IFACE \<Rightarrow> nat \<Rightarrow> drivers \<Rightarrow> nat option \<times> drivers" where
  "create_table E HWE_TTY n w = (case hwe_create_tty_device E n n (d_tty w) of (r, s) \<Rightarrow> (r, w\<lparr>d_tty := s\<rparr>))"
| "create_table E HWE_I2C n w = (case hwe_create_i2c_device E n n (d_i2c w) of (r, s) \<Rightarrow> (r, w\<lparr>d_i2c := s\<rparr>))"
| "create_table E HWE_NET n w = (case hwe_create_net_device E n n (d_net w) of (r, s) \<Rightarrow> (r, w\<lparr>d_net := s\<rparr>))"
| "create_table E HWE_SPI n w = (case hwe_create_spi_device E n n (d_spi w) of (r, s) \<Rightarrow> (r, w\<lparr>d_spi := s\<rparr>))"

fun destroy_table :: "HWE_IFACE \<Rightarrow> nat \<Rightarrow> drivers \<Rightarrow> drivers" where
  "destroy_table HWE_TTY a w = w\<lparr>d_tty := hwe_destroy_tty_device a (d_tty w)\<rparr>"
| "destroy_table HWE_I2C a w = w\<lparr>d_i2c := hwe_destroy_i2c_device a (d_i2c w)\<rparr>"
| "destroy_table HWE_NET a w = w\<lparr>d_net := hwe_destroy_net_device a (d_net w)\<rparr>"
| "destroy_table HWE_SPI a w = w\<lparr>d_spi := hwe_destroy_spi_device a (d_spi w)\<rparr>"

definition dev_ops_table :: "bus_env \<Rightarrow> (nat, drivers) hwe_dev_ops" where
  "dev_ops_table E = \<lparr>create = create_table E, destroy = destroy_table\<rparr>"

record rx_env =
  port_room :: nat
  net_env_of :: net_env

fun async_rx_table :: "rx_env \<Rightarrow> (nat, drivers) async_handler" where
  "async_rx_table E HWE_TTY a p w = Done (w\<lparr>d_tty := hwe_tty_async_rx (port_room E) a p (d_tty w)\<rparr>)"
| "async_rx_table E HWE_I2C a p w =
     (case map_of (d_i2c w) a of
        None \<Rightarrow> Oops
      | Some dev \<Rightarrow> Done (w\<lparr>d_i2c := update_priv a (hwe_i2c_async_rx p) (d_i2c w)\<rparr>))"
| "async_rx_table E HWE_NET a p w =
     (case map_of (d_net w) a of
        None \<Rightarrow> Oops
      | Some dev \<Rightarrow>
          (case hwe_net_async_rx (net_env_of E) p dev of
             Done dev \<Rightarrow> Done (w\<lparr>d_net := update_priv a (\<lambda>d. dev) (d_net w)\<rparr>)
           | Blocked \<Rightarrow> Blocked
           | Oops \<Rightarrow> Oops))"
| "async_rx_table E HWE_SPI a p w =
     (case map_of (spi_list (d_spi w)) a of
        None \<Rightarrow> Oops
      | Some dev \<Rightarrow> Done (w\<lparr>d_spi := (d_spi w)\<lparr>spi_list := update_priv a (hwe_spi_async_rx p) (spi_list (d_spi w))\<rparr>\<rparr>))"

section \<open>The contract of a driver\<close>

text \<open>The registry's devices are the ones the driver serves.\<close>

definition serves :: "(nat \<Rightarrow> nat option) \<Rightarrow> nat hwe_dev list \<Rightarrow> bool" where
  "serves own ds \<longleftrightarrow> (\<forall>a n. own a = Some n \<longleftrightarrow> (\<exists>dev \<in> set ds. device dev = Some a \<and> dev_index dev = n))"

locale driver =
  fixes drv_inv :: "'s \<Rightarrow> bool" and owner :: "'s \<Rightarrow> nat \<Rightarrow> nat option"
    and fresh_env :: "bus_env \<Rightarrow> 's \<Rightarrow> bool"
    and create_dev :: "bus_env \<Rightarrow> nat \<Rightarrow> 's \<Rightarrow> nat option \<times> 's"
    and destroy_dev :: "nat \<Rightarrow> 's \<Rightarrow> 's"
  assumes create_fails: "drv_inv s \<Longrightarrow> fresh_env E s \<Longrightarrow> n < HWE_MAX_DEVICES \<Longrightarrow> n \<notin> ran (owner s) \<Longrightarrow>
      create_dev E n s = (None, s') \<Longrightarrow> drv_inv s' \<and> owner s' = owner s"
    and create_installs: "drv_inv s \<Longrightarrow> fresh_env E s \<Longrightarrow> n < HWE_MAX_DEVICES \<Longrightarrow> n \<notin> ran (owner s) \<Longrightarrow>
      create_dev E n s = (Some a, s') \<Longrightarrow> drv_inv s' \<and> owner s a = None \<and> owner s' = (owner s)(a \<mapsto> n)"
    and destroy_removes: "drv_inv s \<Longrightarrow> owner s a = Some n \<Longrightarrow>
      drv_inv (destroy_dev a s) \<and> owner (destroy_dev a s) = (owner s)(a := None)"
begin

lemma served_index:
  assumes "serves (owner s) ds" "dev \<in> set ds" "device dev = Some a"
  shows "owner s a = Some (dev_index dev)"
  using assms by (auto simp: serves_def)

lemma new_index:
  assumes "serves (owner s) ds" "n \<notin> dev_index ` set ds"
  shows "n \<notin> ran (owner s)"
  using assms by (auto simp: serves_def ran_def)

lemma create_serves:
  assumes "drv_inv s" "fresh_env E s" "n < HWE_MAX_DEVICES" "serves (owner s) ds" "n \<notin> dev_index ` set ds"
    "create_dev E n s = (Some a, s')" "device dev = Some a" "dev_index dev = n"
  shows "drv_inv s'" "serves (owner s') (dev # ds)"
proof -
  have new: "drv_inv s'" "owner s a = None" "owner s' = (owner s)(a \<mapsto> n)"
    using create_installs [OF assms(1-3) new_index [OF assms(4,5)] assms(6)] by blast+
  show "drv_inv s'" by (rule new)
  have "device d \<noteq> Some a" if "d \<in> set ds" for d
    using served_index [OF assms(4) that] new(2) by auto
  then show "serves (owner s') (dev # ds)"
    using assms(4,7,8) unfolding new(3) serves_def by auto
qed

lemma create_none:
  assumes "drv_inv s" "fresh_env E s" "n < HWE_MAX_DEVICES" "serves (owner s) ds" "n \<notin> dev_index ` set ds"
    "create_dev E n s = (None, s')"
  shows "drv_inv s'" "serves (owner s') ds"
  using create_fails [OF assms(1-3) new_index [OF assms(4,5)] assms(6)] assms(4) by simp_all

lemma destroy_serves:
  assumes "drv_inv s" "serves (owner s) ds" "distinct (map dev_index ds)" "dev \<in> set ds" "device dev = Some a"
  shows "drv_inv (destroy_dev a s)"
    "serves (owner (destroy_dev a s)) (filter (\<lambda>d. dev_index d \<noteq> dev_index dev) ds)"
proof -
  have own: "owner s a = Some (dev_index dev)" by (rule served_index [OF assms(2,4,5)])
  note gone = destroy_removes [OF assms(1) own]
  show "drv_inv (destroy_dev a s)" using gone by simp
  have "device d = Some a \<longleftrightarrow> dev_index d = dev_index dev" if "d \<in> set ds" for d
  proof
    assume "device d = Some a"
    then show "dev_index d = dev_index dev" using served_index [OF assms(2) that] own by simp
  next
    assume "dev_index d = dev_index dev"
    then have "d = dev" using assms(3,4) that by (meson distinct_map inj_on_def)
    then show "device d = Some a" using assms(5) by simp
  qed
  then have rest: "set (filter (\<lambda>d. dev_index d \<noteq> dev_index dev) ds) = {d \<in> set ds. device d \<noteq> Some a}" by auto
  have "owner (destroy_dev a s) = (owner s)(a := None)" using gone by simp
  then show "serves (owner (destroy_dev a s)) (filter (\<lambda>d. dev_index d \<noteq> dev_index dev) ds)"
    using assms(2) unfolding serves_def rest by auto
qed

text \<open>A handle created and destroyed at once leaves the driver serving the same devices.\<close>

lemma create_destroy:
  assumes "drv_inv s" "fresh_env E s" "n < HWE_MAX_DEVICES" "serves (owner s) ds" "n \<notin> dev_index ` set ds"
    "create_dev E n s = (Some a, s')"
  shows "drv_inv (destroy_dev a s')" "serves (owner (destroy_dev a s')) ds"
proof -
  have new: "drv_inv s'" "owner s a = None" "owner s' = (owner s)(a \<mapsto> n)"
    using create_installs [OF assms(1-3) new_index [OF assms(4,5)] assms(6)] by blast+
  then have "drv_inv (destroy_dev a s') \<and> owner (destroy_dev a s') = (owner s')(a := None)"
    by (intro destroy_removes [of s' a n]) simp_all
  moreover have "(owner s')(a := None) = owner s" using new(2,3) by auto
  ultimately show "drv_inv (destroy_dev a s')" "serves (owner (destroy_dev a s')) ds"
    using assms(4) by simp_all
qed

end


section \<open>The drivers meet the contract\<close>

text \<open>TTY. A handle is the terminal's index.\<close>

definition tty_inv :: "tty_state \<Rightarrow> bool" where
  "tty_inv s \<longleftrightarrow> tty_ok s \<and> (\<forall>n < HWE_MAX_DEVICES. \<forall>dev. tty_devices s ! n = Some dev \<longrightarrow> tty_hwedev dev = n)"

definition tty_owner :: "tty_state \<Rightarrow> nat \<Rightarrow> nat option" where
  "tty_owner s a = (if a < HWE_MAX_DEVICES then map_option tty_hwedev (tty_devices s ! a) else None)"

lemma tty_owner_Some: "tty_inv s \<Longrightarrow> tty_owner s a = Some n \<Longrightarrow> a = n \<and> n < HWE_MAX_DEVICES"
  by (auto simp: tty_owner_def tty_inv_def split: if_splits)

lemma tty_owner_iff:
  "tty_inv s \<Longrightarrow> tty_owner s n = Some n \<longleftrightarrow> n < HWE_MAX_DEVICES \<and> tty_devices s ! n \<noteq> None"
  by (auto simp: tty_owner_def tty_inv_def)

interpretation tty_driver: driver tty_inv tty_owner "\<lambda>E s. True" "\<lambda>E n s. hwe_create_tty_device E n n s" hwe_destroy_tty_device
proof
  fix s s' :: tty_state and E :: bus_env and n a
  assume inv: "tty_inv s" and n: "n < HWE_MAX_DEVICES" "n \<notin> ran (tty_owner s)"
  have free: "tty_devices s ! n = None"
    using n tty_owner_iff [OF inv, of n] by (auto simp: ran_def)
  have ok: "tty_ok s" using inv by (simp add: tty_inv_def)
  note out = tty_create_outcome [where E = E and h = n, OF ok n(1) free]
  have len: "length (tty_devices s) = HWE_MAX_DEVICES" using ok by (simp add: tty_ok_def)
  show "tty_inv s' \<and> tty_owner s' = tty_owner s" if "hwe_create_tty_device E n n s = (None, s')"
    using out that inv by simp
  show "tty_inv s' \<and> tty_owner s a = None \<and> tty_owner s' = (tty_owner s)(a \<mapsto> n)"
    if "hwe_create_tty_device E n n s = (Some a, s')"
    using out that inv free len n(1)
    by (auto simp: tty_inv_def tty_owner_def fun_eq_iff nth_list_update)
next
  fix s :: tty_state and a n
  assume inv: "tty_inv s" and own: "tty_owner s a = Some n"
  note a = tty_owner_Some [OF inv own]
  have "tty_ok (hwe_destroy_tty_device a s)" using inv a by (intro tty_ops_ok) (simp_all add: tty_inv_def)
  then show "tty_inv (hwe_destroy_tty_device a s) \<and> tty_owner (hwe_destroy_tty_device a s) = (tty_owner s)(a := None)"
    using inv a by (auto simp: tty_inv_def tty_owner_def hwe_destroy_tty_device_def tty_ok_def fun_eq_iff nth_list_update)
qed

text \<open>I2C. Private data of removed devices stay in the list but serve no device.\<close>

definition i2c_inv :: "i2c_list \<Rightarrow> bool" where
  "i2c_inv s \<longleftrightarrow> i2c_list_ok s \<and> (\<forall>a dev. i2c_active s a = Some dev \<longrightarrow> i2c_index dev = i2c_hwedev dev)"

definition i2c_owner :: "i2c_list \<Rightarrow> nat \<Rightarrow> nat option" where
  "i2c_owner s a = map_option i2c_hwedev (i2c_active s a)"

interpretation i2c_driver: driver i2c_inv i2c_owner fresh_addr "\<lambda>E n s. hwe_create_i2c_device E n n s" hwe_destroy_i2c_device
proof
  fix s s' :: i2c_list and E :: bus_env and n a
  assume inv: "i2c_inv s" and fresh: "fresh_addr E s"
  have ok: "i2c_list_ok s" using inv by (simp add: i2c_inv_def)
  note out = i2c_create_outcome [OF ok fresh, of n n]
  show "i2c_inv s' \<and> i2c_owner s' = i2c_owner s" if "hwe_create_i2c_device E n n s = (None, s')"
    using out that inv by (auto simp: i2c_inv_def i2c_owner_def fun_eq_iff)
  show "i2c_inv s' \<and> i2c_owner s a = None \<and> i2c_owner s' = (i2c_owner s)(a \<mapsto> n)"
    if created: "hwe_create_i2c_device E n n s = (Some a, s')"
  proof -
    obtain dev where dev: "i2c_list_ok s'" "i2c_active s a = None" "i2c_active s' = (i2c_active s)(a \<mapsto> dev)"
      "i2c_hwedev dev = n" "i2c_index dev = n"
      using out created by auto
    then show ?thesis using inv by (auto simp: i2c_inv_def i2c_owner_def fun_eq_iff)
  qed
next
  fix s :: i2c_list and a n
  assume "i2c_inv s"
  then show "i2c_inv (hwe_destroy_i2c_device a s) \<and> i2c_owner (hwe_destroy_i2c_device a s) = (i2c_owner s)(a := None)"
    using hwe_destroy_i2c_ok [of s a] by (auto simp: i2c_inv_def i2c_owner_def fun_eq_iff)
qed

lemma del_priv_mem: "(b, dev) \<in> set (del_priv a s) \<Longrightarrow> (b, dev) \<in> set s"
  by (simp add: del_priv_def)

text \<open>NET.\<close>

definition net_inv :: "net_list \<Rightarrow> bool" where
  "net_inv s \<longleftrightarrow> distinct (map fst s) \<and> (\<forall>(a, dev) \<in> set s. registered dev \<and> net_index dev = net_hwedev dev)"

definition net_owner :: "net_list \<Rightarrow> nat \<Rightarrow> nat option" where
  "net_owner s a = map_option net_hwedev (map_of s a)"

interpretation net_driver: driver net_inv net_owner fresh_addr "\<lambda>E n s. hwe_create_net_device E n n s" hwe_destroy_net_device
proof
  fix s s' :: net_list and E :: bus_env and n a
  assume inv: "net_inv s" and fresh: "fresh_addr E s"
  have "distinct (map fst s)" using inv by (simp add: net_inv_def)
  then have out: "case hwe_create_net_device E n n s of
      (None, s') \<Rightarrow> s' = s
    | (Some a, s') \<Rightarrow> map_of s a = None \<and> distinct (map fst s') \<and>
        (\<exists>dev. s' = (a, dev) # s \<and> net_hwedev dev = n \<and> net_index dev = n \<and> registered dev)"
    using fresh by (intro net_create_outcome) (simp_all add: fresh_addr_def)
  show "net_inv s' \<and> net_owner s' = net_owner s" if "hwe_create_net_device E n n s = (None, s')"
    using out that inv by simp
  show "net_inv s' \<and> net_owner s a = None \<and> net_owner s' = (net_owner s)(a \<mapsto> n)"
    if "hwe_create_net_device E n n s = (Some a, s')"
    using out that inv by (auto simp: net_inv_def net_owner_def fun_eq_iff)
next
  fix s :: net_list and a n
  assume "net_inv s"
  then show "net_inv (hwe_destroy_net_device a s) \<and> net_owner (hwe_destroy_net_device a s) = (net_owner s)(a := None)"
    using distinct_del [of s a] by (auto simp: net_inv_def net_owner_def hwe_destroy_net_device_def fun_eq_iff map_of_del dest: del_priv_mem)
qed

text \<open>SPI.\<close>

definition spi_inv :: "spi_state \<Rightarrow> bool" where
  "spi_inv s \<longleftrightarrow> spi_ok s \<and> (\<forall>(a, dev) \<in> set (spi_list s). spi_index dev = spi_hwedev dev)"

definition spi_owner :: "spi_state \<Rightarrow> nat \<Rightarrow> nat option" where
  "spi_owner s a = map_option spi_hwedev (map_of (spi_list s) a)"

interpretation spi_driver: driver spi_inv spi_owner "\<lambda>E s. fresh_addr E (spi_list s)"
  "\<lambda>E n s. hwe_create_spi_device E n n s" hwe_destroy_spi_device
proof
  fix s s' :: spi_state and E :: bus_env and n a
  assume inv: "spi_inv s" and fresh: "fresh_addr E (spi_list s)"
  have "spi_ok s" using inv by (simp add: spi_inv_def)
  note out = spi_create_outcome [OF this fresh [unfolded fresh_addr_def], of n n]
  show "spi_inv s' \<and> spi_owner s' = spi_owner s" if "hwe_create_spi_device E n n s = (None, s')"
    using out that inv by (auto simp: spi_inv_def spi_owner_def spi_ok_def)
  show "spi_inv s' \<and> spi_owner s a = None \<and> spi_owner s' = (spi_owner s)(a \<mapsto> n)"
    if "hwe_create_spi_device E n n s = (Some a, s')"
    using out that inv by (auto simp: spi_inv_def spi_owner_def fun_eq_iff)
next
  fix s :: spi_state and a n
  assume "spi_inv s"
  then show "spi_inv (hwe_destroy_spi_device a s) \<and> spi_owner (hwe_destroy_spi_device a s) = (spi_owner s)(a := None)"
    using spi_destroy_ok [of s a]
    by (auto simp: spi_inv_def spi_owner_def hwe_destroy_spi_device_def spi_del_dev_def fun_eq_iff map_of_del dest: del_priv_mem)
qed


section \<open>The drivers together\<close>

definition drivers_inv :: "drivers \<Rightarrow> bool" where
  "drivers_inv w \<longleftrightarrow> tty_inv (d_tty w) \<and> i2c_inv (d_i2c w) \<and> net_inv (d_net w) \<and> spi_inv (d_spi w)"

fun owner_of :: "HWE_IFACE \<Rightarrow> drivers \<Rightarrow> nat \<Rightarrow> nat option" where
  "owner_of HWE_TTY w = tty_owner (d_tty w)"
| "owner_of HWE_I2C w = i2c_owner (d_i2c w)"
| "owner_of HWE_NET w = net_owner (d_net w)"
| "owner_of HWE_SPI w = spi_owner (d_spi w)"

text \<open>The allocator does not hand out memory that is in use.\<close>

definition fresh_drivers :: "bus_env \<Rightarrow> drivers \<Rightarrow> bool" where
  "fresh_drivers E w \<longleftrightarrow> fresh_addr E (d_i2c w) \<and> fresh_addr E (d_net w) \<and> fresh_addr E (spi_list (d_spi w))"

interpretation table: driver drivers_inv "owner_of i" fresh_drivers "\<lambda>E. create_table E i" "destroy_table i"
  for i
proof
  fix s s' E n a
  assume inv: "drivers_inv s" and fresh: "fresh_drivers E s" and n: "n < HWE_MAX_DEVICES" "n \<notin> ran (owner_of i s)"
  show "drivers_inv s' \<and> owner_of i s' = owner_of i s" if "create_table E i n s = (None, s')"
    using that inv fresh n
      tty_driver.create_fails [where E = E and s = "d_tty s" and n = n] i2c_driver.create_fails [where E = E and s = "d_i2c s" and n = n]
      net_driver.create_fails [where E = E and s = "d_net s" and n = n] spi_driver.create_fails [where E = E and s = "d_spi s" and n = n]
    by (cases i) (auto simp: drivers_inv_def fresh_drivers_def split: prod.splits)
  show "drivers_inv s' \<and> owner_of i s a = None \<and> owner_of i s' = (owner_of i s)(a \<mapsto> n)"
    if "create_table E i n s = (Some a, s')"
    using that inv fresh n
      tty_driver.create_installs [where E = E and s = "d_tty s" and n = n] i2c_driver.create_installs [where E = E and s = "d_i2c s" and n = n]
      net_driver.create_installs [where E = E and s = "d_net s" and n = n] spi_driver.create_installs [where E = E and s = "d_spi s" and n = n]
    by (cases i) (auto simp: drivers_inv_def fresh_drivers_def split: prod.splits)
next
  fix s a n
  assume "drivers_inv s" "owner_of i s a = Some n"
  then show "drivers_inv (destroy_table i a s) \<and> owner_of i (destroy_table i a s) = (owner_of i s)(a := None)"
    using tty_driver.destroy_removes [of "d_tty s" a n] i2c_driver.destroy_removes [of "d_i2c s" a n]
      net_driver.destroy_removes [of "d_net s" a n] spi_driver.destroy_removes [of "d_spi s" a n]
    by (cases i) (auto simp: drivers_inv_def)
qed

lemma owner_frame:
  "j \<noteq> i \<Longrightarrow> owner_of j (snd (create_table E i n w)) = owner_of j w"
  "j \<noteq> i \<Longrightarrow> owner_of j (destroy_table i a w) = owner_of j w"
  by (cases i; cases j; simp split: prod.split)+

section \<open>The registry and the drivers\<close>

definition linked :: "(nat, drivers) sysfs \<Rightarrow> bool" where
  "linked st \<longleftrightarrow> drivers_inv (drv st) \<and> (\<forall>i. serves (owner_of i (drv st)) (devs st i))"

definition links :: "nat hwe_dev list \<Rightarrow> (nat option \<times> nat) list" where
  "links ds = map (\<lambda>d. (device d, dev_index d)) ds"

lemma serves_links: "serves own ds \<longleftrightarrow> (\<forall>a n. own a = Some n \<longleftrightarrow> (Some a, n) \<in> set (links ds))"
proof -
  have "(Some a, n) \<in> set (links ds) \<longleftrightarrow> (\<exists>dev \<in> set ds. device dev = Some a \<and> dev_index dev = n)" for a n
    by (force simp: links_def)
  then show ?thesis by (simp add: serves_def)
qed

lemma linked_cong:
  "linked st \<Longrightarrow> drv st' = drv st \<Longrightarrow> (\<And>i. links (devs st' i) = links (devs st i)) \<Longrightarrow> linked st'"
  by (simp add: linked_def serves_links)

text \<open>Creating a device.\<close>

lemma new_dev_linked:
  assumes "all_inv st" "linked st" "fresh_drivers BE (drv st)" "new_dev (dev_ops_table BE) E i st = (r, st')"
  shows "linked st'"
proof -
  have inv: "iface_inv i (ifaces st i)" using assms(1) by (simp add: all_inv_def)
  define n where "n = next_index i st"
  have new: "n \<notin> dev_index ` set (devs st i)" using next_index_fresh [OF inv] by (simp add: n_def)
  have own: "drivers_inv (drv st)" "serves (owner_of j (drv st)) (devs st j)" for j
    using assms(2) by (simp_all add: linked_def)
  show ?thesis
  proof (cases "n = HWE_MAX_DEVICES \<or> \<not> kzalloc_ok E")
    case True
    then show ?thesis using assms(2,4) new_dev_eq [OF inv, of "dev_ops_table BE" E] by (auto simp: n_def Let_def)
  next
    case False
    then have n: "n < HWE_MAX_DEVICES" using next_index_less [OF inv] by (simp add: n_def)
    obtain a w where cr: "create_table BE i n (drv st) = (a, w)" by (cases "create_table BE i n (drv st)")
    have frame: "serves (owner_of j w) (devs st j)" "serves (owner_of j (destroy_table i b w)) (devs st j)"
      if "j \<noteq> i" for j b
      using own(2) [of j] owner_frame [OF that] cr by (metis snd_conv)+
    show ?thesis
    proof (cases a)
      case None
      then have "st' = st\<lparr>drv := w\<rparr>"
        using False cr assms(4) new_dev_eq [OF inv, of "dev_ops_table BE" E]
        by (simp add: n_def dev_ops_table_def Let_def)
      then show ?thesis
        using table.create_none [OF own(1) assms(3) n own(2) new cr [unfolded None]] frame(1)
        by (auto simp: linked_def) metis
    next
      case (Some b)
      note created = table.create_serves [OF own(1) assms(3) n own(2) new cr [unfolded Some]]
        table.create_destroy [OF own(1) assms(3) n own(2) new cr [unfolded Some]]
      have eq: "st' = (if kobject_add_err E \<noteq> 0 \<or> \<not> pairs_kobj_ok E then st\<lparr>drv := destroy_table i b w\<rparr>
          else added i (made_dev i n b) (st\<lparr>drv := w\<rparr>))"
        using False cr Some assms(4) new_dev_eq [OF inv, of "dev_ops_table BE" E]
        by (cases "kobject_add_err E \<noteq> 0 \<or> \<not> pairs_kobj_ok E") (simp_all add: n_def dev_ops_table_def Let_def)
      have "serves (owner_of j (drv st')) (devs st' j)" for j
        using created(2) [where dev = "made_dev i n b"] created(4) frame [of j] by (cases "j = i") (simp_all add: eq)
      moreover have "drivers_inv (drv st')" using created(1) [where dev = "made_dev i n b"] created(3) by (simp add: eq)
      ultimately show ?thesis by (simp add: linked_def)
    qed
  qed
qed

text \<open>Removing a device.\<close>

lemma shutdown_dev_linked:
  assumes "all_inv st" "linked st" "dev \<in> set (devs st i)"
  shows "linked (shutdown_dev (dev_ops_table BE) dev st)"
proof -
  have inv: "iface_inv i (ifaces st i)" using assms(1) by (simp add: all_inv_def)
  then have "dev_ok i dev" using assms(3) by (simp add: iface_inv_def)
  then obtain a where d: "iface dev = i" "device dev = Some a" by (auto simp: dev_ok_def)
  have own: "drivers_inv (drv st)" "serves (owner_of j (drv st)) (devs st j)" for j
    using assms(2) by (simp_all add: linked_def)
  have eq: "shutdown_dev (dev_ops_table BE) dev st =
      (removed i (dev_index dev) st)\<lparr>drv := destroy_table i a (drv st)\<rparr>"
    by (simp add: shutdown_dev_eq [OF d] dev_ops_table_def)
  have "distinct (map dev_index (devs st i))" using inv by (simp add: iface_inv_def)
  note gone = table.destroy_serves [OF own(1) own(2) this assms(3) d(2)]
  have "serves (owner_of j (destroy_table i a (drv st))) (devs (removed i (dev_index dev) st) j)" for j
    using gone(2) own(2) [of j] owner_frame(2) [of j i a "drv st"] by (cases "j = i") simp_all
  then show ?thesis using gone(1) by (simp add: linked_def eq)
qed

end
