(* ===== verification/Ioctl.thy ===== *)
theory Ioctl
  imports Lifecycle
begin

text \<open>
  The \<open>ioctl\<close> interface (\<open>hwe_ioctl.c\<close>, \<open>hwe_ioctl.h\<close>): device identifiers, the seven requests
  and their dispatcher, the set-up and clean-up of the character device.

  \<open>umem\<close> gives the \<open>struct hweioctl_pair\<close> at each user address together with what happens when
  the kernel accesses it: each \<open>get_user\<close>, \<open>put_user\<close> and copy may fault, and a faulting
  \<open>copy_to_user\<close> has written a prefix. \<open>str_bufs\<close> counts the \<open>pair_str\<close> buffers that are allocated.
  In \<open>ioctl_env\<close> are the answers of the allocator, of the kernel's object functions (for the
  functions of \<open>hwe_sysfs.c\<close>) and the value of \<open>hwe_get_pair\<close>'s unassigned variable. All results
  are far below \<open>2 ^ 31\<close>, so the conversions between \<open>int\<close> and \<open>long\<close> do not change them.
\<close>

section \<open>Device identifiers\<close>

definition make_devid :: "HWE_IFACE \<Rightarrow> int \<Rightarrow> int" where
  "make_devid i idx = push_bit 24 (int (iface_num i)) + idx"

definition parse_devid :: "ulong \<Rightarrow> (HWE_IFACE \<times> nat) option" where
  "parse_devid devid =
     (let ifc = ucast (drop_bit 24 devid) :: 32 word;
          idx = ucast (devid AND (push_bit 24 1 - 1)) :: 32 word
      in if unat ifc \<ge> HWE_IFACE_COUNT \<or> unat idx \<ge> HWE_MAX_DEVICES then None
         else Some (iface_of_num (unat ifc), unat idx))"

section \<open>State\<close>

record hweioctl_pair =
  device_id :: int
  pair_index :: int
  pair_text :: string

record user_mem =
  upair :: hweioctl_pair
  get_devid_ok :: bool
  get_index_ok :: bool
  put_index_ok :: bool
  copy_from_ok :: bool
  copy_to_fault :: "nat option"

record ('d, 'w) ioctl_state =
  sys :: "('d, 'w) sysfs"
  umem :: "ulong \<Rightarrow> user_mem"
  str_bufs :: nat

record ioctl_env =
  klib_of :: klib
  str_kmalloc_ok :: bool
  add_env_of :: add_env
  new_env_of :: new_env
  stack_idx :: int

definition on_sys ::
  "(('d, 'w) sysfs \<Rightarrow> (int \<times> ('d, 'w) sysfs) run) \<Rightarrow> ('d, 'w) ioctl_state \<Rightarrow> (int \<times> ('d, 'w) ioctl_state) run" where
  "on_sys f st =
     (case f (sys st) of
        Done (r, s) \<Rightarrow> Done (r, st\<lparr>sys := s\<rparr>) | Blocked \<Rightarrow> Blocked | Oops \<Rightarrow> Oops)"

definition put_pair :: "ulong \<Rightarrow> hweioctl_pair \<Rightarrow> ('d, 'w) ioctl_state \<Rightarrow> ('d, 'w) ioctl_state" where
  "put_pair arg hp st = st\<lparr>umem := (umem st)(arg := (umem st arg)\<lparr>upair := hp\<rparr>)\<rparr>"

section \<open>The requests\<close>

definition ioctl_add_device ::
  "('d, 'w) hwe_dev_ops \<Rightarrow> ioctl_env \<Rightarrow> ulong \<Rightarrow> ('d, 'w) ioctl_state \<Rightarrow> (int \<times> ('d, 'w) ioctl_state) run" where
  "ioctl_add_device ops E arg st =
     (if unat arg \<ge> HWE_IFACE_COUNT then Done (- EINVAL, st)
      else
        (let i = iface_of_num (unat arg)
         in case on_sys (hwe_add_device ops (new_env_of E) i) st of
              Done (idx, st) \<Rightarrow> if idx < 0 then Done (idx, st) else Done (make_devid i idx, st)
            | Blocked \<Rightarrow> Blocked
            | Oops \<Rightarrow> Oops))"

definition ioctl_delete_device ::
  "('d, 'w) hwe_dev_ops \<Rightarrow> ulong \<Rightarrow> ('d, 'w) ioctl_state \<Rightarrow> (int \<times> ('d, 'w) ioctl_state) run" where
  "ioctl_delete_device ops arg st =
     (case parse_devid arg of
        None \<Rightarrow> Done (- EINVAL, st)
      | Some (ifc, idx) \<Rightarrow> on_sys (hwe_delete_device ops ifc idx) st)"

definition ioctl_pair_count :: "ulong \<Rightarrow> ('d, 'w) ioctl_state \<Rightarrow> (int \<times> ('d, 'w) ioctl_state) run" where
  "ioctl_pair_count arg st =
     (case parse_devid arg of
        None \<Rightarrow> Done (- EINVAL, st)
      | Some (ifc, idx) \<Rightarrow> on_sys (hwe_get_pair_count ifc idx) st)"

definition ioctl_read_pair :: "ioctl_env \<Rightarrow> ulong \<Rightarrow> ('d, 'w) ioctl_state \<Rightarrow> (int \<times> ('d, 'w) ioctl_state) run" where
  "ioctl_read_pair E arg st =
     (let hp = umem st arg
      in if \<not> get_devid_ok hp then Done (- EFAULT, st)
         else
           (case parse_devid (word_of_int (device_id (upair hp))) of
              None \<Rightarrow> Done (- EINVAL, st)
            | Some (ifc, dev_idx) \<Rightarrow>
                if \<not> get_index_ok hp then Done (- EFAULT, st)
                else if \<not> str_kmalloc_ok E then Done (- ENOMEM, st)
                else
                  (let st = st\<lparr>str_bufs := str_bufs st + 1\<rparr>
                   in case hwe_get_pair (stack_idx E) ifc dev_idx (pair_index (upair hp)) (sys st) of
                        Done (res, s) \<Rightarrow>
                          (let st = st\<lparr>sys := s\<rparr>;
                               (ret, st) =
                                 (case res of
                                    Inl err \<Rightarrow> (err, st)
                                  | Inr text \<Rightarrow>
                                      if length text = 0 then (0, st) else
                                      let src = text @ [NUL];
                                          u = upair hp
                                      in case copy_to_fault hp of
                                           Some k \<Rightarrow> (- EFAULT,
                                             put_pair arg (u\<lparr>pair_text := memcpy_at (pair_text u) 0 (take k src)\<rparr>) st)
                                         | None \<Rightarrow> (0, put_pair arg (u\<lparr>pair_text := memcpy_at (pair_text u) 0 src\<rparr>) st))
                           in Done (ret, st\<lparr>str_bufs := str_bufs st - 1\<rparr>))
                      | Blocked \<Rightarrow> Blocked
                      | Oops \<Rightarrow> Oops)))"

definition ioctl_write_pair :: "ioctl_env \<Rightarrow> ulong \<Rightarrow> ('d, 'w) ioctl_state \<Rightarrow> (int \<times> ('d, 'w) ioctl_state) run" where
  "ioctl_write_pair E arg st =
     (let hp = umem st arg
      in if \<not> get_devid_ok hp then Done (- EFAULT, st)
         else
           (case parse_devid (word_of_int (device_id (upair hp))) of
              None \<Rightarrow> Done (- EINVAL, st)
            | Some (ifc, dev_idx) \<Rightarrow>
                if \<not> str_kmalloc_ok E then Done (- ENOMEM, st)
                else
                  (let st = st\<lparr>str_bufs := str_bufs st + 1\<rparr>
                   in if \<not> copy_from_ok hp then Done (- EFAULT, st)
                      else
                        (let pair_str = read_at (pair_text (upair hp)) 0 HWE_MAX_PAIR_STR @ [NUL]
                         in case on_sys (hwe_add_pair (klib_of E) (add_env_of E) ifc dev_idx pair_str) st of
                              Done (ret, st) \<Rightarrow>
                                (let st = st\<lparr>str_bufs := str_bufs st - 1\<rparr>
                                 in if ret < 0 then Done (ret, st)
                                    else if \<not> put_index_ok hp then Done (- EFAULT, st)
                                    else Done (0, put_pair arg ((upair hp)\<lparr>pair_index := ret\<rparr>) st))
                            | Blocked \<Rightarrow> Blocked
                            | Oops \<Rightarrow> Oops))))"

definition ioctl_delete_pair :: "ulong \<Rightarrow> ('d, 'w) ioctl_state \<Rightarrow> (int \<times> ('d, 'w) ioctl_state) run" where
  "ioctl_delete_pair arg st =
     (let hp = umem st arg
      in if \<not> get_devid_ok hp then Done (- EFAULT, st)
         else
           (case parse_devid (word_of_int (device_id (upair hp))) of
              None \<Rightarrow> Done (- EINVAL, st)
            | Some (ifc, dev_idx) \<Rightarrow>
                if \<not> get_index_ok hp then Done (- EFAULT, st)
                else on_sys (hwe_delete_pair ifc dev_idx (pair_index (upair hp))) st))"

definition ioctl_clear_pairs :: "ulong \<Rightarrow> ('d, 'w) ioctl_state \<Rightarrow> (int \<times> ('d, 'w) ioctl_state) run" where
  "ioctl_clear_pairs arg st =
     (case parse_devid arg of
        None \<Rightarrow> Done (- EINVAL, st)
      | Some (ifc, dev_idx) \<Rightarrow> on_sys (hwe_clear_pairs ifc dev_idx) st)"

definition HWEIOCTL_MAGIC :: "32 word" where
  "HWEIOCTL_MAGIC = 0xFAECE500"

definition HWEIOCTL_ADD_DEVICE :: "32 word" where
  "HWEIOCTL_ADD_DEVICE = HWEIOCTL_MAGIC + 1"

definition HWEIOCTL_UNINSTALL_DEVICE :: "32 word" where
  "HWEIOCTL_UNINSTALL_DEVICE = HWEIOCTL_MAGIC + 2"

definition HWEIOCTL_PAIR_COUNT :: "32 word" where
  "HWEIOCTL_PAIR_COUNT = HWEIOCTL_MAGIC + 3"

definition HWEIOCTL_READ_PAIR :: "32 word" where
  "HWEIOCTL_READ_PAIR = HWEIOCTL_MAGIC + 4"

definition HWEIOCTL_WRITE_PAIR :: "32 word" where
  "HWEIOCTL_WRITE_PAIR = HWEIOCTL_MAGIC + 5"

definition HWEIOCTL_DELETE_PAIR :: "32 word" where
  "HWEIOCTL_DELETE_PAIR = HWEIOCTL_MAGIC + 6"

definition HWEIOCTL_CLEAR_PAIRS :: "32 word" where
  "HWEIOCTL_CLEAR_PAIRS = HWEIOCTL_MAGIC + 7"

lemmas hweioctl_consts = HWEIOCTL_MAGIC_def HWEIOCTL_ADD_DEVICE_def HWEIOCTL_UNINSTALL_DEVICE_def HWEIOCTL_PAIR_COUNT_def
  HWEIOCTL_READ_PAIR_def HWEIOCTL_WRITE_PAIR_def HWEIOCTL_DELETE_PAIR_def HWEIOCTL_CLEAR_PAIRS_def

definition hwemu_ioctl ::
  "('d, 'w) hwe_dev_ops \<Rightarrow> ioctl_env \<Rightarrow> 32 word \<Rightarrow> ulong \<Rightarrow> ('d, 'w) ioctl_state \<Rightarrow> (int \<times> ('d, 'w) ioctl_state) run" where
  "hwemu_ioctl ops E cmd arg st =
     (if cmd = HWEIOCTL_ADD_DEVICE then ioctl_add_device ops E arg st
      else if cmd = HWEIOCTL_UNINSTALL_DEVICE then ioctl_delete_device ops arg st
      else if cmd = HWEIOCTL_PAIR_COUNT then ioctl_pair_count arg st
      else if cmd = HWEIOCTL_READ_PAIR then ioctl_read_pair E arg st
      else if cmd = HWEIOCTL_WRITE_PAIR then ioctl_write_pair E arg st
      else if cmd = HWEIOCTL_DELETE_PAIR then ioctl_delete_pair arg st
      else if cmd = HWEIOCTL_CLEAR_PAIRS then ioctl_clear_pairs arg st
      else Done (- ENOTTY, st))"

section \<open>Set-up and clean-up\<close>

text \<open>What is registered with the kernel, and the results of the registrations (0 for success).\<close>

record chrdev =
  region :: bool
  class_made :: bool
  cdev_added :: bool
  device_made :: bool

record chrdev_env =
  alloc_region_err :: int
  class_err :: int
  cdev_err :: int
  device_err :: int

definition hwe_init_ioctl :: "chrdev_env \<Rightarrow> chrdev \<Rightarrow> int \<times> chrdev" where
  "hwe_init_ioctl E c =
     (let err = alloc_region_err E
      in if err < 0 then (err, c)
         else
           (let c = c\<lparr>region := True\<rparr>
            in if class_err E \<noteq> 0 then (class_err E, c\<lparr>region := False\<rparr>)
               else
                 (let c = c\<lparr>class_made := True\<rparr>;
                      err = cdev_err E
                  in if err < 0 then (err, c\<lparr>class_made := False, region := False\<rparr>)
                     else
                       (let c = c\<lparr>cdev_added := True\<rparr>
                        in if device_err E \<noteq> 0 then (err, c\<lparr>class_made := False, region := False\<rparr>)
                           else (0, c\<lparr>device_made := True\<rparr>)))))"

definition hwe_cleanup_ioctl :: "chrdev \<Rightarrow> chrdev" where
  "hwe_cleanup_ioctl c = c\<lparr>device_made := False, class_made := False, region := False\<rparr>"

section \<open>Device identifiers are unique names\<close>

lemma parse_devid_parts:
  "unat (ucast (drop_bit 24 w) :: 32 word) = unat w div 2 ^ 24 mod 2 ^ 32"
  "unat (ucast (w AND (push_bit 24 1 - 1)) :: 32 word) = unat w mod 2 ^ 24"
  for w :: ulong
proof -
  show "unat (ucast (drop_bit 24 w) :: 32 word) = unat w div 2 ^ 24 mod 2 ^ 32"
    by (simp add: unsigned_ucast_eq drop_bit_eq_div take_bit_eq_mod unat_div_distrib)
  have "push_bit 24 1 - 1 = (mask 24 :: ulong)" by (simp add: mask_eq_exp_minus_1 push_bit_eq_mult)
  then have "unat (w AND (push_bit 24 1 - 1)) = unat w mod 2 ^ 24"
    by (simp only: take_bit_eq_mask [symmetric] unsigned_take_bit_eq) (simp add: take_bit_eq_mod)
  moreover have "unat w mod 2 ^ 24 < (2::nat) ^ 32"
    by (rule less_trans [OF mod_less_divisor]) simp_all
  ultimately show "unat (ucast (w AND (push_bit 24 1 - 1)) :: 32 word) = unat w mod 2 ^ 24"
    by (simp add: unsigned_ucast_eq take_bit_eq_mod)
qed

lemma make_devid_nat: "make_devid i (int n) = int (iface_num i * 2 ^ 24 + n)"
  by (simp add: make_devid_def push_bit_eq_mult)

lemma split_56: "u mod 2 ^ 56 = (u div 2 ^ 24 mod 2 ^ 32) * 2 ^ 24 + u mod 2 ^ 24" for u :: nat
proof -
  have "u mod 2 ^ (24 + 32) = 2 ^ 24 * (u div 2 ^ 24 mod 2 ^ 32) + u mod 2 ^ 24"
    unfolding power_add by (rule mod_mult2_eq)
  then show ?thesis by (simp add: mult.commute)
qed

lemma split_unique:
  "b < 2 ^ 24 \<Longrightarrow> d < 2 ^ 24 \<Longrightarrow> a * 2 ^ 24 + b = c * 2 ^ 24 + d \<longleftrightarrow> a = c \<and> b = d" for a b c d :: nat
proof
  assume b: "b < 2 ^ 24" and d: "d < 2 ^ 24" and eq: "a * 2 ^ 24 + b = c * 2 ^ 24 + d"
  have "(a * 2 ^ 24 + b) div 2 ^ 24 = a" "(c * 2 ^ 24 + d) div 2 ^ 24 = c"
    using b d by simp_all
  with eq have "a = c" by metis
  with eq show "a = c \<and> b = d" by simp
qed simp

text \<open>An argument names a device exactly when its low 56 bits are the identifier \<open>make_devid\<close>
  gives that device. (The top 8 bits of the 64-bit argument are dropped when the interface
  number is put in an \<open>unsigned\<close>, so they are not checked.)\<close>

lemma parse_devid_accepts:
  "parse_devid w = Some (i, n) \<longleftrightarrow> n < HWE_MAX_DEVICES \<and> int (unat w mod 2 ^ 56) = make_devid i (int n)"
proof -
  let ?f = "unat w div 2 ^ 24 mod 2 ^ 32" and ?n = "unat w mod 2 ^ 24"
  have n: "?n < 2 ^ 24" by simp
  have "parse_devid w = Some (i, n) \<longleftrightarrow> ?f < HWE_IFACE_COUNT \<and> ?n < HWE_MAX_DEVICES \<and> iface_of_num ?f = i \<and> ?n = n"
    unfolding parse_devid_def Let_def parse_devid_parts by auto
  also have "\<dots> \<longleftrightarrow> n < HWE_MAX_DEVICES \<and> ?f = iface_num i \<and> ?n = n"
    using iface_num_iface_of_num by fastforce
  also have "\<dots> \<longleftrightarrow> n < HWE_MAX_DEVICES \<and> ?f * 2 ^ 24 + ?n = iface_num i * 2 ^ 24 + n"
    using split_unique [OF n, of n ?f "iface_num i"] by (auto simp: hwe_consts)
  finally show ?thesis unfolding make_devid_nat of_nat_eq_iff split_56 .
qed

lemma make_devid_bounds:
  assumes "n < HWE_MAX_DEVICES"
  shows "0 \<le> make_devid i (int n)" "make_devid i (int n) < 2 ^ 31" "make_devid i (int n) = 0 \<longleftrightarrow> i = HWE_TTY \<and> n = 0"
  using assms iface_num_le_3 [of i] by (cases i; simp add: make_devid_nat hwe_consts)+

lemma parse_make_devid:
  assumes "n < HWE_MAX_DEVICES"
  shows "parse_devid (word_of_int (make_devid i (int n))) = Some (i, n)"
proof -
  let ?k = "iface_num i * 2 ^ 24 + n"
  have small: "?k < 2 ^ 31" using make_devid_bounds(2) [OF assms, of i] by (simp only: make_devid_nat) simp
  have w: "(word_of_int (make_devid i (int n)) :: ulong) = word_of_nat ?k"
    by (simp only: make_devid_nat of_int_of_nat_eq)
  have "?k div 2 ^ 24 mod 2 ^ 32 = iface_num i" "?k mod 2 ^ 24 = n"
    using assms iface_num_le_3 [of i] by (simp_all add: hwe_consts)
  moreover have "take_bit 64 ?k = ?k"
    using small by (intro take_bit_nat_eq_self) simp
  then have "unat (word_of_nat ?k :: ulong) = ?k"
    unfolding unsigned_of_nat by simp
  ultimately show ?thesis
    unfolding parse_devid_def Let_def parse_devid_parts w using assms iface_num_less [of i]
    by (simp only: not_le [symmetric] if_False HOL.simp_thms iface_of_num_iface_num)
qed

text \<open>C33: the identifier \<open>HWEIOCTL_ADD_DEVICE\<close> returns names the new device: passed back as an
  argument, or stored in the \<open>int device_id\<close> of a \<open>struct hweioctl_pair\<close>, it is parsed to the same
  interface and index. It fits an \<open>int\<close> and is not negative, so it is never mistaken for an
  error; but it is 0, not positive as \<open>hwe_ioctl.h\<close> promises, for the first \<open>tty\<close> device.\<close>

theorem devid_round_trip:
  assumes "n < HWE_MAX_DEVICES"
  shows "parse_devid (word_of_int (make_devid i (int n))) = Some (i, n) \<and>
    0 \<le> make_devid i (int n) \<and> make_devid i (int n) < 2 ^ 31 \<and>
    (make_devid i (int n) = 0 \<longleftrightarrow> i = HWE_TTY \<and> n = 0)"
  using parse_make_devid [OF assms] make_devid_bounds [OF assms] by simp

theorem devid_round_trip_witness:
  "parse_devid (word_of_int (make_devid HWE_SPI (int 255))) = Some (HWE_SPI, 255) \<and>
    0 \<le> make_devid HWE_SPI (int 255) \<and> make_devid HWE_SPI (int 255) < 2 ^ 31 \<and>
    (make_devid HWE_SPI (int 255) = 0 \<longleftrightarrow> HWE_SPI = HWE_TTY \<and> (255::nat) = 0)"
  by (rule devid_round_trip) (simp add: hwe_consts)

section \<open>Every request returns and keeps the state consistent\<close>

lemma hwe_get_pair_count_reads: "sysfs_inv st \<Longrightarrow> \<exists>r. hwe_get_pair_count i n st = Done (r, st)"
  unfolding hwe_get_pair_count_def by (simp add: with_lock_read_only)

lemma hwe_get_pair_reads: "sysfs_inv st \<Longrightarrow> \<exists>r. hwe_get_pair stack i n k st = Done (r, st)"
  unfolding hwe_get_pair_def by (simp add: with_lock_read_only)

lemma hwe_delete_pair_safe:
  assumes "sysfs_inv st"
  shows "\<exists>r st'. hwe_delete_pair i n k st = Done (r, st') \<and> sysfs_inv st'"
  using assms hwe_delete_pair_runs [OF assms, of i n _ k]
  by (cases "find_device_by_index i n st") (auto simp: hwe_delete_pair_eq)

lemma hwe_clear_pairs_safe:
  assumes "sysfs_inv st"
  shows "\<exists>r st'. hwe_clear_pairs i n st = Done (r, st') \<and> sysfs_inv st'"
  using assms hwe_clear_pairs_runs [OF assms, of i n]
  by (cases "find_device_by_index i n st") (auto simp: hwe_clear_pairs_eq)

lemma hwe_add_pair_safe:
  assumes "sysfs_inv st" "pair_buf_ok (raw_pair E)"
  shows "(\<exists>r st'. hwe_add_pair K E i n str st = Done (r, st') \<and> sysfs_inv st') \<or>
    hwe_add_pair K E i n str st = Oops \<and> find_device_by_index i n st = None"
proof (cases "find_device_by_index i n st")
  case None
  then show ?thesis using assms by (simp add: hwe_add_pair_eq split: sum.split)
next
  case (Some dev)
  then show ?thesis using hwe_add_pair_runs [OF assms Some, of K str] by blast
qed

lemmas ioctl_ops_safe = hwe_get_pair_count_reads hwe_delete_pair_safe hwe_clear_pairs_safe
  hwe_add_device_inv hwe_delete_device_inv

lemma on_sys_safe:
  assumes "\<exists>r s. f (sys st) = Done (r, s) \<and> sysfs_inv s"
  shows "\<exists>r st'. on_sys f st = Done (r, st') \<and> sysfs_inv (sys st') \<and> str_bufs st' = str_bufs st \<and> umem st' = umem st"
  using assms by (auto simp: on_sys_def)

text \<open>When \<open>ioctl_write_pair\<close> forgets to free its buffer.\<close>

definition leaks :: "ioctl_env \<Rightarrow> 32 word \<Rightarrow> ulong \<Rightarrow> ('d, 'w) ioctl_state \<Rightarrow> bool" where
  "leaks E cmd arg st \<longleftrightarrow>
     cmd = HWEIOCTL_WRITE_PAIR \<and> get_devid_ok (umem st arg) \<and>
     parse_devid (word_of_int (device_id (upair (umem st arg)))) \<noteq> None \<and> str_kmalloc_ok E \<and>
     \<not> copy_from_ok (umem st arg)"

definition missing_device :: "ulong \<Rightarrow> ('d, 'w) ioctl_state \<Rightarrow> bool" where
  "missing_device arg st \<longleftrightarrow>
     (case parse_devid (word_of_int (device_id (upair (umem st arg)))) of
        None \<Rightarrow> False
      | Some (i, n) \<Rightarrow> find_device_by_index i n (sys st) = None)"

definition returns_ok :: "nat \<Rightarrow> ('d, 'w) ioctl_state \<Rightarrow> (int \<times> ('d, 'w) ioctl_state) run \<Rightarrow> bool" where
  "returns_ok k st res \<longleftrightarrow> (\<exists>r st'. res = Done (r, st') \<and> sysfs_inv (sys st') \<and> str_bufs st' = str_bufs st + k)"

lemma returns_ok_Done: "sysfs_inv (sys st') \<Longrightarrow> str_bufs st' = str_bufs st + k \<Longrightarrow> returns_ok k st (Done (r, st'))"
  by (simp add: returns_ok_def)

lemma returns_ok_on_sys:
  "\<exists>r s. f (sys st) = Done (r, s) \<and> sysfs_inv s \<Longrightarrow> returns_ok 0 st (on_sys f st)"
  using on_sys_safe [of f st] by (auto simp: returns_ok_def)

lemma ioctl_simple_safe:
  assumes "sysfs_inv (sys st)"
  shows "returns_ok 0 st (ioctl_add_device ops E arg st)" "returns_ok 0 st (ioctl_delete_device ops arg st)"
    "returns_ok 0 st (ioctl_pair_count arg st)" "returns_ok 0 st (ioctl_delete_pair arg st)"
    "returns_ok 0 st (ioctl_clear_pairs arg st)"
proof -
  have "returns_ok 0 st (on_sys (hwe_add_device ops (new_env_of E) (iface_of_num (unat arg))) st)"
    by (rule returns_ok_on_sys) (rule hwe_add_device_inv [OF assms])
  then obtain r st' where "on_sys (hwe_add_device ops (new_env_of E) (iface_of_num (unat arg))) st = Done (r, st')"
    "sysfs_inv (sys st')" "str_bufs st' = str_bufs st + 0"
    unfolding returns_ok_def by blast
  then show "returns_ok 0 st (ioctl_add_device ops E arg st)"
    using assms by (simp add: ioctl_add_device_def Let_def returns_ok_Done)
next
  show "returns_ok 0 st (ioctl_pair_count arg st)"
    using hwe_get_pair_count_reads [OF assms] assms
    by (fastforce simp: ioctl_pair_count_def intro!: returns_ok_on_sys returns_ok_Done split: option.split)
qed (auto simp: ioctl_delete_device_def ioctl_delete_pair_def ioctl_clear_pairs_def Let_def
      intro!: returns_ok_on_sys returns_ok_Done assms hwe_delete_device_inv hwe_delete_pair_safe hwe_clear_pairs_safe
      split: option.split)

lemma ioctl_read_pair_safe:
  assumes "sysfs_inv (sys st)"
  shows "returns_ok 0 st (ioctl_read_pair E arg st)"
proof -
  have "\<exists>r. hwe_get_pair (stack_idx E) i n (pair_index (upair (umem st arg))) (sys st) = Done (r, sys st)" for i n
    by (rule hwe_get_pair_reads [OF assms])
  then have "\<exists>r. \<forall>i n. hwe_get_pair (stack_idx E) i n (pair_index (upair (umem st arg))) (sys st) = Done (r i n, sys st)"
    by metis
  then obtain r where r: "\<And>i n. hwe_get_pair (stack_idx E) i n (pair_index (upair (umem st arg))) (sys st) = Done (r i n, sys st)"
    by blast
  show ?thesis
    using assms unfolding ioctl_read_pair_def
    by (auto simp: r Let_def put_pair_def intro!: returns_ok_Done split: option.split sum.split)
qed

lemma ioctl_write_pair_safe:
  assumes "sysfs_inv (sys st)" "pair_buf_ok (raw_pair (add_env_of E))"
  shows "returns_ok (if leaks E HWEIOCTL_WRITE_PAIR arg st then 1 else 0) st (ioctl_write_pair E arg st) \<or>
    ioctl_write_pair E arg st = Oops \<and> missing_device arg st"
proof (cases "get_devid_ok (umem st arg) \<and> str_kmalloc_ok E \<and> copy_from_ok (umem st arg) \<and>
    parse_devid (word_of_int (device_id (upair (umem st arg)))) \<noteq> None")
  case False
  then show ?thesis
    using assms(1) by (auto simp: ioctl_write_pair_def leaks_def Let_def intro!: returns_ok_Done split: option.split)
next
  case True
  then obtain i n where d: "parse_devid (word_of_int (device_id (upair (umem st arg)))) = Some (i, n)" by auto
  define hp where "hp = umem st arg"
  define str where "str = read_at (pair_text (upair hp)) 0 HWE_MAX_PAIR_STR @ [NUL]"
  have eq: "ioctl_write_pair E arg st =
      (case on_sys (hwe_add_pair (klib_of E) (add_env_of E) i n str) (st\<lparr>str_bufs := str_bufs st + 1\<rparr>) of
         Done (ret, st) \<Rightarrow>
           (let st = st\<lparr>str_bufs := str_bufs st - 1\<rparr>
            in if ret < 0 then Done (ret, st)
               else if \<not> put_index_ok hp then Done (- EFAULT, st)
               else Done (0, put_pair arg ((upair hp)\<lparr>pair_index := ret\<rparr>) st))
       | Blocked \<Rightarrow> Blocked | Oops \<Rightarrow> Oops)"
    using True d by (simp add: ioctl_write_pair_def str_def hp_def on_sys_def Let_def split: run.split)
  consider r s where "hwe_add_pair (klib_of E) (add_env_of E) i n str (sys st) = Done (r, s)" "sysfs_inv s"
    | "hwe_add_pair (klib_of E) (add_env_of E) i n str (sys st) = Oops" "find_device_by_index i n (sys st) = None"
    using hwe_add_pair_safe [OF assms, where K = "klib_of E" and i = i and n = n and str = str] by metis
  then show ?thesis
  proof cases
    case 1
    then show ?thesis
      using True unfolding eq by (auto simp: on_sys_def Let_def put_pair_def leaks_def intro!: returns_ok_Done)
  next
    case 2
    then show ?thesis using d unfolding eq by (simp add: on_sys_def missing_device_def)
  qed
qed

text \<open>C31: whatever the request number, the argument, the user memory and the answers of the kernel,
  an ioctl returns and leaves the state of all devices consistent and every interface
  unlocked. There are two exceptions. \<open>HWEIOCTL_WRITE_PAIR\<close> for a device that does not exist may
  dereference a null pointer; and when the user's text cannot be read it leaves its buffer
  allocated. In all other cases the number of buffers is what it was.\<close>

theorem hwemu_ioctl_safe:
  assumes "sysfs_inv (sys st)" "pair_buf_ok (raw_pair (add_env_of E))"
  shows "(\<exists>r st'. hwemu_ioctl ops E cmd arg st = Done (r, st') \<and> sysfs_inv (sys st') \<and>
      str_bufs st' = str_bufs st + (if leaks E cmd arg st then 1 else 0)) \<or>
    hwemu_ioctl ops E cmd arg st = Oops \<and> cmd = HWEIOCTL_WRITE_PAIR \<and> missing_device arg st"
proof (cases "cmd = HWEIOCTL_WRITE_PAIR")
  case True
  then have "hwemu_ioctl ops E cmd arg st = ioctl_write_pair E arg st"
    by (simp add: hwemu_ioctl_def hweioctl_consts)
  then show ?thesis using ioctl_write_pair_safe [OF assms, of arg] True by (simp add: returns_ok_def)
next
  case False
  then have "\<not> leaks E cmd arg st" by (simp add: leaks_def)
  moreover have "returns_ok 0 st (hwemu_ioctl ops E cmd arg st)"
    unfolding hwemu_ioctl_def using False assms(1)
    by (simp add: ioctl_simple_safe ioctl_read_pair_safe returns_ok_Done)
  ultimately show ?thesis by (simp add: returns_ok_def)
qed

definition sample_user :: user_mem where
  "sample_user =
     \<lparr>upair = \<lparr>device_id = 0, pair_index = 0, pair_text = ''01=02'' @ replicate 4088 NUL\<rparr>,
      get_devid_ok = True, get_index_ok = True, put_index_ok = True, copy_from_ok = True, copy_to_fault = None\<rparr>"

definition sample_ioctl :: "(unit, unit) ioctl_state" where
  "sample_ioctl = \<lparr>sys = sample_state, umem = (\<lambda>a. sample_user), str_bufs = 0\<rparr>"

definition sample_ioctl_env :: ioctl_env where
  "sample_ioctl_env = \<lparr>klib_of = sample_klib, str_kmalloc_ok = True, add_env_of = sample_env,
     new_env_of = sample_new_env, stack_idx = 0\<rparr>"

definition unit_ops :: "(unit, unit) hwe_dev_ops" where
  "unit_ops = \<lparr>create = (\<lambda>i n w. (Some (), w)), destroy = (\<lambda>i d w. w)\<rparr>"

theorem hwemu_ioctl_safe_witness:
  "(\<exists>r st'. hwemu_ioctl unit_ops sample_ioctl_env HWEIOCTL_WRITE_PAIR 4096 sample_ioctl = Done (r, st') \<and> sysfs_inv (sys st') \<and>
      str_bufs st' = str_bufs sample_ioctl + (if leaks sample_ioctl_env HWEIOCTL_WRITE_PAIR 4096 sample_ioctl then 1 else 0)) \<or>
    hwemu_ioctl unit_ops sample_ioctl_env HWEIOCTL_WRITE_PAIR 4096 sample_ioctl = Oops \<and>
      HWEIOCTL_WRITE_PAIR = HWEIOCTL_WRITE_PAIR \<and> missing_device 4096 sample_ioctl"
  by (rule hwemu_ioctl_safe) (simp_all add: sample_ioctl_def sample_ioctl_env_def sample_state_inv sample_env_ok)

section \<open>Writing a pair\<close>

text \<open>The user's structure names an existing device and no access faults.\<close>

definition names_device :: "user_mem \<Rightarrow> HWE_IFACE \<Rightarrow> nat \<Rightarrow> bool" where
  "names_device hp i n \<longleftrightarrow>
     device_id (upair hp) = make_devid i (int n) \<and> n < HWE_MAX_DEVICES \<and> get_devid_ok hp \<and> get_index_ok hp \<and>
     put_index_ok hp \<and> copy_from_ok hp \<and> copy_to_fault hp = None"

definition written_text :: "user_mem \<Rightarrow> string" where
  "written_text hp = read_at (pair_text (upair hp)) 0 HWE_MAX_PAIR_STR @ [NUL]"

lemma add_pair_effect:
  assumes "sysfs_inv st" "find_device_by_index i n st = Some dev" "pair_buf_ok (raw_pair E)" "create_file_err E \<le> 0"
  shows "\<exists>r st'. hwe_add_pair K E i n str st = Done (r, st') \<and> sysfs_inv st' \<and>
    abs_state st' = abs_update i n (Some (add_effect K E dev str (length (c_string str)))) (abs_state st) \<and>
    (r = int (find_first_zero_bit (pairs_indexes dev) HWE_MAX_PAIRS) \<and> (\<exists>q. add_accepted K E dev str (length (c_string str)) q) \<or>
     r < 0 \<and> (\<nexists>q. add_accepted K E dev str (length (c_string str)) q))"
proof -
  have inv: "dev_inv dev" using sysfs_inv_dev [OF assms(1,2)] by simp
  obtain st' where st': "hwe_add_pair K E i n str st = Done (fst (hwe_add_pair_locked K E dev str), st')"
    "sysfs_inv st'" "find_device_by_index i n st' = Some (snd (hwe_add_pair_locked K E dev str))"
    "\<forall>m. m \<noteq> n \<longrightarrow> find_device_by_index i m st' = find_device_by_index i m st"
    "\<forall>j. j \<noteq> i \<longrightarrow> devs st' j = devs st j"
    using hwe_add_pair_runs [OF assms(1,3,2), of K str] by auto
  have abs: "abs_state st' = abs_update i n (Some (add_effect K E dev str (length (c_string str)))) (abs_state st)"
    using abs_state_changed [OF st'(3-5)] add_locked_effect(1) [OF inv assms(3,4)]
    by (simp add: hwe_add_pair_same_device)
  show ?thesis
    using st'(1,2) abs hwe_add_pair_accepted [OF inv assms(3), of K str] hwe_add_pair_rejected [OF inv assms(3) _ assms(4), of K str]
    by (cases "\<exists>q. add_accepted K E dev str (length (c_string str)) q") fastforce+
qed

lemma put_pair_simps [simp]:
  "sys (put_pair arg hp st) = sys st" "upair (umem (put_pair arg hp st) arg) = hp"
  "a \<noteq> arg \<Longrightarrow> umem (put_pair arg hp st) a = umem st a"
  by (simp_all add: put_pair_def)

text \<open>C32: \<open>HWEIOCTL_WRITE_PAIR\<close> for an existing device inserts the text of the user's structure, as
  writing it to the device's \<open>add\<close> file would. If the text is accepted, the request returns 0,
  stores the index of the new pair (the least free one) in the structure, and the abstract
  device has the pair; otherwise it returns an error, and neither the device nor the user's
  memory changes.\<close>

theorem ioctl_write_pair_inserts:
  assumes "sysfs_inv (sys st)" "names_device (umem st arg) i n" "find_device_by_index i n (sys st) = Some dev"
    "pair_buf_ok (raw_pair (add_env_of E))" "create_file_err (add_env_of E) \<le> 0" "str_kmalloc_ok E"
  shows "\<exists>r st'. hwemu_ioctl ops E HWEIOCTL_WRITE_PAIR arg st = Done (r, st') \<and> sysfs_inv (sys st') \<and>
    (let buf = written_text (umem st arg)
     in if \<exists>q. add_accepted (klib_of E) (add_env_of E) dev buf (length (c_string buf)) q
        then r = 0 \<and>
          pair_index (upair (umem st' arg)) = int (find_first_zero_bit (pairs_indexes dev) HWE_MAX_PAIRS) \<and>
          abs_state (sys st') = abs_update i n (Some (add_effect (klib_of E) (add_env_of E) dev buf (length (c_string buf)))) (abs_state (sys st))
        else r < 0 \<and> abs_state (sys st') = abs_state (sys st) \<and> umem st' = umem st)"
proof -
  define buf where "buf = written_text (umem st arg)"
  have d: "parse_devid (word_of_int (device_id (upair (umem st arg)))) = Some (i, n)"
    using assms(2) parse_make_devid [of n i] by (simp add: names_device_def)
  obtain r s where run: "hwe_add_pair (klib_of E) (add_env_of E) i n buf (sys st) = Done (r, s)" "sysfs_inv s"
    and abs: "abs_state s = abs_update i n (Some (add_effect (klib_of E) (add_env_of E) dev buf (length (c_string buf)))) (abs_state (sys st))"
    and r: "r = int (find_first_zero_bit (pairs_indexes dev) HWE_MAX_PAIRS) \<and> (\<exists>q. add_accepted (klib_of E) (add_env_of E) dev buf (length (c_string buf)) q) \<or>
      r < 0 \<and> (\<nexists>q. add_accepted (klib_of E) (add_env_of E) dev buf (length (c_string buf)) q)"
    using add_pair_effect [OF assms(1,3-5), where K = "klib_of E" and str = buf] by blast
  define st' where "st' = (if r < 0 then st\<lparr>sys := s\<rparr> else put_pair arg ((upair (umem st arg))\<lparr>pair_index := r\<rparr>) (st\<lparr>sys := s\<rparr>))"
  have "hwemu_ioctl ops E HWEIOCTL_WRITE_PAIR arg st = ioctl_write_pair E arg st"
    by (simp add: hwemu_ioctl_def hweioctl_consts)
  also have "\<dots> = Done (if r < 0 then r else 0, st')"
    using assms(2,6) d run(1)
    by (simp add: ioctl_write_pair_def names_device_def Let_def on_sys_def st'_def put_pair_def
        flip: buf_def [unfolded written_text_def])
  finally have ioctl: "hwemu_ioctl ops E HWEIOCTL_WRITE_PAIR arg st = Done (if r < 0 then r else 0, st')" .
  have same: "abs_state s = abs_state (sys st)" if "\<nexists>q. add_accepted (klib_of E) (add_env_of E) dev buf (length (c_string buf)) q"
    unfolding abs using that assms(3)
    by (intro abs_update_same) (auto simp: abs_state_def add_effect_def split: sum.split)
  show ?thesis
    unfolding Let_def buf_def [symmetric]
    using ioctl run(2) abs r same by (intro exI [of _ "if r < 0 then r else 0"] exI [of _ st']) (auto simp: st'_def)
qed

theorem ioctl_write_pair_inserts_witness:
  "\<exists>r st'. hwemu_ioctl unit_ops sample_ioctl_env HWEIOCTL_WRITE_PAIR 4096 sample_ioctl = Done (r, st') \<and> sysfs_inv (sys st') \<and>
    (let buf = written_text (umem sample_ioctl 4096)
     in if \<exists>q. add_accepted (klib_of sample_ioctl_env) (add_env_of sample_ioctl_env) sample_dev buf (length (c_string buf)) q
        then r = 0 \<and>
          pair_index (upair (umem st' 4096)) = int (find_first_zero_bit (pairs_indexes sample_dev) HWE_MAX_PAIRS) \<and>
          abs_state (sys st') = abs_update HWE_TTY 0 (Some (add_effect (klib_of sample_ioctl_env) (add_env_of sample_ioctl_env) sample_dev buf (length (c_string buf)))) (abs_state (sys sample_ioctl))
        else r < 0 \<and> abs_state (sys st') = abs_state (sys sample_ioctl) \<and> umem st' = umem sample_ioctl)"
  by (rule ioctl_write_pair_inserts)
    (simp_all add: sample_ioctl_def sample_ioctl_env_def sample_state_inv sample_state_dev sample_env_ok
      names_device_def sample_user_def make_devid_def hwe_consts)

text \<open>Setting up the character device. It exists afterwards exactly when all four registrations
  succeed, and every failure releases the device number and the class. But if
  \<open>device_create\<close> fails the result is that of the preceding \<open>cdev_add\<close>, that is success, and
  the \<open>cdev\<close> stays added.\<close>

lemma hwe_init_ioctl_outcomes:
  assumes "cdev_err E \<le> 0" "c = \<lparr>region = False, class_made = False, cdev_added = False, device_made = False\<rparr>"
  shows "hwe_init_ioctl E c =
    (if alloc_region_err E < 0 then (alloc_region_err E, c)
     else if class_err E \<noteq> 0 then (class_err E, c)
     else if cdev_err E \<noteq> 0 then (cdev_err E, c)
     else if device_err E \<noteq> 0 then (0, c\<lparr>cdev_added := True\<rparr>)
     else (0, \<lparr>region = True, class_made = True, cdev_added = True, device_made = True\<rparr>))"
  using assms by (simp add: hwe_init_ioctl_def Let_def)

end
