(* ===== verification/System.thy ===== *)
theory System
  imports Drivers Ioctl
begin

text \<open>
  The module at work: what the kernel calls in the drivers, with their locks and with the search
  among the pairs of the registry's device, and one step of the whole system.

  A driver reaches the pairs through its \<open>hwedev\<close>; following that pointer when the device is
  gone is an \<open>Oops\<close> (\<open>hwedev_search\<close>). The I2C functions look at \<open>in_use\<close> first and take the lock
  only if it is set; the SPI and network functions take no lock, as in the code. A private data
  address that is no longer in a driver's list has been freed, and using it is an \<open>Oops\<close> too.
\<close>

section \<open>The kernel's entry points\<close>

definition hwedev_search :: "bool \<Rightarrow> HWE_IFACE \<Rightarrow> nat \<Rightarrow> (nat, drivers) sysfs \<Rightarrow> search_fn run" where
  "hwedev_search needed i h st =
     (case find_device_by_index i h st of
        Some hwedev \<Rightarrow> Done (find_response hwedev)
      | None \<Rightarrow> if needed then Oops else Done (\<lambda>rq n. None))"

definition put_drv :: "(drivers \<Rightarrow> drivers) \<Rightarrow> (nat, drivers) sysfs \<Rightarrow> (nat, drivers) sysfs" where
  "put_drv f st = st\<lparr>drv := f (drv st)\<rparr>"

definition put_i2c :: "nat \<Rightarrow> i2c_priv \<Rightarrow> drivers \<Rightarrow> drivers" where
  "put_i2c a dev w = w\<lparr>d_i2c := update_priv a (\<lambda>d. dev) (d_i2c w)\<rparr>"

definition put_spi :: "nat \<Rightarrow> spi_priv \<Rightarrow> drivers \<Rightarrow> drivers" where
  "put_spi a dev w = w\<lparr>d_spi := (d_spi w)\<lparr>spi_list := update_priv a (\<lambda>d. dev) (spi_list (d_spi w))\<rparr>\<rparr>"

definition put_net :: "nat \<Rightarrow> net_priv \<Rightarrow> drivers \<Rightarrow> drivers" where
  "put_net a dev w = w\<lparr>d_net := update_priv a (\<lambda>d. dev) (d_net w)\<rparr>"

definition master_xfer_locked ::
  "nat \<Rightarrow> i2c_msg list \<Rightarrow> (nat, drivers) sysfs \<Rightarrow> ((int \<times> i2c_msg list) \<times> (nat, drivers) sysfs) run" where
  "master_xfer_locked a msgs st =
     (case map_of (d_i2c (drv st)) a of
        None \<Rightarrow> Oops
      | Some dev \<Rightarrow>
          (case hwedev_search (\<not> list_all m_rd msgs) HWE_I2C (i2c_hwedev dev) st of
             Done search \<Rightarrow>
               (case do_master_xfer search msgs dev of
                  (err, msgs, dev) \<Rightarrow> Done ((err, msgs), put_drv (put_i2c a dev) st))
           | Blocked \<Rightarrow> Blocked
           | Oops \<Rightarrow> Oops))"

definition hwei2c_master_xfer ::
  "nat \<Rightarrow> i2c_msg list \<Rightarrow> (nat, drivers) sysfs \<Rightarrow> ((int \<times> i2c_msg list) \<times> (nat, drivers) sysfs) run" where
  "hwei2c_master_xfer a msgs st =
     (case map_of (d_i2c (drv st)) a of
        None \<Rightarrow> Oops
      | Some dev \<Rightarrow>
          if \<not> in_use dev then Done ((- ENODEV, msgs), st)
          else with_iface_lock HWE_I2C (master_xfer_locked a msgs) st)"

definition hwei2c_smbus_xfer ::
  "bool \<Rightarrow> nat \<Rightarrow> bool \<Rightarrow> byte \<Rightarrow> smbus_size \<Rightarrow> byte list \<Rightarrow> (nat, drivers) sysfs \<Rightarrow>
     ((int \<times> byte list) \<times> (nat, drivers) sysfs) run" where
  "hwei2c_smbus_xfer be a write cmd sz data st =
     (case map_of (d_i2c (drv st)) a of
        None \<Rightarrow> Oops
      | Some dev \<Rightarrow>
          if \<not> in_use dev then Done ((- ENODEV, data), st)
          else
            with_iface_lock HWE_I2C
              (\<lambda>st. case map_of (d_i2c (drv st)) a of
                      None \<Rightarrow> Oops
                    | Some dev \<Rightarrow>
                        (case do_smbus_xfer be write cmd sz data (chip dev) of
                           (err, data, c) \<Rightarrow>
                             Done ((err, data), put_drv (put_i2c a (dev\<lparr>chip := c\<rparr>)) st))) st)"

definition spi_transfer_one ::
  "nat \<Rightarrow> spi_transfer \<Rightarrow> (nat, drivers) sysfs \<Rightarrow> ((int \<times> spi_transfer) \<times> (nat, drivers) sysfs) run" where
  "spi_transfer_one a t st =
     (case map_of (spi_list (d_spi (drv st))) a of
        None \<Rightarrow> Oops
      | Some dev \<Rightarrow>
          (case hwedev_search (tx_buf t \<noteq> None) HWE_SPI (spi_hwedev dev) st of
             Done search \<Rightarrow>
               (case hwespi_transfer_one search t dev of
                  (err, t, dev) \<Rightarrow> Done ((err, t), put_drv (put_spi a dev) st))
           | Blocked \<Rightarrow> Blocked
           | Oops \<Rightarrow> Oops))"

text \<open>\<open>n\<close> is \<open>tty->index\<close>, below 256.\<close>

definition tty_open :: "nat \<Rightarrow> nat \<Rightarrow> (nat, drivers) sysfs \<Rightarrow> (int \<times> (nat, drivers) sysfs) run" where
  "tty_open n tty st =
     with_iface_lock HWE_TTY
       (\<lambda>st. case hwetty_open n tty (d_tty (drv st)) of
               (r, s) \<Rightarrow> Done (r, put_drv (\<lambda>w. w\<lparr>d_tty := s\<rparr>) st)) st"

definition tty_close :: "nat \<Rightarrow> (nat, drivers) sysfs \<Rightarrow> (unit \<times> (nat, drivers) sysfs) run" where
  "tty_close n st =
     with_iface_lock HWE_TTY
       (\<lambda>st. Done ((), put_drv (\<lambda>w. w\<lparr>d_tty := hwetty_close n (d_tty w)\<rparr>) st)) st"

definition tty_write ::
  "nat \<Rightarrow> nat \<Rightarrow> byte list \<Rightarrow> nat \<Rightarrow> (nat, drivers) sysfs \<Rightarrow> (int \<times> (nat, drivers) sysfs) run" where
  "tty_write room n buffer cnt st =
     with_iface_lock HWE_TTY
       (\<lambda>st. case (case tty_devices (d_tty (drv st)) ! n of
                     None \<Rightarrow> Done (\<lambda>rq k. None)
                   | Some dev \<Rightarrow> hwedev_search True HWE_TTY (tty_hwedev dev) st) of
               Done search \<Rightarrow>
                 (case hwetty_write (\<lambda>dev. search) room n buffer cnt (d_tty (drv st)) of
                    (r, s) \<Rightarrow> Done (r, put_drv (\<lambda>w. w\<lparr>d_tty := s\<rparr>) st))
             | Blocked \<Rightarrow> Blocked
             | Oops \<Rightarrow> Oops) st"

definition net_updown :: "(net_priv \<Rightarrow> int \<times> net_priv) \<Rightarrow> nat \<Rightarrow> (nat, drivers) sysfs \<Rightarrow> (int \<times> (nat, drivers) sysfs) run" where
  "net_updown f a st =
     (case map_of (d_net (drv st)) a of
        None \<Rightarrow> Oops
      | Some dev \<Rightarrow> (case f dev of (r, dev) \<Rightarrow> Done (r, put_drv (put_net a dev) st)))"

definition net_xmit ::
  "net_env \<Rightarrow> nat \<Rightarrow> byte list \<Rightarrow> (nat, drivers) sysfs \<Rightarrow> (int \<times> (nat, drivers) sysfs) run" where
  "net_xmit E a skb st =
     (case map_of (d_net (drv st)) a of
        None \<Rightarrow> Oops
      | Some dev \<Rightarrow>
          (case hwedev_search True HWE_NET (net_hwedev dev) st of
             Done search \<Rightarrow>
               (case hwenet_xmit search E skb dev of
                  Done (r, dev) \<Rightarrow> Done (r, put_drv (put_net a dev) st)
                | Blocked \<Rightarrow> Blocked
                | Oops \<Rightarrow> Oops)
           | Blocked \<Rightarrow> Blocked
           | Oops \<Rightarrow> Oops))"

section \<open>The system invariant\<close>

definition system_inv :: "(nat, drivers) sysfs \<Rightarrow> bool" where
  "system_inv st \<longleftrightarrow> sysfs_inv st \<and> linked st"

lemma put_drv_simps [simp]:
  "ifaces (put_drv f st) = ifaces st" "drv (put_drv f st) = f (drv st)"
  "find_device_by_index i n (put_drv f st) = find_device_by_index i n st" "base_kset (put_drv f st) = base_kset st"
  by (simp_all add: put_drv_def find_device_by_index_def)

lemma put_drv_sysfs [simp]: "sysfs_inv (put_drv f st) = sysfs_inv st" "abs_state (put_drv f st) = abs_state st"
  by (simp_all add: sysfs_inv_def abs_state_def fun_eq_iff)

lemma put_drv_system:
  assumes "system_inv st" "drivers_inv (f (drv st))" "\<And>i. owner_of i (f (drv st)) = owner_of i (drv st)"
  shows "system_inv (put_drv f st)"
  using assms by (simp add: system_inv_def linked_def)

text \<open>Writing private data that still serve the same device.\<close>

lemma priv_all_update:
  assumes "distinct (map fst s)" "map_of s a = Some dev" "\<forall>(b, d) \<in> set s. Q d" "Q (f dev)"
  shows "\<forall>(b, e) \<in> set (update_priv a f s). Q e"
proof -
  have "Q e" if mem: "(b, e) \<in> set (update_priv a f s)" for b e
  proof -
    obtain d where d: "(b, d) \<in> set s" "e = (if b = a then f d else d)" using set_update [OF mem] by blast
    show ?thesis
    proof (cases "b = a")
      case True
      then have "d = dev" using d(1) assms(1,2) by (simp add: map_of_is_SomeI)
      then show ?thesis using True d(2) assms(4) by simp
    next
      case False
      then show ?thesis using d assms(3) by auto
    qed
  qed
  then show ?thesis by blast
qed

definition keeps_i2c :: "i2c_priv \<Rightarrow> i2c_priv \<Rightarrow> bool" where
  "keeps_i2c dev dev' \<longleftrightarrow> (i2c_ok dev \<longrightarrow> i2c_ok dev') \<and> in_use dev' = in_use dev \<and> adapter_on dev' = adapter_on dev \<and>
     i2c_hwedev dev' = i2c_hwedev dev \<and> i2c_index dev' = i2c_index dev"

lemma keeps_i2c_update:
  assumes "i2c_inv s" "map_of s a = Some dev" "keeps_i2c dev (f dev)"
  shows "i2c_inv (update_priv a f s)" "i2c_owner (update_priv a f s) = i2c_owner s"
proof -
  have active: "i2c_active (update_priv a f s) b = (if b = a \<and> in_use dev then Some (f dev) else i2c_active s b)" for b
    using assms(2,3) by (simp add: i2c_active_def map_of_update keeps_i2c_def)
  then show "i2c_owner (update_priv a f s) = i2c_owner s"
    using assms(2,3) by (auto simp: i2c_owner_def fun_eq_iff i2c_active_def keeps_i2c_def)
  have list: "i2c_list_ok s" using assms(1) by (simp add: i2c_inv_def)
  then have old: "distinct (map fst s)" "\<forall>(b, d) \<in> set s. i2c_ok d \<and> adapter_on d = in_use d"
    by (simp_all add: i2c_list_ok_def)
  have "(a, dev) \<in> set s" by (rule map_of_SomeD [OF assms(2)])
  then have "i2c_ok (f dev) \<and> adapter_on (f dev) = in_use (f dev)"
    using old(2) assms(3) by (auto simp: keeps_i2c_def)
  then have "i2c_list_ok (update_priv a f s)"
    using priv_all_update [OF old(1) assms(2) old(2)] old(1) by (simp add: i2c_list_ok_def)
  moreover have "i2c_index d = i2c_hwedev d" if "i2c_active (update_priv a f s) b = Some d" for b d
  proof (cases "b = a \<and> in_use dev")
    case True
    then have "i2c_active s a = Some dev" using assms(2) by (simp add: i2c_active_def)
    then have "i2c_index dev = i2c_hwedev dev" using assms(1) by (simp add: i2c_inv_def)
    then show ?thesis using True that active [of b] assms(3) by (auto simp: keeps_i2c_def)
  next
    case False
    then have "i2c_active s b = Some d" using that active [of b] by auto
    then show ?thesis using assms(1) by (simp add: i2c_inv_def)
  qed
  ultimately show "i2c_inv (update_priv a f s)" by (simp add: i2c_inv_def)
qed

lemma keeps_spi_update:
  assumes "spi_inv s" "map_of (spi_list s) a = Some dev" "rb_ok dev \<longrightarrow> rb_ok (f dev)"
    "spi_hwedev (f dev) = spi_hwedev dev" "spi_index (f dev) = spi_index dev"
  shows "spi_inv (s\<lparr>spi_list := update_priv a f (spi_list s)\<rparr>)"
    "spi_owner (s\<lparr>spi_list := update_priv a f (spi_list s)\<rparr>) = spi_owner s"
proof -
  show "spi_owner (s\<lparr>spi_list := update_priv a f (spi_list s)\<rparr>) = spi_owner s"
    using assms(2,4) by (auto simp: spi_owner_def map_of_update fun_eq_iff)
  have old: "distinct (map fst (spi_list s))" "\<forall>(b, d) \<in> set (spi_list s). rb_ok d \<and> spi_index d = spi_hwedev d"
    using assms(1) by (auto simp: spi_inv_def spi_ok_def)
  have "(a, dev) \<in> set (spi_list s)" by (rule map_of_SomeD [OF assms(2)])
  then have "rb_ok (f dev) \<and> spi_index (f dev) = spi_hwedev (f dev)" using old(2) assms(3-5) by auto
  then have "\<forall>(b, e) \<in> set (update_priv a f (spi_list s)). rb_ok e \<and> spi_index e = spi_hwedev e"
    by (rule priv_all_update [OF old(1) assms(2) old(2)])
  moreover have "fst ` set (update_priv a f (spi_list s)) = fst ` set (spi_list s)"
    using arg_cong [OF map_fst_update [of a f "spi_list s"], of set] by (simp only: set_map)
  ultimately show "spi_inv (s\<lparr>spi_list := update_priv a f (spi_list s)\<rparr>)"
    using assms(1) by (auto simp: spi_inv_def spi_ok_def)
qed

lemma keeps_net_update:
  assumes "net_inv s" "map_of s a = Some dev"
    "registered (f dev) = registered dev" "net_hwedev (f dev) = net_hwedev dev" "net_index (f dev) = net_index dev"
  shows "net_inv (update_priv a f s)" "net_owner (update_priv a f s) = net_owner s"
proof -
  show "net_owner (update_priv a f s) = net_owner s"
    using assms(2,4) by (auto simp: net_owner_def map_of_update fun_eq_iff)
  have old: "distinct (map fst s)" "\<forall>(b, d) \<in> set s. registered d \<and> net_index d = net_hwedev d"
    using assms(1) by (simp_all add: net_inv_def)
  have "(a, dev) \<in> set s" by (rule map_of_SomeD [OF assms(2)])
  then have "registered (f dev) \<and> net_index (f dev) = net_hwedev (f dev)" using old(2) assms(3-5) by auto
  then have "\<forall>(b, e) \<in> set (update_priv a f s). registered e \<and> net_index e = net_hwedev e"
    by (rule priv_all_update [OF old(1) assms(2) old(2)])
  then show "net_inv (update_priv a f s)" using assms(1) by (auto simp: net_inv_def)
qed

section \<open>From a driver to the registry\<close>

lemma linked_device:
  assumes "system_inv st" "owner_of i (drv st) a = Some n"
  shows "\<exists>dev. find_device_by_index i n st = Some dev \<and> device dev = Some a \<and> dev_ok i dev"
proof -
  obtain dev where dev: "dev \<in> set (devs st i)" "device dev = Some a" "dev_index dev = n"
    using assms by (auto simp: system_inv_def linked_def serves_def)
  have inv: "iface_inv i (ifaces st i)" using assms(1) by (simp add: system_inv_def sysfs_inv_def)
  then have "find_device_by_index i n st = Some dev" "dev_ok i dev"
    using dev by (simp_all add: find_device_by_index_iff) (simp add: iface_inv_def)
  then show ?thesis using dev(2) by blast
qed

lemma device_linked:
  assumes "system_inv st" "find_device_by_index i n st = Some dev" "device dev = Some a"
  shows "owner_of i (drv st) a = Some n"
  using assms find_device_by_index_Some [OF assms(2)] by (auto simp: system_inv_def linked_def serves_def)

lemma search_ok_response: "dev_ok i dev \<Longrightarrow> search_ok (find_response dev)"
  by (auto simp: search_ok_def find_response_def dev_ok_def intro: dev_inv_wf dest: find_pair_Some)

lemma with_lock_put:
  assumes "sysfs_inv st" "body (locked i st) = Done (r, put_drv f (locked i st))"
  shows "with_iface_lock i body st = Done (r, put_drv f st)"
proof -
  have "unlock_iface_devs i (put_drv f (locked i st)) = put_drv f (unlock_iface_devs i (locked i st))"
    by (simp add: put_drv_def unlock_iface_devs_def update_iface_def)
  then show ?thesis using assms by (simp add: with_iface_lock_eq)
qed

lemma hwedev_search_locked [simp]: "hwedev_search b i h (locked j st) = hwedev_search b i h st"
  by (simp add: hwedev_search_def)

section \<open>I2C\<close>

lemma do_msg_keeps: "keeps_i2c dev (snd (snd (do_msg search err m dev)))"
  if "search_ok search" "rb_ok dev" "msg_ok m"
  using do_msg_safe(1) [OF that(2,3,1), of err] do_msg_frame [of search err m dev]
  by (auto simp: keeps_i2c_def i2c_ok_def do_msg_def take_response_def load_response_def Let_def split: option.split)

lemma do_msgs_keeps:
  "search_ok search \<Longrightarrow> rb_ok dev \<Longrightarrow> list_all msg_ok msgs \<Longrightarrow>
     keeps_i2c dev (snd (snd (do_msgs search err msgs dev)))"
proof (induction msgs arbitrary: err dev)
  case Nil
  then show ?case by (simp add: keeps_i2c_def)
next
  case (Cons m msgs)
  obtain e m' dev' where step: "do_msg search err m dev = (e, m', dev')" by (cases "do_msg search err m dev")
  have "keeps_i2c dev dev'" "rb_ok dev'"
    using do_msg_keeps [of search dev m err] do_msg_safe(1) [of dev m search err] step Cons.prems by simp_all
  moreover have "keeps_i2c dev' (snd (snd (do_msgs search e msgs dev')))"
    using Cons.IH [of dev' e] Cons.prems calculation(2) by simp
  ultimately show ?case
    using step by (cases "do_msgs search e msgs dev'") (auto simp: keeps_i2c_def)
qed

lemma put_i2c_system:
  assumes "system_inv st" "map_of (d_i2c (drv st)) a = Some dev" "keeps_i2c dev dev'"
  shows "system_inv (put_drv (put_i2c a dev') st)"
proof (rule put_drv_system [OF assms(1)])
  have inv: "drivers_inv (drv st)" using assms(1) by (simp add: system_inv_def linked_def)
  note keeps = keeps_i2c_update [of "d_i2c (drv st)" a dev "\<lambda>d. dev'", OF _ assms(2,3)]
  show "drivers_inv (put_i2c a dev' (drv st))" using inv keeps by (simp add: drivers_inv_def put_i2c_def)
  show "owner_of i (put_i2c a dev' (drv st)) = owner_of i (drv st)" for i
    using inv keeps(2) by (cases i) (simp_all add: put_i2c_def drivers_inv_def)
qed

lemma put_spi_system:
  assumes "system_inv st" "map_of (spi_list (d_spi (drv st))) a = Some dev" "rb_ok dev \<longrightarrow> rb_ok dev'"
    "spi_hwedev dev' = spi_hwedev dev" "spi_index dev' = spi_index dev"
  shows "system_inv (put_drv (put_spi a dev') st)"
proof (rule put_drv_system [OF assms(1)])
  have inv: "drivers_inv (drv st)" using assms(1) by (simp add: system_inv_def linked_def)
  note keeps = keeps_spi_update [of "d_spi (drv st)" a dev "\<lambda>d. dev'", OF _ assms(2-5)]
  show "drivers_inv (put_spi a dev' (drv st))" using inv keeps by (simp add: drivers_inv_def put_spi_def)
  show "owner_of i (put_spi a dev' (drv st)) = owner_of i (drv st)" for i
    using inv keeps(2) by (cases i) (simp_all add: put_spi_def drivers_inv_def)
qed

lemma put_net_system:
  assumes "system_inv st" "map_of (d_net (drv st)) a = Some dev"
    "registered dev' = registered dev" "net_hwedev dev' = net_hwedev dev" "net_index dev' = net_index dev"
  shows "system_inv (put_drv (put_net a dev') st)"
proof (rule put_drv_system [OF assms(1)])
  have inv: "drivers_inv (drv st)" using assms(1) by (simp add: system_inv_def linked_def)
  note keeps = keeps_net_update [of "d_net (drv st)" a dev "\<lambda>d. dev'", OF _ assms(2-5)]
  show "drivers_inv (put_net a dev' (drv st))" using inv keeps by (simp add: drivers_inv_def put_net_def)
  show "owner_of i (put_net a dev' (drv st)) = owner_of i (drv st)" for i
    using inv keeps(2) by (cases i) (simp_all add: put_net_def drivers_inv_def)
qed

text \<open>A transfer on an adapter that is in use runs on the pairs of the registry's device.\<close>

lemma i2c_device:
  assumes "system_inv st" "map_of (d_i2c (drv st)) a = Some dev" "in_use dev"
  shows "\<exists>hdev. find_device_by_index HWE_I2C (i2c_hwedev dev) st = Some hdev \<and> dev_ok HWE_I2C hdev \<and> device hdev = Some a"
proof -
  have "owner_of HWE_I2C (drv st) a = Some (i2c_hwedev dev)"
    using assms(2,3) by (simp add: i2c_owner_def i2c_active_def)
  then show ?thesis using linked_device [OF assms(1)] by blast
qed

lemma i2c_priv_ok:
  assumes "system_inv st" "map_of (d_i2c (drv st)) a = Some dev"
  shows "i2c_ok dev"
  using map_of_SomeD [OF assms(2)] assms(1)
  by (auto simp: system_inv_def linked_def drivers_inv_def i2c_inv_def i2c_list_ok_def)

lemma hwei2c_master_xfer_runs:
  assumes "system_inv st" "map_of (d_i2c (drv st)) a = Some dev" "list_all msg_ok msgs"
  shows "if in_use dev
    then \<exists>hdev err msgs' dev'. find_device_by_index HWE_I2C (i2c_hwedev dev) st = Some hdev \<and>
      do_master_xfer (find_response hdev) msgs dev = (err, msgs', dev') \<and>
      hwei2c_master_xfer a msgs st = Done ((err, msgs'), put_drv (put_i2c a dev') st) \<and>
      system_inv (put_drv (put_i2c a dev') st)
    else hwei2c_master_xfer a msgs st = Done ((- ENODEV, msgs), st)"
proof (cases "in_use dev")
  case False
  then show ?thesis using assms(2) by (simp add: hwei2c_master_xfer_def)
next
  case True
  obtain hdev where hdev: "find_device_by_index HWE_I2C (i2c_hwedev dev) st = Some hdev" "dev_ok HWE_I2C hdev"
    using i2c_device [OF assms(1,2) True] by blast
  obtain err msgs' dev' where run: "do_master_xfer (find_response hdev) msgs dev = (err, msgs', dev')"
    by (cases "do_master_xfer (find_response hdev) msgs dev")
  have "i2c_ok dev" by (rule i2c_priv_ok [OF assms(1,2)])
  then have "keeps_i2c dev (snd (snd (do_master_xfer (find_response hdev) msgs dev)))"
    unfolding do_master_xfer_def using assms(3) search_ok_response [OF hdev(2)]
    by (intro do_msgs_keeps) (simp_all add: i2c_ok_def)
  then have inv: "system_inv (put_drv (put_i2c a dev') st)"
    using run by (intro put_i2c_system [OF assms(1,2)]) simp
  have "hwei2c_master_xfer a msgs st = Done ((err, msgs'), put_drv (put_i2c a dev') st)"
    using assms(1) True by (simp add: hwei2c_master_xfer_def assms(2), intro with_lock_put)
      (simp_all add: master_xfer_locked_def system_inv_def assms(2) hwedev_search_def hdev(1) run)
  then show ?thesis using True hdev(1) run inv by auto
qed

lemma hwei2c_smbus_xfer_runs:
  assumes "system_inv st" "map_of (d_i2c (drv st)) a = Some dev" "length data = 34"
  shows "if in_use dev
    then \<exists>err data' c. do_smbus_xfer be w cmd sz data (chip dev) = (err, data', c) \<and>
      hwei2c_smbus_xfer be a w cmd sz data st = Done ((err, data'), put_drv (put_i2c a (dev\<lparr>chip := c\<rparr>)) st) \<and>
      system_inv (put_drv (put_i2c a (dev\<lparr>chip := c\<rparr>)) st)
    else hwei2c_smbus_xfer be a w cmd sz data st = Done ((- ENODEV, data), st)"
proof (cases "in_use dev")
  case False
  then show ?thesis using assms(2) by (simp add: hwei2c_smbus_xfer_def)
next
  case True
  obtain err data' c where run: "do_smbus_xfer be w cmd sz data (chip dev) = (err, data', c)"
    by (cases "do_smbus_xfer be w cmd sz data (chip dev)")
  have ok: "i2c_ok dev" by (rule i2c_priv_ok [OF assms(1,2)])
  then have "chip_ok c"
    using do_smbus_xfer_safe(1) [of "chip dev" data be w cmd sz] run assms(3) by (simp add: i2c_ok_def)
  then have "keeps_i2c dev (dev\<lparr>chip := c\<rparr>)" by (simp add: keeps_i2c_def i2c_ok_def rb_ok_def)
  then have inv: "system_inv (put_drv (put_i2c a (dev\<lparr>chip := c\<rparr>)) st)" by (rule put_i2c_system [OF assms(1,2)])
  have "hwei2c_smbus_xfer be a w cmd sz data st = Done ((err, data'), put_drv (put_i2c a (dev\<lparr>chip := c\<rparr>)) st)"
    using assms(1) True by (simp add: hwei2c_smbus_xfer_def assms(2), intro with_lock_put)
      (simp_all add: system_inv_def assms(2) run)
  then show ?thesis using True run inv by auto
qed

section \<open>SPI\<close>

lemma spi_device:
  assumes "system_inv st" "map_of (spi_list (d_spi (drv st))) a = Some dev"
  shows "\<exists>hdev. find_device_by_index HWE_SPI (spi_hwedev dev) st = Some hdev \<and> dev_ok HWE_SPI hdev \<and> device hdev = Some a"
    "rb_ok dev"
proof -
  have "owner_of HWE_SPI (drv st) a = Some (spi_hwedev dev)" using assms(2) by (simp add: spi_owner_def)
  then show "\<exists>hdev. find_device_by_index HWE_SPI (spi_hwedev dev) st = Some hdev \<and> dev_ok HWE_SPI hdev \<and> device hdev = Some a"
    using linked_device [OF assms(1)] by blast
  show "rb_ok dev"
    using map_of_SomeD [OF assms(2)] assms(1)
    by (auto simp: system_inv_def linked_def drivers_inv_def spi_inv_def spi_ok_def)
qed

lemma spi_transfer_frame:
  "spi_hwedev (snd (snd (hwespi_transfer_one search t dev))) = spi_hwedev dev"
  "spi_index (snd (snd (hwespi_transfer_one search t dev))) = spi_index dev"
  by (simp_all add: hwespi_transfer_one_def spi_read_def take_response_def load_response_def Let_def split: option.split)

lemma spi_transfer_one_runs:
  assumes "system_inv st" "map_of (spi_list (d_spi (drv st))) a = Some dev" "transfer_ok t"
  shows "\<exists>hdev t' dev'. find_device_by_index HWE_SPI (spi_hwedev dev) st = Some hdev \<and>
    hwespi_transfer_one (find_response hdev) t dev = (0, t', dev') \<and>
    spi_transfer_one a t st = Done ((0, t'), put_drv (put_spi a dev') st) \<and> system_inv (put_drv (put_spi a dev') st)"
proof -
  obtain hdev where hdev: "find_device_by_index HWE_SPI (spi_hwedev dev) st = Some hdev" "dev_ok HWE_SPI hdev"
    using spi_device(1) [OF assms(1,2)] by blast
  have ok: "rb_ok dev" by (rule spi_device(2) [OF assms(1,2)])
  obtain t' dev' where run: "hwespi_transfer_one (find_response hdev) t dev = (0, t', dev')" "rb_ok dev'"
    using spi_transfer_keeps [OF ok assms(3) search_ok_response [OF hdev(2)]] by blast
  have "system_inv (put_drv (put_spi a dev') st)"
    using run spi_transfer_frame [of "find_response hdev" t dev] by (intro put_spi_system [OF assms(1,2)]) simp_all
  moreover have "spi_transfer_one a t st = Done ((0, t'), put_drv (put_spi a dev') st)"
    using run(1) by (simp add: spi_transfer_one_def assms(2) hwedev_search_def hdev(1))
  ultimately show ?thesis using hdev(1) run(1) by auto
qed

section \<open>NET\<close>

lemma net_device:
  assumes "system_inv st" "map_of (d_net (drv st)) a = Some dev"
  shows "\<exists>hdev. find_device_by_index HWE_NET (net_hwedev dev) st = Some hdev \<and> dev_ok HWE_NET hdev \<and> device hdev = Some a"
proof -
  have "owner_of HWE_NET (drv st) a = Some (net_hwedev dev)" using assms(2) by (simp add: net_owner_def)
  then show ?thesis using linked_device [OF assms(1)] by blast
qed

lemma send_response_frame:
  "send_response E data dev = Done (r, dev') \<Longrightarrow>
     registered dev' = registered dev \<and> net_hwedev dev' = net_hwedev dev \<and> net_index dev' = net_index dev"
  by (auto simp: send_response_def split: if_splits)

lemma hwenet_xmit_frame:
  "hwenet_xmit search E skb dev = Done (r, dev') \<Longrightarrow>
     registered dev' = registered dev \<and> net_hwedev dev' = net_hwedev dev \<and> net_index dev' = net_index dev"
  by (auto simp: hwenet_xmit_def Let_def dest: send_response_frame split: option.splits)

lemma net_xmit_eq:
  assumes "system_inv st" "map_of (d_net (drv st)) a = Some dev"
    "find_device_by_index HWE_NET (net_hwedev dev) st = Some hdev"
  shows "net_xmit E a skb st =
    (case hwenet_xmit (find_response hdev) E skb dev of
       Done (r, dev) \<Rightarrow> Done (r, put_drv (put_net a dev) st) | Blocked \<Rightarrow> Blocked | Oops \<Rightarrow> Oops)"
  using assms by (simp add: net_xmit_def hwedev_search_def)

lemma net_xmit_keeps:
  assumes "system_inv st" "net_xmit E a skb st = Done (r, st')"
  shows "system_inv st' \<and> abs_state st' = abs_state st"
proof -
  obtain dev where dev: "map_of (d_net (drv st)) a = Some dev"
    using assms(2) by (auto simp: net_xmit_def split: option.splits)
  obtain hdev where hdev: "find_device_by_index HWE_NET (net_hwedev dev) st = Some hdev"
    using net_device [OF assms(1) dev] by blast
  obtain dev' where run: "hwenet_xmit (find_response hdev) E skb dev = Done (r, dev')" "st' = put_drv (put_net a dev') st"
    using assms(2) net_xmit_eq [OF assms(1) dev hdev, of E skb]
    by (cases "hwenet_xmit (find_response hdev) E skb dev") auto
  then show ?thesis
    using hwenet_xmit_frame [OF run(1)] put_net_system [OF assms(1) dev, of dev'] by simp
qed

lemma net_updown_keeps:
  assumes "system_inv st" "net_updown f a st = Done (r, st')" "f = hwenet_open \<or> f = hwenet_stop"
  shows "system_inv st' \<and> abs_state st' = abs_state st"
proof -
  obtain dev where dev: "map_of (d_net (drv st)) a = Some dev"
    using assms(2) by (auto simp: net_updown_def split: option.splits)
  then have "st' = put_drv (put_net a (snd (f dev))) st"
    using assms(2) by (auto simp: net_updown_def split: prod.splits)
  then show ?thesis
    using assms(3) put_net_system [OF assms(1) dev, of "snd (f dev)"] by (auto simp: hwenet_open_def hwenet_stop_def)
qed

section \<open>TTY\<close>

lemma put_tty_system:
  assumes "system_inv st" "tty_ok s" "map (map_option tty_hwedev) (tty_devices s) = map (map_option tty_hwedev) (tty_devices (d_tty (drv st)))"
  shows "system_inv (put_drv (\<lambda>w. w\<lparr>d_tty := s\<rparr>) st)"
proof (rule put_drv_system [OF assms(1)])
  have inv: "drivers_inv (drv st)" using assms(1) by (simp add: system_inv_def linked_def)
  then have old: "tty_inv (d_tty (drv st))" by (simp add: drivers_inv_def)
  have len: "length (tty_devices s) = HWE_MAX_DEVICES" "length (tty_devices (d_tty (drv st))) = HWE_MAX_DEVICES"
    using assms(2) old by (simp_all add: tty_ok_def tty_inv_def)
  have same: "map_option tty_hwedev (tty_devices s ! n) = map_option tty_hwedev (tty_devices (d_tty (drv st)) ! n)"
    if "n < HWE_MAX_DEVICES" for n
    using arg_cong [OF assms(3), of "\<lambda>xs. xs ! n"] that len by simp
  have "tty_hwedev dev = n" if "n < HWE_MAX_DEVICES" "tty_devices s ! n = Some dev" for n dev
    using same [OF that(1)] that old by (cases "tty_devices (d_tty (drv st)) ! n") (simp_all add: tty_inv_def)
  then have "tty_inv s" using assms(2) by (simp add: tty_inv_def)
  then show "drivers_inv ((drv st)\<lparr>d_tty := s\<rparr>)" using inv by (simp add: drivers_inv_def)
  have "tty_owner s = tty_owner (d_tty (drv st))" using same by (auto simp: tty_owner_def fun_eq_iff)
  then show "owner_of i ((drv st)\<lparr>d_tty := s\<rparr>) = owner_of i (drv st)" for i by (cases i) simp_all
qed

lemma system_tty_ok: "system_inv st \<Longrightarrow> tty_ok (d_tty (drv st))"
  by (simp add: system_inv_def linked_def drivers_inv_def tty_inv_def)

lemma tty_hwedevs:
  assumes "n < length (tty_devices s)"
  shows "map (map_option tty_hwedev) (tty_devices (snd (hwetty_open n t s))) = map (map_option tty_hwedev) (tty_devices s)"
    "map (map_option tty_hwedev) (tty_devices (hwetty_close n s)) = map (map_option tty_hwedev) (tty_devices s)"
    "map (map_option tty_hwedev) (tty_devices (snd (hwetty_write search room n buf cnt s))) = map (map_option tty_hwedev) (tty_devices s)"
  using assms
  by (auto simp: hwetty_open_def hwetty_close_def close_dev_def hwetty_write_def push_port_def list_eq_iff_nth_eq nth_list_update
      split: option.split)

lemma tty_open_runs:
  assumes "system_inv st" "n < HWE_MAX_DEVICES"
  shows "\<exists>r s. hwetty_open n t (d_tty (drv st)) = (r, s) \<and>
    tty_open n t st = Done (r, put_drv (\<lambda>w. w\<lparr>d_tty := s\<rparr>) st) \<and> system_inv (put_drv (\<lambda>w. w\<lparr>d_tty := s\<rparr>) st)"
proof -
  obtain r s where run: "hwetty_open n t (d_tty (drv st)) = (r, s)" by (cases "hwetty_open n t (d_tty (drv st))")
  note ok = system_tty_ok [OF assms(1)]
  have "system_inv (put_drv (\<lambda>w. w\<lparr>d_tty := s\<rparr>) st)"
    using run tty_ops_ok(1) [OF ok assms(2), of t] tty_hwedevs(1) [of n "d_tty (drv st)" t] ok assms(2)
    by (intro put_tty_system [OF assms(1)]) (simp_all add: tty_ok_def)
  moreover have "tty_open n t st = Done (r, put_drv (\<lambda>w. w\<lparr>d_tty := s\<rparr>) st)"
    unfolding tty_open_def using assms(1) by (intro with_lock_put) (simp_all add: system_inv_def run)
  ultimately show ?thesis using run by blast
qed

lemma tty_close_runs:
  assumes "system_inv st" "n < HWE_MAX_DEVICES"
  shows "\<exists>st'. tty_close n st = Done ((), st') \<and> system_inv st' \<and> abs_state st' = abs_state st"
proof -
  let ?f = "\<lambda>w. w\<lparr>d_tty := hwetty_close n (d_tty w)\<rparr>" and ?s = "hwetty_close n (d_tty (drv st))"
  note ok = system_tty_ok [OF assms(1)]
  have eq: "put_drv ?f st = put_drv (\<lambda>w. w\<lparr>d_tty := ?s\<rparr>) st" by (simp add: put_drv_def)
  have "system_inv (put_drv ?f st)"
    using tty_ops_ok(2) [OF ok assms(2)] tty_hwedevs(2) [of n "d_tty (drv st)"] ok assms(2)
    unfolding eq by (intro put_tty_system [OF assms(1)]) (simp_all add: tty_ok_def)
  moreover have "tty_close n st = Done ((), put_drv ?f st)"
    unfolding tty_close_def using assms(1) by (intro with_lock_put) (simp_all add: system_inv_def)
  ultimately show ?thesis by simp
qed

lemma tty_device:
  assumes "system_inv st" "n < HWE_MAX_DEVICES" "tty_devices (d_tty (drv st)) ! n = Some dev"
  shows "\<exists>hdev. find_device_by_index HWE_TTY n st = Some hdev \<and> dev_ok HWE_TTY hdev" "tty_hwedev dev = n"
proof -
  show n: "tty_hwedev dev = n"
    using assms by (simp add: system_inv_def linked_def drivers_inv_def tty_inv_def)
  then have "owner_of HWE_TTY (drv st) n = Some n" using assms(2,3) by (simp add: tty_owner_def)
  then show "\<exists>hdev. find_device_by_index HWE_TTY n st = Some hdev \<and> dev_ok HWE_TTY hdev"
    using linked_device [OF assms(1)] by blast
qed

lemma tty_write_runs:
  assumes "system_inv st" "n < HWE_MAX_DEVICES"
  shows "\<exists>search r s. (tty_devices (d_tty (drv st)) ! n \<noteq> None \<longrightarrow>
      (\<exists>hdev. find_device_by_index HWE_TTY n st = Some hdev \<and> search = find_response hdev)) \<and>
    hwetty_write (\<lambda>dev. search) room n buf cnt (d_tty (drv st)) = (r, s) \<and>
    tty_write room n buf cnt st = Done (r, put_drv (\<lambda>w. w\<lparr>d_tty := s\<rparr>) st) \<and> system_inv (put_drv (\<lambda>w. w\<lparr>d_tty := s\<rparr>) st)"
proof -
  note ok = system_tty_ok [OF assms(1)]
  obtain search where search: "(case tty_devices (d_tty (drv (locked HWE_TTY st))) ! n of
        None \<Rightarrow> Done (\<lambda>rq k. None)
      | Some dev \<Rightarrow> hwedev_search True HWE_TTY (tty_hwedev dev) (locked HWE_TTY st)) = Done search"
    "tty_devices (d_tty (drv st)) ! n \<noteq> None \<longrightarrow>
      (\<exists>hdev. find_device_by_index HWE_TTY n st = Some hdev \<and> search = find_response hdev)"
    using tty_device [OF assms] by (cases "tty_devices (d_tty (drv st)) ! n") (auto simp: hwedev_search_def)
  obtain r s where run: "hwetty_write (\<lambda>dev. search) room n buf cnt (d_tty (drv st)) = (r, s)"
    by (cases "hwetty_write (\<lambda>dev. search) room n buf cnt (d_tty (drv st))")
  have "system_inv (put_drv (\<lambda>w. w\<lparr>d_tty := s\<rparr>) st)"
    using run tty_ops_ok(3) [OF ok assms(2), of "\<lambda>dev. search" room buf cnt]
      tty_hwedevs(3) [of n "d_tty (drv st)" "\<lambda>dev. search" room buf cnt] ok assms(2)
    by (intro put_tty_system [OF assms(1)]) (simp_all add: tty_ok_def)
  moreover have "tty_write room n buf cnt st = Done (r, put_drv (\<lambda>w. w\<lparr>d_tty := s\<rparr>) st)"
    unfolding tty_write_def using assms(1) search(1)
    by (intro with_lock_put) (simp_all add: system_inv_def run)
  ultimately show ?thesis using run search(2) by blast
qed

section \<open>Registry operations keep the link\<close>

lemma links_replace:
  assumes "iface_inv i (ifaces st i)" "find_device_by_index i n st = Some dev" "dev_index dev' = n" "device dev' = device dev"
  shows "links (devs (replace_dev i dev' st) j) = links (devs st j)"
proof (cases "j = i")
  case True
  have dev: "dev \<in> set (devs st i)" "dev_index dev = n" using find_device_by_index_Some [OF assms(2)] by auto
  have "(device (if dev_index d = n then dev' else d), dev_index (if dev_index d = n then dev' else d)) = (device d, dev_index d)"
    if "d \<in> set (devs st i)" for d
  proof (cases "dev_index d = n")
    case True
    then have "find_device_by_index i n st = Some d" using that by (simp add: find_device_by_index_iff [OF assms(1)])
    then have "d = dev" using assms(2) by simp
    then show ?thesis using True assms(3,4) by simp
  qed simp
  then show ?thesis using assms(3) True by (simp add: links_def devs_replace_dev)
qed simp

lemma dev_handler_links:
  assumes "sysfs_inv st" "dev_handler i n f st = Done (r, st')"
    "\<And>dev. dev_index (snd (f dev)) = dev_index dev \<and> device (snd (f dev)) = device dev"
  shows "links (devs st' j) = links (devs st j)" "drv st' = drv st"
proof -
  obtain dev where dev: "find_device_by_index i n st = Some dev"
    using assms(2) dev_handler_missing [OF assms(1), of i n f] by (cases "find_device_by_index i n st") auto
  have inv: "iface_inv i (ifaces (locked i st) i)" using sysfs_inv_all_inv [OF assms(1)] all_inv_locked [of i st]
    by (simp add: all_inv_def)
  have eq: "st' = unlock_iface_devs i (replace_dev i (snd (f dev)) (locked i st))"
    using assms(2) dev unfolding dev_handler_def with_iface_lock_eq [OF assms(1)] by (auto split: prod.splits)
  have "dev_index (snd (f dev)) = n" using assms(3) find_device_by_index_Some [OF dev] by simp
  then show "links (devs st' j) = links (devs st j)"
    using links_replace [OF inv, of n dev "snd (f dev)" j] dev assms(3) by (simp add: eq)
  show "drv st' = drv st" by (simp add: eq)
qed

lemma dev_handler_system:
  assumes "system_inv st" "dev_handler i n f st = Done (r, st')" "sysfs_inv st'"
    "\<And>dev. dev_index (snd (f dev)) = dev_index dev \<and> device (snd (f dev)) = device dev"
  shows "system_inv st'"
proof -
  have inv: "sysfs_inv st" and linked: "linked st" using assms(1) by (simp_all add: system_inv_def)
  note keeps = dev_handler_links [OF inv assms(2,4)]
  have "linked st'" by (rule linked_cong [OF linked keeps(2)]) (rule keeps(1))
  then show ?thesis using assms(3) by (simp add: system_inv_def)
qed

text \<open>Pairs.\<close>

lemma hwe_delete_pair_system: "system_inv st \<Longrightarrow> hwe_delete_pair i n k st = Done (r, st') \<Longrightarrow> system_inv st'"
  using hwe_delete_pair_safe [of st i n k] dev_handler_system [of st i n "\<lambda>dev. hwe_delete_pair_locked dev k" r st']
  by (auto simp: system_inv_def hwe_delete_pair_eq split: option.splits)

lemma hwe_clear_pairs_system: "system_inv st \<Longrightarrow> hwe_clear_pairs i n st = Done (r, st') \<Longrightarrow> system_inv st'"
  using hwe_clear_pairs_safe [of st i n] dev_handler_system [of st i n "\<lambda>dev. (0, clear_pairs dev)" r st']
  by (auto simp: system_inv_def hwe_clear_pairs_eq split: option.splits)

lemma hwe_add_pair_system:
  assumes "system_inv st" "hwe_add_pair K E i n str st = Done (r, st')" "pair_buf_ok (raw_pair E)"
  shows "system_inv st'"
proof -
  have inv: "sysfs_inv st" using assms(1) by (simp add: system_inv_def)
  show ?thesis
  proof (cases "find_device_by_index i n st")
    case None
    then have "st' = st" using assms(2) hwe_add_pair_eq [OF inv, of K E i n str] by (auto split: if_splits sum.splits)
    then show ?thesis using assms(1) by simp
  next
    case (Some dev)
    then have run: "dev_handler i n (\<lambda>dev. hwe_add_pair_locked K E dev str) st = Done (r, st')"
      using assms(2) hwe_add_pair_eq [OF inv, of K E i n str] by simp
    have "sysfs_inv st'"
      using hwe_add_pair_safe [where K = K and i = i and n = n and str = str, OF inv assms(3)] assms(2) by auto
    then show ?thesis by (rule dev_handler_system [OF assms(1) run]) simp
  qed
qed

text \<open>Devices.\<close>

lemma linked_unlock [simp]: "linked (unlock_iface_devs i st) = linked st" "linked (locked i st) = linked st"
  by (simp_all add: linked_def)

lemma new_dev_system:
  assumes "system_inv st" "fresh_drivers BE (drv st)" "new_dev (dev_ops_table BE) E i (locked i st) = (r, st')"
  shows "system_inv (unlock_iface_devs i st')"
proof -
  have inv: "sysfs_inv st" "linked st" using assms(1) by (simp_all add: system_inv_def)
  have "all_inv (locked i st)" using sysfs_inv_all_inv [OF inv(1)] by simp
  then have "linked st'" "all_inv st' \<and> same_locks (locked i st) st'"
    using new_dev_linked [of "locked i st" BE E i r st'] new_dev_inv [of "locked i st"] inv(2) assms(2,3) by simp_all
  then show ?thesis using unlock_inv [OF inv(1), of st' i] by (simp add: system_inv_def)
qed

lemma shutdown_dev_system:
  assumes "system_inv st" "dev \<in> set (devs st i)"
  shows "system_inv (unlock_iface_devs i (shutdown_dev (dev_ops_table BE) dev (locked i st)))"
proof -
  have inv: "sysfs_inv st" "linked st" using assms(1) by (simp_all add: system_inv_def)
  have all: "all_inv (locked i st)" "dev \<in> set (devs (locked i st) i)"
    using sysfs_inv_all_inv [OF inv(1)] assms(2) by simp_all
  show ?thesis
    using shutdown_dev_linked [OF all(1) _ all(2), of BE] shutdown_dev_inv [OF all, of "dev_ops_table BE"] inv
      unlock_inv [OF inv(1)] by (simp add: system_inv_def)
qed

lemma hwe_add_device_system:
  assumes "system_inv st" "fresh_drivers BE (drv st)" "hwe_add_device (dev_ops_table BE) E i st = Done (r, st')"
  shows "system_inv st'"
proof -
  obtain od st1 where new: "new_dev (dev_ops_table BE) E i (locked i st) = (od, st1)"
    by (cases "new_dev (dev_ops_table BE) E i (locked i st)")
  have "sysfs_inv st" using assms(1) by (simp add: system_inv_def)
  then have "st' = unlock_iface_devs i st1"
    using assms(3) new by (cases od) (simp_all add: hwe_add_device_eq)
  then show ?thesis using new_dev_system [OF assms(1,2) new] by simp
qed

lemma iface_add_store_system:
  assumes "system_inv st" "fresh_drivers BE (drv st)" "iface_add_store (dev_ops_table BE) E i cnt st = Done (r, st')"
  shows "system_inv st'"
proof (cases "cnt = 0")
  case True
  then show ?thesis using assms by (simp add: iface_add_store_def)
next
  case False
  obtain od st1 where new: "new_dev (dev_ops_table BE) E i (locked i st) = (od, st1)"
    by (cases "new_dev (dev_ops_table BE) E i (locked i st)")
  have "sysfs_inv st" using assms(1) by (simp add: system_inv_def)
  then have "st' = unlock_iface_devs i st1"
    using assms(3) new False by (cases od) (simp_all add: iface_add_store_eq)
  then show ?thesis using new_dev_system [OF assms(1,2) new] by simp
qed

lemma hwe_delete_device_system:
  assumes "system_inv st" "hwe_delete_device (dev_ops_table BE) i n st = Done (r, st')"
  shows "system_inv st'"
proof -
  have inv: "sysfs_inv st" using assms(1) by (simp add: system_inv_def)
  show ?thesis
  proof (cases "find_device_by_index i n st")
    case None
    then show ?thesis
      using assms inv unfolding hwe_delete_device_def with_iface_lock_eq [OF inv] by simp
  next
    case (Some dev)
    then have "st' = unlock_iface_devs i (shutdown_dev (dev_ops_table BE) dev (locked i st))"
      using assms(2) unfolding hwe_delete_device_def with_iface_lock_eq [OF inv] by simp
    then show ?thesis using shutdown_dev_system [OF assms(1)] find_device_by_index_Some [OF Some] by simp
  qed
qed

lemma iface_uninstall_store_system:
  assumes "system_inv st" "iface_uninstall_store (dev_ops_table BE) i buf cnt st = Done (r, st')"
  shows "system_inv st'"
proof (cases "cnt = 0 \<or> copy_word buf cnt 16 = []")
  case True
  then have "iface_uninstall_store (dev_ops_table BE) i buf cnt st = Done (- EINVAL, st)"
    by (auto simp: iface_uninstall_store_def Let_def)
  then show ?thesis using assms by simp
next
  case False
  have inv: "sysfs_inv st" using assms(1) by (simp add: system_inv_def)
  show ?thesis
  proof (cases "find_device i (copy_word buf cnt 16) st")
    case None
    then show ?thesis
      using assms inv False unfolding iface_uninstall_store_def str_to_iface_to_str option.case with_iface_lock_eq [OF inv]
      by (simp add: Let_def)
  next
    case (Some dev)
    then have "st' = unlock_iface_devs i (shutdown_dev (dev_ops_table BE) dev (locked i st))"
      using assms(2) False
      unfolding iface_uninstall_store_def str_to_iface_to_str option.case with_iface_lock_eq [OF inv]
      by (simp add: Let_def)
    then show ?thesis using shutdown_dev_system [OF assms(1)] find_device_Some [OF Some] by simp
  qed
qed

end
