(* ===== verification/Hwemu.thy ===== *)
theory Hwemu
  imports System
begin

text \<open>
  The whole module: loading and unloading (\<open>hwe_main.c\<close>), one step of the running module, and what
  holds in every state it can reach.

  \<open>init_funcs\<close> and \<open>cleanup_funcs\<close> are the two arrays of function pointers, in the order the macros
  give: the interfaces in the order of the enumeration, then async, sysfs and ioctl. \<open>load_env\<close>
  collects the answers of the kernel during loading. Log messages, among them the functions
  \<open>hwe_log_request\<close> and \<open>hwe_log_response\<close>, do not touch the state and are left out.
\<close>

section \<open>Loading and unloading\<close>

record hwemu =
  m_sys :: "(nat, drivers) sysfs"
  m_timer :: "ulong option"
  m_chr :: chrdev

record load_env =
  tty_alloc_ok :: bool
  tty_reg_err :: int
  plat_dev_err :: int
  plat_drv_err :: int
  jiffies_now :: ulong
  sysfs_env :: init_env
  chr_env :: chrdev_env

definition put_sys :: "(drivers \<Rightarrow> drivers) \<Rightarrow> hwemu \<Rightarrow> hwemu" where
  "put_sys f m = m\<lparr>m_sys := put_drv f (m_sys m)\<rparr>"

definition init_funcs :: "load_env \<Rightarrow> bus_env \<Rightarrow> (hwemu \<Rightarrow> int \<times> hwemu) list" where
  "init_funcs E BE =
     [\<lambda>m. case hwe_init_tty (tty_alloc_ok E) (tty_reg_err E) (d_tty (drv (m_sys m))) of
            (err, s) \<Rightarrow> (err, put_sys (\<lambda>w. w\<lparr>d_tty := s\<rparr>) m),
      \<lambda>m. case hwe_init_i2c of (err, s) \<Rightarrow> (err, put_sys (\<lambda>w. w\<lparr>d_i2c := s\<rparr>) m),
      \<lambda>m. case hwe_init_net of (err, s) \<Rightarrow> (err, put_sys (\<lambda>w. w\<lparr>d_net := s\<rparr>) m),
      \<lambda>m. case hwe_init_spi (plat_dev_err E) (plat_drv_err E) (d_spi (drv (m_sys m))) of
            (err, s) \<Rightarrow> (err, put_sys (\<lambda>w. w\<lparr>d_spi := s\<rparr>) m),
      \<lambda>m. case hwe_init_async (jiffies_now E) of (err, t) \<Rightarrow> (err, m\<lparr>m_timer := t\<rparr>),
      \<lambda>m. case hwe_init_sysfs (dev_ops_table BE) (sysfs_env E) (m_sys m) of (err, s) \<Rightarrow> (err, m\<lparr>m_sys := s\<rparr>),
      \<lambda>m. case hwe_init_ioctl (chr_env E) (m_chr m) of (err, c) \<Rightarrow> (err, m\<lparr>m_chr := c\<rparr>)]"

definition cleanup_funcs :: "bus_env \<Rightarrow> (hwemu \<Rightarrow> hwemu) list" where
  "cleanup_funcs BE =
     [\<lambda>m. put_sys (\<lambda>w. w\<lparr>d_tty := hwe_cleanup_tty (d_tty w)\<rparr>) m,
      \<lambda>m. put_sys (\<lambda>w. w\<lparr>d_i2c := hwe_cleanup_i2c (d_i2c w)\<rparr>) m,
      \<lambda>m. put_sys (\<lambda>w. w\<lparr>d_net := hwe_cleanup_net (d_net w)\<rparr>) m,
      \<lambda>m. put_sys (\<lambda>w. w\<lparr>d_spi := hwe_cleanup_spi (d_spi w)\<rparr>) m,
      \<lambda>m. m\<lparr>m_timer := hwe_cleanup_async (m_timer m)\<rparr>,
      \<lambda>m. m\<lparr>m_sys := hwe_cleanup_sysfs (dev_ops_table BE) (m_sys m)\<rparr>,
      \<lambda>m. m\<lparr>m_chr := hwe_cleanup_ioctl (m_chr m)\<rparr>]"

text \<open>The loop over the array: the error and the number of functions that succeeded.\<close>

fun call_inits :: "('m \<Rightarrow> int \<times> 'm) list \<Rightarrow> nat \<Rightarrow> 'm \<Rightarrow> int \<times> nat \<times> 'm" where
  "call_inits [] i m = (0, i, m)"
| "call_inits (f # fs) i m =
     (case f m of (err, m) \<Rightarrow> if err \<noteq> 0 then (err, i, m) else call_inits fs (i + 1) m)"

definition call_cleanups :: "('m \<Rightarrow> 'm) list \<Rightarrow> 'm \<Rightarrow> 'm" where
  "call_cleanups fs m = foldl (\<lambda>m f. f m) m (rev fs)"

definition hwemu_init :: "load_env \<Rightarrow> bus_env \<Rightarrow> hwemu \<Rightarrow> int \<times> hwemu" where
  "hwemu_init E BE m =
     (case call_inits (init_funcs E BE) 0 m of
        (err, i, m) \<Rightarrow>
          if err \<noteq> 0 then (err, call_cleanups (take i (cleanup_funcs BE)) m) else (0, m))"

definition hwemu_exit :: "bus_env \<Rightarrow> hwemu \<Rightarrow> hwemu" where
  "hwemu_exit BE m = call_cleanups (cleanup_funcs BE) m"

section \<open>One step of the running module\<close>

text \<open>
  A step is one call into the module that returns. The premises are what the kernel promises: the
  allocator does not hand out memory in use, buffers have the sizes the callers say, the index
  of a terminal is that of a terminal.
\<close>

inductive hwemu_step :: "(nat, drivers) sysfs \<Rightarrow> (nat, drivers) sysfs \<Rightarrow> bool" where
  iface_store: "iface_attr_store (dev_ops_table BE) E attr i buf len st = Done (r, st') \<Longrightarrow>
    fresh_drivers BE (drv st) \<Longrightarrow> hwemu_step st st'"
| dev_store: "dev_attr_store K AE attr i n buf len st = Done (r, st') \<Longrightarrow>
    pair_buf_ok (raw_pair AE) \<Longrightarrow> hwemu_step st st'"
| ioctl: "hwemu_ioctl (dev_ops_table BE) IE cmd arg \<lparr>sys = st, umem = um, str_bufs = k\<rparr> = Done (r, ist') \<Longrightarrow>
    fresh_drivers BE (drv st) \<Longrightarrow> pair_buf_ok (raw_pair (add_env_of IE)) \<Longrightarrow> hwemu_step st (sys ist')"
| tick: "timer_func (async_rx_table RE) jiff now st = Done (st', t) \<Longrightarrow> hwemu_step st st'"
| i2c_xfer: "hwei2c_master_xfer a msgs st = Done (res, st') \<Longrightarrow> list_all msg_ok msgs \<Longrightarrow> hwemu_step st st'"
| i2c_smbus: "hwei2c_smbus_xfer be a w cmd8 sz data st = Done (res2, st') \<Longrightarrow> length data = 34 \<Longrightarrow> hwemu_step st st'"
| spi: "spi_transfer_one a t1 st = Done (res3, st') \<Longrightarrow> transfer_ok t1 \<Longrightarrow> hwemu_step st st'"
| topen: "tty_open n tty st = Done (r, st') \<Longrightarrow> n < HWE_MAX_DEVICES \<Longrightarrow> hwemu_step st st'"
| tclose: "tty_close n st = Done (u, st') \<Longrightarrow> n < HWE_MAX_DEVICES \<Longrightarrow> hwemu_step st st'"
| twrite: "tty_write room n bytes cnt st = Done (r, st') \<Longrightarrow> n < HWE_MAX_DEVICES \<Longrightarrow> hwemu_step st st'"
| nopen: "net_updown hwenet_open a st = Done (r, st') \<Longrightarrow> hwemu_step st st'"
| nstop: "net_updown hwenet_stop a st = Done (r, st') \<Longrightarrow> hwemu_step st st'"
| nxmit: "net_xmit NE a bytes st = Done (r, st') \<Longrightarrow> hwemu_step st st'"

inductive_cases hwemu_stepE: "hwemu_step st st'"

section \<open>Steps keep the invariant\<close>

text \<open>An ioctl reaches the devices only through the functions of \<open>hwe_sysfs.c\<close>, at most one of them.\<close>

lemma on_sys_Done: "on_sys f ist = Done (r, ist') \<Longrightarrow> f (sys ist) = Done (r, sys ist')"
  by (auto simp: on_sys_def split: run.splits)

lemma put_pair_sys [simp]: "sys (put_pair a hp ist) = sys ist"
  by (simp add: put_pair_def)

lemma ioctl_reaches:
  assumes "hwemu_ioctl ops E cmd arg ist = Done (r, ist')" "P (sys ist)"
    "\<And>i r s. hwe_add_device ops (new_env_of E) i (sys ist) = Done (r, s) \<Longrightarrow> P s"
    "\<And>i n r s. hwe_delete_device ops i n (sys ist) = Done (r, s) \<Longrightarrow> P s"
    "\<And>i n r s. hwe_get_pair_count i n (sys ist) = Done (r, s) \<Longrightarrow> P s"
    "\<And>stack i n k r s. hwe_get_pair stack i n k (sys ist) = Done (r, s) \<Longrightarrow> P s"
    "\<And>K i n str r s. hwe_add_pair K (add_env_of E) i n str (sys ist) = Done (r, s) \<Longrightarrow> P s"
    "\<And>i n k r s. hwe_delete_pair i n k (sys ist) = Done (r, s) \<Longrightarrow> P s"
    "\<And>i n r s. hwe_clear_pairs i n (sys ist) = Done (r, s) \<Longrightarrow> P s"
  shows "P (sys ist')"
proof -
  have add: "P (sys s)" if "ioctl_add_device ops E arg ist = Done (r, s)" for r s
    using that assms(2) by (auto simp: ioctl_add_device_def Let_def split: if_splits run.splits dest!: on_sys_Done assms(3))
  have del: "P (sys s)" if "ioctl_delete_device ops arg ist = Done (r, s)" for r s
    using that assms(2) by (auto simp: ioctl_delete_device_def split: option.splits dest!: on_sys_Done assms(4))
  have cnt: "P (sys s)" if "ioctl_pair_count arg ist = Done (r, s)" for r s
    using that assms(2) by (auto simp: ioctl_pair_count_def split: option.splits dest!: on_sys_Done assms(5))
  have rd: "P (sys s)" if "ioctl_read_pair E arg ist = Done (r, s)" for r s
    using that assms(2)
    by (auto simp: ioctl_read_pair_def Let_def split: if_splits option.splits run.splits sum.splits dest!: assms(6))
  have wr: "P (sys s)" if "ioctl_write_pair E arg ist = Done (r, s)" for r s
    using that assms(2)
    by (auto simp: ioctl_write_pair_def Let_def split: if_splits option.splits run.splits dest!: on_sys_Done assms(7))
  have delp: "P (sys s)" if "ioctl_delete_pair arg ist = Done (r, s)" for r s
    using that assms(2) by (auto simp: ioctl_delete_pair_def Let_def split: if_splits option.splits dest!: on_sys_Done assms(8))
  have clr: "P (sys s)" if "ioctl_clear_pairs arg ist = Done (r, s)" for r s
    using that assms(2) by (auto simp: ioctl_clear_pairs_def split: option.splits dest!: on_sys_Done assms(9))
  show ?thesis
    using assms(1,2) unfolding hwemu_ioctl_def by (auto split: if_splits dest: add del cnt rd wr delp clr)
qed

text \<open>Asynchronous packets.\<close>

definition same_owners :: "drivers \<Rightarrow> drivers \<Rightarrow> bool" where
  "same_owners w w' \<longleftrightarrow> drivers_inv w' \<and> (\<forall>i. owner_of i w' = owner_of i w)"

lemma keeps_i2c_async:
  assumes "wf_pair p"
  shows "keeps_i2c dev (hwe_i2c_async_rx p dev)"
proof -
  define n where "n = (if resp_size p < I2C_CHIP_SIZE then resp_size p else I2C_CHIP_SIZE)"
  define e where "e = dev\<lparr>chip := (chip dev)\<lparr>dat := memcpy_at (dat (chip dev)) 0 (read_at (resp p) 0 n)\<rparr>\<rparr>"
  have n: "n \<le> I2C_CHIP_SIZE" by (simp add: n_def)
  have e: "i2c_ok e" if "i2c_ok dev"
  proof -
    have "length (read_at (resp p) 0 n) \<le> n" by (simp add: read_at_def)
    then show ?thesis using that n by (simp add: i2c_ok_def e_def chip_ok_def rb_ok_def)
  qed
  have more: "chip (offer_async p e) = chip e" "in_use (offer_async p e) = in_use e" "adapter_on (offer_async p e) = adapter_on e"
    "i2c_hwedev (offer_async p e) = i2c_hwedev e" "i2c_index (offer_async p e) = i2c_index e"
    by (simp_all add: offer_async_def load_response_def)
  have "hwe_i2c_async_rx p dev = (if in_use dev then offer_async p e else dev)"
    by (simp add: hwe_i2c_async_rx_def n_def e_def)
  then show ?thesis
    using e offer_async_ok [of e p] assms more by (auto simp: keeps_i2c_def i2c_ok_def) (simp_all add: e_def)
qed

lemma keeps_spi_async:
  "spi_hwedev (hwe_spi_async_rx p dev) = spi_hwedev dev" "spi_index (hwe_spi_async_rx p dev) = spi_index dev"
  by (simp_all add: hwe_spi_async_rx_def offer_async_def load_response_def)

lemma net_async_frame:
  "hwe_net_async_rx E p dev = Done dev' \<Longrightarrow>
     registered dev' = registered dev \<and> net_hwedev dev' = net_hwedev dev \<and> net_index dev' = net_index dev"
  by (auto simp: hwe_net_async_rx_def dest: send_response_frame split: run.splits)

lemma async_tty_keeps:
  assumes "tty_inv s" "a < HWE_MAX_DEVICES"
  shows "tty_inv (hwe_tty_async_rx room a p s)" "tty_owner (hwe_tty_async_rx room a p s) = tty_owner s"
  using assms tty_ops_ok(5) [of s a room p]
  by (auto simp: tty_inv_def tty_owner_def hwe_tty_async_rx_def push_port_def fun_eq_iff)

lemma async_rx_keeps:
  assumes "drivers_inv w" "owner_of i w a = Some n" "wf_pair p" "async_rx_table E i a p w = Done w'"
  shows "same_owners w w'"
proof (cases i)
  case HWE_TTY
  then have "a < HWE_MAX_DEVICES" using assms(2) by (simp add: tty_owner_def split: if_splits)
  then have "drivers_inv w'" "owner_of j w' = owner_of j w" for j
    using assms(1,4) async_tty_keeps [of "d_tty w" a "port_room E" p] HWE_TTY
    by (auto simp: drivers_inv_def) (cases j; auto)
  then show ?thesis by (simp add: same_owners_def)
next
  case HWE_I2C
  then obtain dev where dev: "map_of (d_i2c w) a = Some dev" using assms(4) by (auto split: option.splits)
  have "i2c_inv (d_i2c w)" using assms(1) by (simp add: drivers_inv_def)
  note keeps = keeps_i2c_update [where f = "hwe_i2c_async_rx p", OF this dev keeps_i2c_async [OF assms(3)]]
  have w': "w' = w\<lparr>d_i2c := update_priv a (hwe_i2c_async_rx p) (d_i2c w)\<rparr>" using assms(4) HWE_I2C dev by simp
  have "owner_of j w' = owner_of j w" for j using keeps by (cases j) (simp_all add: w')
  then show ?thesis using keeps assms(1) by (simp add: same_owners_def drivers_inv_def w')
next
  case HWE_NET
  then obtain dev dev' where dev: "map_of (d_net w) a = Some dev" "hwe_net_async_rx (net_env_of E) p dev = Done dev'"
    using assms(4) by (auto split: option.splits run.splits)
  have "net_inv (d_net w)" using assms(1) by (simp add: drivers_inv_def)
  note keeps = keeps_net_update [where f = "\<lambda>d. dev'", OF this dev(1)]
  have w': "w' = w\<lparr>d_net := update_priv a (\<lambda>d. dev') (d_net w)\<rparr>" using assms(4) HWE_NET dev by simp
  have "owner_of j w' = owner_of j w" for j
    using keeps net_async_frame [OF dev(2)] by (cases j) (simp_all add: w')
  then show ?thesis using keeps net_async_frame [OF dev(2)] assms(1) by (simp add: same_owners_def drivers_inv_def w')
next
  case HWE_SPI
  then obtain dev where dev: "map_of (spi_list (d_spi w)) a = Some dev" using assms(4) by (auto split: option.splits)
  have "rb_ok (hwe_spi_async_rx p dev)" if "rb_ok dev"
    using offer_async_ok [OF that assms(3)] by (simp add: hwe_spi_async_rx_def)
  moreover have "spi_inv (d_spi w)" using assms(1) by (simp add: drivers_inv_def)
  ultimately have keeps: "spi_inv ((d_spi w)\<lparr>spi_list := update_priv a (hwe_spi_async_rx p) (spi_list (d_spi w))\<rparr>)"
    "spi_owner ((d_spi w)\<lparr>spi_list := update_priv a (hwe_spi_async_rx p) (spi_list (d_spi w))\<rparr>) = spi_owner (d_spi w)"
    using dev keeps_spi_async [of p dev] by (intro keeps_spi_update; simp)+
  have w': "w' = w\<lparr>d_spi := (d_spi w)\<lparr>spi_list := update_priv a (hwe_spi_async_rx p) (spi_list (d_spi w))\<rparr>\<rparr>"
    using assms(4) HWE_SPI dev by simp
  have "owner_of j w' = owner_of j w" for j using keeps by (cases j) (simp_all add: w')
  then show ?thesis using keeps assms(1) by (simp add: same_owners_def drivers_inv_def w')
qed

lemma async_rx_runs:
  assumes "owner_of i w a = Some n" "skb_ok (net_env_of E)"
  shows "\<exists>w'. async_rx_table E i a p w = Done w'"
  using assms
  by (cases i) (auto simp: i2c_owner_def i2c_active_def net_owner_def spi_owner_def hwe_net_async_rx_def send_response_def
      split: option.splits)

lemma pair_of_device:
  assumes "system_inv st" "dev \<in> set (devs st i)" "device dev = Some a" "p \<in> set (pair_list dev)"
  shows "wf_pair (stamped jiff p)" "owner_of i (drv st) a = Some (dev_index dev)"
proof -
  have "dev_ok i dev" using assms(1,2) by (simp add: system_inv_def sysfs_inv_def iface_inv_def)
  then have "wf_pair p" using assms(4) by (auto simp: dev_ok_def intro: dev_inv_wf)
  then show "wf_pair (stamped jiff p)" by (auto simp: stamped_def wf_pair_def pair_buf_ok_def)
  show "owner_of i (drv st) a = Some (dev_index dev)"
    using assms(1-3) by (auto simp: system_inv_def linked_def serves_def)
qed

lemma links_tick: "links (dev_list (tick_iface jiff ifc)) = links (dev_list ifc)"
  by (simp add: tick_iface_def links_def)

lemma timer_func_system:
  assumes "system_inv st" "timer_func (async_rx_table E) jiff now st = Done (st', t)"
  shows "system_inv st'" "abs_state st' = abs_state st"
proof -
  have inv: "sysfs_inv st" "linked st" using assms(1) by (simp_all add: system_inv_def)
  have run: "timer_ifaces (async_rx_table E) jiff all_ifaces st = Done st'"
    using assms(2) by (auto simp: timer_func_def split: run.splits)
  have "same_owners (drv st) (drv st')"
  proof (rule timer_ifaces_drv [where P = "same_owners (drv st)", OF run distinct_all_ifaces])
    show "same_owners (drv st) (drv st)" using inv(2) by (simp add: same_owners_def linked_def)
  next
    fix i dev d p v v'
    assume v: "same_owners (drv st) v" and dev: "dev \<in> set (devs st i)" "device dev = Some d" "p \<in> set (pair_list dev)"
      and rx: "async_rx_table E i d (stamped jiff p) v = Done v'"
    have "owner_of i v d = Some (dev_index dev)"
      using v pair_of_device(2) [OF assms(1) dev] by (simp add: same_owners_def)
    then have "same_owners v v'"
      using v rx pair_of_device(1) [OF assms(1) dev] by (intro async_rx_keeps) (simp_all add: same_owners_def)
    then show "same_owners (drv st) v'" using v by (simp add: same_owners_def)
  qed
  moreover have "ifaces st' = ticked jiff (set all_ifaces) st"
    using timer_ifaces_Done [OF run distinct_all_ifaces] by simp
  ultimately have "linked st'"
    using inv(2) by (simp add: linked_def same_owners_def serves_links ticked_def links_tick)
  then show "system_inv st'" "abs_state st' = abs_state st"
    using tick_keeps_inv [OF inv(1) assms(2)] by (simp_all add: system_inv_def)
qed

lemma timer_func_runs:
  assumes "system_inv st" "skb_ok (net_env_of E)"
  shows "\<exists>st'. timer_func (async_rx_table E) jiff now st = Done (st', Some (now + PERIOD))"
proof -
  have inv: "sysfs_inv st" "linked st" using assms(1) by (simp_all add: system_inv_def)
  have "\<exists>st'. timer_ifaces (async_rx_table E) jiff all_ifaces st = Done st'"
  proof (rule timer_ifaces_runs [where P = "same_owners (drv st)", OF distinct_all_ifaces])
    show "same_owners (drv st) (drv st)" using inv(2) by (simp add: same_owners_def linked_def)
    show "\<And>i dev. dev \<in> set (devs st i) \<Longrightarrow> device dev \<noteq> None" by (rule inv_devices [OF inv(1)])
  next
    fix i dev d p v
    assume dev: "dev \<in> set (devs st i)" "device dev = Some d" "p \<in> set (pair_list dev)" and v: "same_owners (drv st) v"
    have own: "owner_of i v d = Some (dev_index dev)"
      using v pair_of_device(2) [OF assms(1) dev] by (simp add: same_owners_def)
    obtain v' where v': "async_rx_table E i d (stamped jiff p) v = Done v'" using async_rx_runs [OF own assms(2)] by blast
    have "same_owners v v'"
      using v own v' pair_of_device(1) [OF assms(1) dev] by (intro async_rx_keeps) (simp_all add: same_owners_def)
    then show "\<exists>v'. async_rx_table E i d (stamped jiff p) v = Done v' \<and> same_owners (drv st) v'"
      using v v' by (auto simp: same_owners_def)
  qed
  then show ?thesis by (auto simp: timer_func_def)
qed

lemma iface_store_system:
  assumes "system_inv st" "fresh_drivers BE (drv st)" "iface_attr_store (dev_ops_table BE) E attr i buf len st = Done (r, st')"
  shows "system_inv st'"
  using assms by (cases attr) (auto dest: iface_add_store_system iface_uninstall_store_system)

lemma dev_store_system:
  assumes "system_inv st" "pair_buf_ok (raw_pair AE)" "dev_attr_store K AE attr i n buf len st = Done (r, st')"
  shows "system_inv st'"
proof -
  have inv: "sysfs_inv st" using assms(1) by (simp add: system_inv_def)
  have found: "\<exists>dev. find_device_by_index i n st = Some dev" if "dev_handler i n f st = Done x" for f x
    using that dev_handler_missing [OF inv, of i n f] by (cases "find_device_by_index i n st") auto
  show ?thesis
  proof (cases attr)
    case DA_count
    then show ?thesis using assms by simp
  next
    case DA_add
    then have run: "dev_handler i n (\<lambda>dev. dev_add_store_locked K AE dev buf len) st = Done (r, st')"
      using assms(3) by (simp add: dev_add_store_def)
    then obtain dev where "find_device_by_index i n st = Some dev" using found by blast
    then have "sysfs_inv st'"
      using dev_add_store_runs [OF inv assms(2), of i n dev K buf len] run by (auto simp: dev_add_store_def)
    then show ?thesis by (rule dev_handler_system [OF assms(1) run]) simp
  next
    case DA_delete
    then have run: "dev_handler i n (\<lambda>dev. dev_delete_store_locked K dev buf len) st = Done (r, st')"
      using assms(3) by (simp add: dev_delete_store_def)
    then obtain dev where "find_device_by_index i n st = Some dev" using found by blast
    then have "sysfs_inv st'"
      using dev_delete_store_runs [OF inv, of i n dev K buf len] run by (auto simp: dev_delete_store_def)
    then show ?thesis by (rule dev_handler_system [OF assms(1) run]) simp
  next
    case DA_clear
    show ?thesis
    proof (cases "len = 0")
      case True
      then show ?thesis using assms DA_clear by (simp add: dev_clear_store_def)
    next
      case False
      then have run: "dev_handler i n (\<lambda>dev. (int len, clear_pairs dev)) st = Done (r, st')"
        using assms(3) DA_clear by (simp add: dev_clear_store_def)
      then obtain dev where "find_device_by_index i n st = Some dev" using found by blast
      then have "sysfs_inv st'"
        using dev_clear_store_runs [OF inv, of i n dev len] run False by (auto simp: dev_clear_store_def)
      then show ?thesis by (rule dev_handler_system [OF assms(1) run]) simp
    qed
  qed
qed

lemma ioctl_system:
  assumes "system_inv (sys ist)" "fresh_drivers BE (drv (sys ist))" "pair_buf_ok (raw_pair (add_env_of IE))"
    "hwemu_ioctl (dev_ops_table BE) IE cmd arg ist = Done (r, ist')"
  shows "system_inv (sys ist')"
proof (rule ioctl_reaches [where P = system_inv, OF assms(4,1)])
  have inv: "sysfs_inv (sys ist)" using assms(1) by (simp add: system_inv_def)
  show "system_inv s" if "hwe_get_pair_count i n (sys ist) = Done (r, s)" for i n r s
    using that hwe_get_pair_count_reads [OF inv, of i n] assms(1) by auto
  show "system_inv s" if "hwe_get_pair stack i n k (sys ist) = Done (r, s)" for stack i n k r s
    using that hwe_get_pair_reads [OF inv, of stack i n k] assms(1) by auto
qed (rule hwe_add_device_system [OF assms(1,2)] hwe_delete_device_system [OF assms(1)] hwe_add_pair_system [OF assms(1) _ assms(3)]
    hwe_delete_pair_system [OF assms(1)] hwe_clear_pairs_system [OF assms(1)], assumption)+

lemma i2c_xfer_system:
  assumes "system_inv st" "hwei2c_master_xfer a msgs st = Done (res, st')" "list_all msg_ok msgs"
  shows "system_inv st'"
proof -
  obtain dev where dev: "map_of (d_i2c (drv st)) a = Some dev"
    using assms(2) by (auto simp: hwei2c_master_xfer_def split: option.splits)
  show ?thesis using hwei2c_master_xfer_runs [OF assms(1) dev assms(3)] assms(1,2) by (auto split: if_splits)
qed

lemma i2c_smbus_system:
  assumes "system_inv st" "hwei2c_smbus_xfer be a w cmd sz data st = Done (res, st')" "length data = 34"
  shows "system_inv st'"
proof -
  obtain dev where dev: "map_of (d_i2c (drv st)) a = Some dev"
    using assms(2) by (auto simp: hwei2c_smbus_xfer_def split: option.splits)
  show ?thesis
    using hwei2c_smbus_xfer_runs [OF assms(1) dev assms(3), of be w cmd sz] assms(1,2) by (auto split: if_splits)
qed

lemma spi_system:
  assumes "system_inv st" "spi_transfer_one a t st = Done (res, st')" "transfer_ok t"
  shows "system_inv st'"
proof -
  obtain dev where dev: "map_of (spi_list (d_spi (drv st))) a = Some dev"
    using assms(2) by (auto simp: spi_transfer_one_def split: option.splits)
  show ?thesis using spi_transfer_one_runs [OF assms(1) dev assms(3)] assms(2) by auto
qed

lemma hwemu_step_system: "hwemu_step st st' \<Longrightarrow> system_inv st \<Longrightarrow> system_inv st'"
proof (induction rule: hwemu_step.induct)
  case (ioctl BE IE cmd arg st um k r ist')
  then show ?case using ioctl_system [of "\<lparr>sys = st, umem = um, str_bufs = k\<rparr>" BE IE cmd arg r ist'] by simp
next
  case (topen n tty st r st')
  then show ?case using tty_open_runs [of st n tty] by auto
next
  case (tclose n st u st')
  then show ?case using tty_close_runs [of st n] by auto
next
  case (twrite room n bytes cnt st r st')
  then show ?case using tty_write_runs [of st n room bytes cnt] by auto
qed (auto dest: iface_store_system dev_store_system timer_func_system(1) i2c_xfer_system i2c_smbus_system
    spi_system net_xmit_keeps net_updown_keeps)

section \<open>Requests and responses, end to end\<close>

text \<open>What the user configured for a device, as a map from requests to responses.\<close>

definition configured :: "(nat, drivers) sysfs \<Rightarrow> HWE_IFACE \<Rightarrow> nat \<Rightarrow> byte list \<Rightarrow> byte list option" where
  "configured st i n = fst (the (abs_state st i n))"

lemma configured_response:
  assumes "system_inv st" "find_device_by_index i n st = Some dev" "sz \<le> length rq"
  shows "map_option resp_bytes (find_response dev rq sz) = configured st i n (take sz rq)"
  using find_response_is_the_map_facts(1) [of st i n dev sz rq] assms by (simp add: configured_def system_inv_def)

lemma configured_pair:
  assumes "system_inv st" "find_device_by_index i n st = Some dev" "configured st i n rq = Some rp"
  shows "\<exists>p. find_response dev rq (length rq) = Some p \<and> resp_bytes p = rp \<and> wf_pair p"
proof -
  have "map_option resp_bytes (find_response dev rq (length rq)) = Some rp"
    using configured_response [OF assms(1,2), of "length rq" rq] assms(3) by simp
  then obtain p where p: "find_response dev rq (length rq) = Some p" "resp_bytes p = rp" by auto
  have "dev_ok i dev" using assms(1,2) sysfs_inv_dev by (auto simp: system_inv_def)
  then have "wf_pair p" using search_ok_response [of i dev] p(1) unfolding search_ok_def by blast
  then show ?thesis using p by blast
qed

lemma device_of: "system_inv st \<Longrightarrow> find_device_by_index i n st = Some dev \<Longrightarrow> \<exists>a. device dev = Some a"
  using sysfs_inv_dev [of st i n dev] by (auto simp: system_inv_def dev_ok_def)

text \<open>A loaded module with one device on every interface, each with one pair.\<close>

definition demo_handle :: "HWE_IFACE \<Rightarrow> nat" where
  "demo_handle i = (if i = HWE_TTY then 0 else 8)"

definition demo_dev :: "HWE_IFACE \<Rightarrow> nat hwe_dev" where
  "demo_dev i = add_new_pair (made_dev i 0 (demo_handle i)) (numbered sample_pair 0)"

definition demo_drivers :: drivers where
  "demo_drivers =
     \<lparr>d_tty = snd (hwe_create_tty_device \<lparr>kzalloc_addr = Some 8, register_err = 0, spi_dev_ok = True\<rparr> 0 0 boot_tty),
      d_i2c = [(8, i2c_created 0 0 zeroed_i2c)],
      d_net = [(8, \<lparr>net_hwedev = 0, net_index = 0, registered = True, queue_on = True, rx_frames = [],
        tx_bytes = 0, tx_packets = 0, rx_packets = 0\<rparr>)],
      d_spi = \<lparr>spi_list = [(8, zeroed_spi)], spi_masters = [8], plat_device = True, plat_driver = True\<rparr>\<rparr>"

definition demo :: "(nat, drivers) sysfs" where
  "demo = \<lparr>ifaces = (\<lambda>i. ifaces (added i (demo_dev i) (empty_sysfs demo_drivers)) i), drv = demo_drivers, base_kset = True\<rparr>"

lemma demo_dev_ok: "dev_ok i (demo_dev i)" "dev_index (demo_dev i) = 0" "device (demo_dev i) = Some (demo_handle i)"
proof -
  have "\<not> view_taken (view sample_pair) (made_dev i 0 (demo_handle i))"
    by (simp add: view_def sample_pair_wf replies_def)
  then show "dev_ok i (demo_dev i)" "dev_index (demo_dev i) = 0"
    using one_pair_dev_ok [OF sample_pair_wf(1)] by (simp_all add: demo_dev_def)
  show "device (demo_dev i) = Some (demo_handle i)" by (simp add: demo_dev_def add_new_pair_def made_dev_def)
qed

lemma demo_devs: "devs demo i = [demo_dev i]"
  by (simp add: demo_def added_def empty_sysfs_def empty_iface_def)

lemma demo_sysfs_inv: "sysfs_inv demo"
  using one_dev_state_inv [OF demo_dev_ok(1,2), of _ demo_drivers]
  by (simp add: sysfs_inv_def demo_def) (simp add: empty_sysfs_def empty_iface_def)

lemma demo_tty: "d_tty demo_drivers = boot_tty\<lparr>tty_devices := (replicate HWE_MAX_DEVICES None)[0 := Some \<lparr>tty_hwedev = 0, tty_struct = None, tty_index = 0\<rparr>],
    tty_nodes := (replicate HWE_MAX_DEVICES False)[0 := True]\<rparr>"
  by (simp add: demo_drivers_def hwe_create_tty_device_def boot_tty_def hwe_consts)

lemma demo_drivers_inv: "drivers_inv demo_drivers"
proof -
  have "tty_inv (d_tty demo_drivers)"
    by (auto simp: demo_tty tty_inv_def tty_ok_def boot_tty_def nth_list_update split: if_splits)
  moreover have "i2c_inv (d_i2c demo_drivers)"
    using i2c_created_ok [where dev = zeroed_i2c and h = 0 and n = 0] zeroed_i2c_ok
    by (simp add: i2c_inv_def i2c_list_ok_def i2c_active_def demo_drivers_def)
  moreover have "net_inv (d_net demo_drivers)" "spi_inv (d_spi demo_drivers)"
    using zeroed_spi_ok by (simp_all add: net_inv_def spi_inv_def spi_ok_def demo_drivers_def) (simp add: zeroed_spi_def)
  ultimately show ?thesis by (simp add: drivers_inv_def)
qed

lemma demo_owner: "owner_of i demo_drivers a = (if a = demo_handle i then Some 0 else None)"
proof (cases i)
  case HWE_TTY
  then show ?thesis
    by (auto simp: demo_handle_def tty_owner_def demo_tty nth_list_update hwe_consts)
next
  case HWE_I2C
  then show ?thesis
    using i2c_created_ok [where dev = zeroed_i2c and h = 0 and n = 0] by (simp add: demo_handle_def i2c_owner_def i2c_active_def demo_drivers_def)
qed (simp_all add: demo_handle_def net_owner_def spi_owner_def demo_drivers_def zeroed_spi_def)

lemma demo_inv: "system_inv demo"
proof -
  have "serves (owner_of i demo_drivers) (devs demo i)" for i
    using demo_dev_ok by (auto simp: serves_def demo_owner demo_devs split: if_splits)
  then have "linked demo" using demo_drivers_inv by (simp add: linked_def) (simp add: demo_def)
  then show ?thesis using demo_sysfs_inv by (simp add: system_inv_def)
qed

lemma demo_find: "find_device_by_index i 0 demo = Some (demo_dev i)"
  by (simp add: find_device_by_index_def demo_devs demo_dev_ok)

lemma demo_configured: "configured demo i 0 rq = (if rq = [1, 0xAB] then Some [0xFF] else None)"
  by (simp add: configured_def abs_state_def demo_find abs_dev_def replies_def demo_dev_def add_new_pair_def
      matches_def numbered_def sample_pair_def req_bytes_def resp_bytes_def made_dev_def hwe_consts)

lemmas demo_facts = demo_inv demo_find demo_dev_ok(3) demo_configured

text \<open>C5: writing to the emulated terminal, from the system call to the reader. The write to terminal
  \<open>n\<close> is accepted in full, and what its reader gets next is exactly the response configured for
  those bytes (as far as the port has room), or nothing if none is; the configuration is
  untouched and the system stays consistent.\<close>

theorem tty_end_to_end:
  assumes "system_inv st" "find_device_by_index HWE_TTY n st = Some dev" "cnt \<le> length buf"
  shows "\<exists>st'. tty_write room n buf cnt st = Done (int cnt, st') \<and> system_inv st' \<and> abs_state st' = abs_state st \<and>
    tty_ports (d_tty (drv st')) ! n = tty_ports (d_tty (drv st)) ! n @
      (case configured st HWE_TTY n (take cnt buf) of Some rp \<Rightarrow> take room rp | None \<Rightarrow> [])"
proof -
  obtain a where a: "device dev = Some a" using device_of [OF assms(1,2)] by blast
  have tty: "tty_inv (d_tty (drv st))" using assms(1) by (simp add: system_inv_def linked_def drivers_inv_def)
  have "tty_owner (d_tty (drv st)) a = Some n" using device_linked [OF assms(1,2) a] by simp
  then have n: "n < HWE_MAX_DEVICES" "tty_devices (d_tty (drv st)) ! n \<noteq> None"
    using tty_owner_Some [OF tty] tty_owner_iff [OF tty, of n] by auto
  obtain priv where priv: "tty_devices (d_tty (drv st)) ! n = Some priv" using n(2) by blast
  have idx: "tty_index priv = n" "length (tty_ports (d_tty (drv st))) = HWE_MAX_DEVICES"
    using tty priv n(1) by (simp_all add: tty_inv_def tty_ok_def)
  obtain r s where run: "hwetty_write (\<lambda>d. find_response dev) room n buf cnt (d_tty (drv st)) = (r, s)"
    "tty_write room n buf cnt st = Done (r, put_drv (\<lambda>w. w\<lparr>d_tty := s\<rparr>) st)"
    "system_inv (put_drv (\<lambda>w. w\<lparr>d_tty := s\<rparr>) st)"
    using tty_write_runs [OF assms(1) n(1), of room buf cnt] n(2) assms(2) by auto
  have "r = int cnt \<and> tty_ports s ! n = tty_ports (d_tty (drv st)) ! n @
      (case map_option resp_bytes (find_response dev buf cnt) of Some rp \<Rightarrow> take room rp | None \<Rightarrow> [])"
    using run(1) priv idx n(1) by (auto simp: hwetty_write_def push_port_def resp_bytes_def split: option.splits)
  then show ?thesis using run(2,3) configured_response [OF assms] by simp
qed

theorem tty_end_to_end_witness:
  "\<exists>st'. tty_write 4096 0 [1, 0xAB] 2 demo = Done (int 2, st') \<and> system_inv st' \<and> abs_state st' = abs_state demo \<and>
    tty_ports (d_tty (drv st')) ! 0 = tty_ports (d_tty (drv demo)) ! 0 @ [0xFF]"
  using tty_end_to_end [OF demo_inv demo_find, of 2 "[1, 0xAB]" 4096] by (simp add: demo_configured)

text \<open>C4: an I2C transaction, from the bus to the configured pair. A transfer on the adapter of device
  \<open>n\<close> that writes a request the user configured and reads as many bytes as its response has, in
  pieces of any sizes, succeeds and reads exactly that response; the configuration is
  untouched and the system stays consistent.\<close>

theorem i2c_end_to_end:
  assumes "system_inv st" "find_device_by_index HWE_I2C n st = Some dev" "device dev = Some a"
    "configured st HWE_I2C n rq = Some rp" "[] \<notin> set bs" "length (concat bs) = length rp"
  shows "\<exists>bs' st'. hwei2c_master_xfer a (wr_msg rq # map rd_msg bs) st =
      Done ((int (length bs) + 1, wr_msg rq # map rd_msg bs'), st') \<and>
    concat bs' = rp \<and> system_inv st' \<and> abs_state st' = abs_state st"
proof -
  have "i2c_owner (d_i2c (drv st)) a = Some n" using device_linked [OF assms(1-3)] by simp
  then obtain priv where priv: "map_of (d_i2c (drv st)) a = Some priv" "in_use priv" "i2c_hwedev priv = n"
    by (auto simp: i2c_owner_def i2c_active_def split: option.splits if_splits)
  obtain p where p: "find_response dev rq (length rq) = Some p" "resp_bytes p = rp" "wf_pair p"
    using configured_pair [OF assms(1,2,4)] by blast
  have rb: "rb_ok priv" using i2c_priv_ok [OF assms(1) priv(1)] by (simp add: i2c_ok_def)
  have len: "length (concat bs) = resp_size p" using assms(6) p(2) length_resp_bytes [OF p(3)] by simp
  obtain bs' priv' where run: "do_master_xfer (find_response dev) (wr_msg rq # map rd_msg bs) priv =
      (int (length bs) + 1, wr_msg rq # map rd_msg bs', priv')" "concat bs' = resp_bytes p"
    using i2c_answers [where search = "find_response dev", OF rb p(1,3) assms(5) len] by blast
  have "list_all msg_ok (wr_msg rq # map rd_msg bs)" by (simp add: list_all_iff msg_ok_def wr_msg_def rd_msg_def)
  from hwei2c_master_xfer_runs [OF assms(1) priv(1) this]
  show ?thesis using priv(2,3) assms(2) run p(2) by auto
qed

theorem i2c_end_to_end_witness:
  "\<exists>bs' st'. hwei2c_master_xfer 8 (wr_msg [1, 0xAB] # map rd_msg [[0]]) demo =
      Done ((int 1 + 1, wr_msg [1, 0xAB] # map rd_msg bs'), st') \<and>
    concat bs' = [0xFF] \<and> system_inv st' \<and> abs_state st' = abs_state demo"
  using i2c_end_to_end [OF demo_inv demo_find, of 8 "[1, 0xAB]" "[0xFF]" "[[0]]"]
  by (simp add: demo_configured demo_dev_ok demo_handle_def)

text \<open>C6: an SPI transaction, from the bus to the configured pair. After a write-only transfer of a
  request the user configured for device \<open>n\<close>, the next read-only transfer on that controller
  gets the response, cut to the buffer or followed by zeros.\<close>

theorem spi_end_to_end:
  assumes "system_inv st" "find_device_by_index HWE_SPI n st = Some dev" "device dev = Some a"
    "configured st HWE_SPI n rq = Some rp"
  shows "\<exists>st1 st2. spi_transfer_one a (tx_only rq) st = Done ((0, tx_only rq), st1) \<and>
    spi_transfer_one a (rx_only b) st1 =
      Done ((0, rx_only (take (length b) rp @ replicate (length b - length rp) 0)), st2) \<and>
    system_inv st2 \<and> abs_state st2 = abs_state st"
proof -
  have "spi_owner (d_spi (drv st)) a = Some n" using device_linked [OF assms(1-3)] by simp
  then obtain priv where priv: "map_of (spi_list (d_spi (drv st))) a = Some priv" "spi_hwedev priv = n"
    by (auto simp: spi_owner_def)
  obtain p where p: "find_response dev rq (length rq) = Some p" "resp_bytes p = rp" "wf_pair p"
    using configured_pair [OF assms(1,2,4)] by blast
  have arr: "length (rb_resp priv) = HWE_MAX_RESPONSE" using spi_device(2) [OF assms(1) priv(1)] by (simp add: rb_ok_def)
  define priv1 where "priv1 = load_response p False priv"
  note loaded = load_response_ok [OF arr p(3), of False, folded priv1_def]
  define st1 where "st1 = put_drv (put_spi a priv1) st"
  have "hwespi_transfer_one (find_response dev) (tx_only rq) priv = (0, tx_only rq, priv1)"
    using p(1) by (simp add: hwespi_transfer_one_def tx_only_def priv1_def)
  moreover have "transfer_ok (tx_only rq)" by (simp add: transfer_ok_def tx_only_def)
  ultimately have one: "spi_transfer_one a (tx_only rq) st = Done ((0, tx_only rq), st1)" "system_inv st1"
    using spi_transfer_one_runs [OF assms(1) priv(1), of "tx_only rq"] priv(2) assms(2) by (auto simp: st1_def)
  have priv1: "map_of (spi_list (d_spi (drv st1))) a = Some priv1" "spi_hwedev priv1 = n"
    using priv by (simp_all add: st1_def put_spi_def map_of_update) (simp add: priv1_def load_response_def)
  have size: "rb_size priv1 = length rp" "pending priv1 = rp"
    using loaded p(2) length_resp_bytes [OF p(3)] by simp_all
  have rd: "hwespi_transfer_one (find_response dev) (rx_only b) priv1 =
      (0, rx_only (take (length b) rp @ replicate (length b - length rp) 0), snd (spi_chunk b priv1))"
    using transfer_rx_only [OF loaded(1), of "find_response dev" b] by (simp add: spi_chunk_eq [OF loaded(1)] size)
  have "transfer_ok (rx_only b)" by (simp add: transfer_ok_def rx_only_def)
  then show ?thesis
    using spi_transfer_one_runs [OF one(2) priv1(1), of "rx_only b"] rd priv1(2) assms(2) one(1)
    by (auto simp: st1_def)
qed

theorem spi_end_to_end_witness:
  "\<exists>st1 st2. spi_transfer_one 8 (tx_only [1, 0xAB]) demo = Done ((0, tx_only [1, 0xAB]), st1) \<and>
    spi_transfer_one 8 (rx_only [7, 7]) st1 = Done ((0, rx_only [0xFF, 0]), st2) \<and>
    system_inv st2 \<and> abs_state st2 = abs_state demo"
  using spi_end_to_end [OF demo_inv demo_find, of 8 "[1, 0xAB]" "[0xFF]" "[7, 7]"]
  by (simp add: demo_configured demo_dev_ok demo_handle_def)

text \<open>C7: a frame sent to the emulated network, from the stack and back. With memory for the answer and
  a network layer that accepts it, the frame that device \<open>n\<close> receives next is the response
  configured for the frame sent, and nothing is received if none is configured.\<close>

theorem net_end_to_end:
  assumes "system_inv st" "find_device_by_index HWE_NET n st = Some dev" "device dev = Some a"
    "skb_ok E" "rx_ret E = 0"
  shows "\<exists>priv priv' st'. net_xmit E a skb st = Done (0, st') \<and> system_inv st' \<and> abs_state st' = abs_state st \<and>
    map_of (d_net (drv st)) a = Some priv \<and> map_of (d_net (drv st')) a = Some priv' \<and>
    rx_frames priv' = rx_frames priv @ (case configured st HWE_NET n skb of Some rp \<Rightarrow> [rp] | None \<Rightarrow> [])"
proof -
  have "net_owner (d_net (drv st)) a = Some n" using device_linked [OF assms(1-3)] by simp
  then obtain priv where priv: "map_of (d_net (drv st)) a = Some priv" "net_hwedev priv = n"
    by (auto simp: net_owner_def)
  have found: "find_device_by_index HWE_NET (net_hwedev priv) st = Some dev" using assms(2) priv(2) by simp
  obtain priv' where run: "hwenet_xmit (find_response dev) E skb priv = Done (0, priv')"
    "rx_frames priv' = rx_frames priv @ (case map_option resp_bytes (find_response dev skb (length skb)) of Some rp \<Rightarrow> [rp] | None \<Rightarrow> [])"
    using assms(4,5) by (cases "find_response dev skb (length skb)") (simp_all add: hwenet_xmit_def send_response_def resp_bytes_def)
  have xmit: "net_xmit E a skb st = Done (0, put_drv (put_net a priv') st)"
    using net_xmit_eq [OF assms(1) priv(1) found, of E skb] run(1) by simp
  have "map_of (d_net (drv (put_drv (put_net a priv') st))) a = Some priv'"
    using priv(1) by (simp add: put_net_def map_of_update)
  then show ?thesis
    using xmit net_xmit_keeps [OF assms(1) xmit] priv(1) run(2) configured_response [OF assms(1,2), of "length skb" skb] by auto
qed

theorem net_end_to_end_witness:
  "\<exists>priv priv' st'. net_xmit \<lparr>skb_ok = True, rx_ret = 0\<rparr> 8 [1, 0xAB] demo = Done (0, st') \<and> system_inv st' \<and>
    abs_state st' = abs_state demo \<and>
    map_of (d_net (drv demo)) 8 = Some priv \<and> map_of (d_net (drv st')) 8 = Some priv' \<and>
    rx_frames priv' = rx_frames priv @ [[0xFF]]"
  using net_end_to_end [OF demo_inv demo_find, of 8 "\<lparr>skb_ok = True, rx_ret = 0\<rparr>" "[1, 0xAB]"]
  by (simp add: demo_configured demo_dev_ok demo_handle_def)

text \<open>Deleting an I2C device leaves its private data in the driver's list, marked unused.\<close>

lemma i2c_device_removed:
  assumes "system_inv st" "find_device_by_index HWE_I2C n st = Some dev" "device dev = Some a"
  obtains st' priv where "hwe_delete_device (dev_ops_table BE) HWE_I2C n st = Done (0, st')" "system_inv st'"
    "find_device_by_index HWE_I2C n st' = None" "map_of (d_i2c (drv st)) a = Some priv" "in_use priv" "i2c_hwedev priv = n"
    "map_of (d_i2c (drv st')) a = Some (priv\<lparr>in_use := False, adapter_on := False\<rparr>)"
proof -
  have inv: "sysfs_inv st" using assms(1) by (simp add: system_inv_def)
  have "i2c_owner (d_i2c (drv st)) a = Some n" using device_linked [OF assms] by simp
  then obtain priv where priv: "map_of (d_i2c (drv st)) a = Some priv" "in_use priv" "i2c_hwedev priv = n"
    by (auto simp: i2c_owner_def i2c_active_def split: option.splits if_splits)
  have dev: "dev_index dev = n" "iface dev = HWE_I2C"
    using find_device_by_index_Some [OF assms(2)] sysfs_inv_dev [OF inv assms(2)] by (simp_all add: dev_ok_def)
  define st' where "st' = unlock_iface_devs HWE_I2C (shutdown_dev (dev_ops_table BE) dev (locked HWE_I2C st))"
  have run: "hwe_delete_device (dev_ops_table BE) HWE_I2C n st = Done (0, st')"
    unfolding hwe_delete_device_def with_iface_lock_eq [OF inv] by (simp add: assms(2) st'_def)
  have eq: "shutdown_dev (dev_ops_table BE) dev (locked HWE_I2C st) =
      (removed HWE_I2C n (locked HWE_I2C st))\<lparr>drv := destroy_table HWE_I2C a (drv st)\<rparr>"
    unfolding shutdown_dev_eq [OF dev(2) assms(3)] dev(1) by (simp add: dev_ops_table_def)
  have "map_of (d_i2c (drv st')) a = Some (priv\<lparr>in_use := False, adapter_on := False\<rparr>)"
    by (simp add: st'_def eq hwe_destroy_i2c_device_def map_of_update priv)
  moreover have "find_device_by_index HWE_I2C n st' = None"
    by (simp add: find_device_by_index_None st'_def eq)
  ultimately show ?thesis using that run hwe_delete_device_system [OF assms(1) run] priv by blast
qed

text \<open>C28: a transfer on an I2C device that is being removed is refused instead of waiting for a lock. When
  \<open>hwe_delete_device\<close> has removed device \<open>n\<close>, its private data are still in the driver's list,
  marked unused, and any transfer through a reference to the old adapter that the kernel still
  holds returns \<open>-ENODEV\<close> and changes nothing.\<close>

theorem removed_i2c_device_refuses:
  assumes "system_inv st" "find_device_by_index HWE_I2C n st = Some dev" "device dev = Some a"
  shows "\<exists>st'. hwe_delete_device (dev_ops_table BE) HWE_I2C n st = Done (0, st') \<and> system_inv st' \<and>
    find_device_by_index HWE_I2C n st' = None \<and>
    hwei2c_master_xfer a msgs st' = Done ((- ENODEV, msgs), st') \<and>
    hwei2c_smbus_xfer be a w cmd sz data st' = Done ((- ENODEV, data), st')"
proof -
  obtain st' priv where st': "hwe_delete_device (dev_ops_table BE) HWE_I2C n st = Done (0, st')" "system_inv st'"
    "find_device_by_index HWE_I2C n st' = None"
    "map_of (d_i2c (drv st')) a = Some (priv\<lparr>in_use := False, adapter_on := False\<rparr>)"
    by (rule i2c_device_removed [OF assms, of BE])
  then show ?thesis by (simp add: hwei2c_master_xfer_def hwei2c_smbus_xfer_def)
qed

theorem removed_i2c_device_refuses_witness:
  "\<exists>st'. hwe_delete_device (dev_ops_table \<lparr>kzalloc_addr = None, register_err = 0, spi_dev_ok = True\<rparr>) HWE_I2C 0 demo = Done (0, st') \<and>
    system_inv st' \<and> find_device_by_index HWE_I2C 0 st' = None \<and>
    hwei2c_master_xfer 8 [wr_msg [1, 0xAB]] st' = Done ((- ENODEV, [wr_msg [1, 0xAB]]), st')"
  using removed_i2c_device_refuses [OF demo_inv demo_find, of 8 "\<lparr>kzalloc_addr = None, register_err = 0, spi_dev_ok = True\<rparr>" "[wr_msg [1, 0xAB]]"]
  by (simp add: demo_dev_ok demo_handle_def) blast



end
