(* ===== verification/Module_Init.thy ===== *)
theory Module_Init
  imports Hwemu
begin

text \<open>
  What loading and unloading the module achieve (\<open>hwemu_init\<close>, \<open>hwemu_exit\<close> of the theory \<open>Hwemu\<close>), and
  the states a loaded module can reach. \<open>boot_hwemu\<close> is the module's static data as the linker
  leaves them: no device, no timer, every semaphore zero.
\<close>

section \<open>The static data\<close>

definition boot_drivers :: drivers where
  "boot_drivers =
     \<lparr>d_tty = boot_tty, d_i2c = [], d_net = [],
      d_spi = \<lparr>spi_list = [], spi_masters = [], plat_device = False, plat_driver = False\<rparr>\<rparr>"

definition boot_chr :: chrdev where
  "boot_chr = \<lparr>region = False, class_made = False, cdev_added = False, device_made = False\<rparr>"

definition boot_hwemu :: hwemu where
  "boot_hwemu = \<lparr>m_sys = boot_sysfs boot_drivers, m_timer = None, m_chr = boot_chr\<rparr>"

section \<open>Loading\<close>

lemma cleanup_tty_idle:
  assumes "\<forall>n < HWE_MAX_DEVICES. tty_devices s ! n = None"
  shows "hwe_cleanup_tty s = s\<lparr>tty_driver := False, ports_ready := False\<rparr>"
proof -
  have "foldl tty_cleanup_step s [0..<k] = s" if "k \<le> HWE_MAX_DEVICES" for k
    using that by (induction k) (simp_all add: tty_cleanup_step_def assms)
  then show ?thesis by (simp add: hwe_cleanup_tty_def)
qed

text \<open>The drivers after \<open>hwe_init_tty\<close>, \<open>hwe_init_i2c\<close>, \<open>hwe_init_net\<close> and \<open>hwe_init_spi\<close>.\<close>

definition ready_drivers :: drivers where
  "ready_drivers =
     boot_drivers\<lparr>d_tty := boot_tty\<lparr>ports_ready := True, tty_driver := True\<rparr>,
       d_spi := \<lparr>spi_list = [], spi_masters = [], plat_device = True, plat_driver = True\<rparr>\<rparr>"

definition drivers_ok :: "load_env \<Rightarrow> bool" where
  "drivers_ok E \<longleftrightarrow> tty_alloc_ok E \<and> tty_reg_err E = 0 \<and> plat_dev_err E = 0 \<and> plat_drv_err E = 0"

lemma boot_tty_idle: "\<forall>n < HWE_MAX_DEVICES. tty_devices (boot_tty\<lparr>ports_ready := b, tty_driver := c\<rparr>) ! n = None"
  by (simp add: boot_tty_def)

lemma take_cleanups: "take 4 (cleanup_funcs BE) = take 4 (cleanup_funcs BE')"
  by (simp add: cleanup_funcs_def)

lemma undo_drivers:
  assumes "drv (m_sys m) = ready_drivers"
  shows "call_cleanups (take 4 (cleanup_funcs BE)) m = m\<lparr>m_sys := put_drv (\<lambda>w. boot_drivers) (m_sys m)\<rparr>"
  using cleanup_tty_idle [OF boot_tty_idle, of True True] assms
  by (simp add: call_cleanups_def cleanup_funcs_def put_sys_def put_drv_def ready_drivers_def boot_drivers_def
      hwe_cleanup_spi_def hwe_cleanup_net_def hwe_cleanup_i2c_def boot_tty_def)

lemma drivers_fail:
  assumes "\<not> drivers_ok E"
  shows "\<exists>err. err \<noteq> 0 \<and> hwemu_init E BE boot_hwemu = (err, boot_hwemu)"
  using assms cleanup_tty_idle [OF boot_tty_idle, of True True]
  by (auto simp: drivers_ok_def hwemu_init_def init_funcs_def cleanup_funcs_def call_cleanups_def hwe_init_tty_def
      hwe_init_i2c_def hwe_init_net_def hwe_init_spi_def put_sys_def put_drv_def boot_hwemu_def boot_sysfs_def
      boot_drivers_def Let_def hwe_cleanup_net_def hwe_cleanup_i2c_def boot_tty_def)

definition loaded_sysfs :: "(nat, drivers) sysfs" where
  "loaded_sysfs = boot_sysfs ready_drivers"

lemma drivers_ready:
  assumes "drivers_ok E"
  shows "hwemu_init E BE boot_hwemu =
    (case hwe_init_sysfs (dev_ops_table BE) (sysfs_env E) loaded_sysfs of
       (err, s) \<Rightarrow>
         (let m = \<lparr>m_sys = s, m_timer = Some (jiffies_now E + 1), m_chr = boot_chr\<rparr>
          in if err \<noteq> 0 then (err, call_cleanups (take 5 (cleanup_funcs BE)) m)
             else
               (case hwe_init_ioctl (chr_env E) boot_chr of
                  (err, c) \<Rightarrow>
                    if err \<noteq> 0 then (err, call_cleanups (take 6 (cleanup_funcs BE)) (m\<lparr>m_chr := c\<rparr>))
                    else (0, m\<lparr>m_chr := c\<rparr>))))"
  using assms
  by (simp add: drivers_ok_def hwemu_init_def init_funcs_def hwe_init_tty_def hwe_init_i2c_def hwe_init_net_def
      hwe_init_spi_def hwe_init_async_def PERIOD_def put_sys_def put_drv_def boot_hwemu_def boot_sysfs_def
      ready_drivers_def boot_drivers_def loaded_sysfs_def Let_def numeral_eq_Suc split: prod.split)

lemma cleanups_5: "call_cleanups (take 5 (cleanup_funcs BE)) m = call_cleanups (take 4 (cleanup_funcs BE)) (m\<lparr>m_timer := None\<rparr>)"
  by (simp add: call_cleanups_def cleanup_funcs_def hwe_cleanup_async_def)

lemma cleanups_6: "call_cleanups (take 6 (cleanup_funcs BE)) m =
    call_cleanups (take 5 (cleanup_funcs BE)) (m\<lparr>m_sys := hwe_cleanup_sysfs (dev_ops_table BE) (m_sys m)\<rparr>)"
  by (simp add: call_cleanups_def cleanup_funcs_def)

lemma cleanups_7: "call_cleanups (cleanup_funcs BE) m =
    call_cleanups (take 6 (cleanup_funcs BE)) (m\<lparr>m_chr := hwe_cleanup_ioctl (m_chr m)\<rparr>)"
  by (simp add: call_cleanups_def cleanup_funcs_def)

lemma ready_drivers_inv: "drivers_inv ready_drivers" "owner_of i ready_drivers a = None"
proof -
  have "tty_inv (boot_tty\<lparr>ports_ready := True, tty_driver := True\<rparr>)"
    by (simp add: tty_inv_def tty_ok_def boot_tty_def)
  then show "drivers_inv ready_drivers"
    by (simp add: drivers_inv_def ready_drivers_def boot_drivers_def i2c_inv_def i2c_list_ok_def i2c_active_def
        net_inv_def spi_inv_def spi_ok_def)
  show "owner_of i ready_drivers a = None"
    by (cases i) (simp_all add: ready_drivers_def boot_drivers_def tty_owner_def boot_tty_def i2c_owner_def i2c_active_def
        net_owner_def spi_owner_def)
qed

lemma init_ioctl_undone:
  assumes "hwe_init_ioctl CE boot_chr = (err, c)" "err \<noteq> 0" "cdev_err CE \<le> 0"
  shows "c = boot_chr"
  using assms by (auto simp: hwe_init_ioctl_def boot_chr_def Let_def split: if_splits)

definition load_granted :: "load_env \<Rightarrow> bool" where
  "load_granted E \<longleftrightarrow> drivers_ok E \<and> kset_ok (sysfs_env E) \<and> (\<forall>i. iface_add_err (sysfs_env E) i = 0) \<and>
     0 \<le> alloc_region_err (chr_env E) \<and> class_err (chr_env E) = 0 \<and> cdev_err (chr_env E) = 0"

lemma hwemu_init_outcome:
  assumes "cdev_err (chr_env E) \<le> 0"
  shows "case hwemu_init E BE boot_hwemu of (err, m) \<Rightarrow>
    if load_granted E
    then err = 0 \<and> system_inv (m_sys m) \<and> (\<forall>i. devs (m_sys m) i = [] \<and> kobj_live (ifaces (m_sys m) i)) \<and>
      drv (m_sys m) = ready_drivers \<and> m_timer m = Some (jiffies_now E + 1)
    else err \<noteq> 0 \<and> (\<forall>i. \<not> kobj_live (ifaces (m_sys m) i)) \<and> m_timer m = None \<and>
      drv (m_sys m) = boot_drivers \<and> m_chr m = boot_chr \<and>
      (base_kset (m_sys m) \<longrightarrow> (\<exists>i. iface_add_err (sysfs_env E) i \<noteq> 0))"
proof (cases "drivers_ok E")
  case False
  then obtain err where "err \<noteq> 0" "hwemu_init E BE boot_hwemu = (err, boot_hwemu)" using drivers_fail by blast
  then show ?thesis using False by (simp add: load_granted_def boot_hwemu_def boot_sysfs_def)
next
  case True
  let ?SE = "sysfs_env E" and ?ops = "dev_ops_table BE"
  have "\<forall>i. \<not> kobj_live (ifaces loaded_sysfs i)" by (simp add: loaded_sysfs_def boot_sysfs_def)
  note out = hwe_init_sysfs_outcome [where E = ?SE and ops = ?ops, OF this]
  have drv: "drv loaded_sysfs = ready_drivers" by (simp add: loaded_sysfs_def boot_sysfs_def)
  consider "\<not> kset_ok ?SE" | "kset_ok ?SE" "\<forall>i. iface_add_err ?SE i = 0" | "kset_ok ?SE" "\<exists>i. iface_add_err ?SE i \<noteq> 0"
    by blast
  then show ?thesis
  proof cases
    case 1
    then show ?thesis
      using True out drv by (simp add: drivers_ready load_granted_def cleanups_5 undo_drivers)
        (simp add: loaded_sysfs_def boot_sysfs_def put_drv_def)
  next
    case 2
    then obtain s where s: "hwe_init_sysfs ?ops ?SE loaded_sysfs = (0, s)" "sysfs_inv s" "drv s = ready_drivers"
      "\<forall>i. devs s i = [] \<and> kobj_live (ifaces s i)"
      using out drv by auto
    have "system_inv s"
      using s ready_drivers_inv by (simp add: system_inv_def linked_def serves_def)
    obtain err c where io: "hwe_init_ioctl (chr_env E) boot_chr = (err, c)" by (cases "hwe_init_ioctl (chr_env E) boot_chr")
    have io_ok: "err = 0 \<longleftrightarrow> 0 \<le> alloc_region_err (chr_env E) \<and> class_err (chr_env E) = 0 \<and> cdev_err (chr_env E) = 0"
      using io assms by (auto simp: hwe_init_ioctl_def Let_def split: if_splits)
    show ?thesis
    proof (cases "err = 0")
      case True
      then show ?thesis
        using \<open>drivers_ok E\<close> 2 s io io_ok \<open>system_inv s\<close> by (simp add: drivers_ready load_granted_def)
    next
      case False
      note gone = hwe_cleanup_sysfs_removes_all_facts [OF sysfs_inv_all_inv [OF s(2)], of ?ops]
      have "drv (hwe_cleanup_sysfs ?ops s) = ready_drivers" using gone(4) s(3,4) by simp
      then show ?thesis
        using \<open>drivers_ok E\<close> 2 s(1) io io_ok False gone(2,3) init_ioctl_undone [OF io False assms]
        by (simp add: drivers_ready load_granted_def cleanups_5 cleanups_6 undo_drivers)
    qed
  next
    case 3
    then have "\<not> \<not> kset_ok ?SE" "\<not> (\<forall>i. iface_add_err ?SE i = 0)" by simp_all
    note out' = out [unfolded if_not_P [OF this(1)] if_not_P [OF this(2)]]
    from 3 obtain i s where s: "hwe_init_sysfs ?ops ?SE loaded_sysfs = (iface_add_err ?SE i, s)" "iface_add_err ?SE i \<noteq> 0"
      "\<forall>j. \<not> kobj_live (ifaces s j)" "drv s = ready_drivers"
      using out' drv by auto
    then show ?thesis
      using True by (auto simp: drivers_ready load_granted_def cleanups_5 undo_drivers)
  qed
qed


definition granted_env :: load_env where
  "granted_env =
     \<lparr>tty_alloc_ok = True, tty_reg_err = 0, plat_dev_err = 0, plat_drv_err = 0, jiffies_now = 100,
      sysfs_env = \<lparr>kset_ok = True, iface_add_err = (\<lambda>i. 0)\<rparr>,
      chr_env = \<lparr>alloc_region_err = 0, class_err = 0, cdev_err = 0, device_err = 0\<rparr>\<rparr>"

definition demo_bus :: bus_env where
  "demo_bus = \<lparr>kzalloc_addr = Some 8, register_err = 0, spi_dev_ok = True\<rparr>"

lemma granted: "load_granted granted_env" "cdev_err (chr_env granted_env) = 0"
  by (simp_all add: load_granted_def granted_env_def drivers_ok_def)

lemma hwemu_init_ok:
  "\<exists>m. hwemu_init granted_env BE boot_hwemu = (0, m) \<and> system_inv (m_sys m) \<and> (\<forall>i. devs (m_sys m) i = []) \<and>
    drv (m_sys m) = ready_drivers"
  using hwemu_init_outcome [of granted_env BE] granted by auto


section \<open>Unloading\<close>

lemma destroy_keeps_inv: "drivers_inv w \<Longrightarrow> drivers_inv (destroy_table i a w)"
proof -
  assume inv: "drivers_inv w"
  show ?thesis
  proof (cases "owner_of i w a")
    case (Some n)
    then show ?thesis using table.destroy_removes [OF inv] by blast
  next
    case None
    have tty: "tty_inv (hwe_destroy_tty_device a (d_tty w))" if "i = HWE_TTY"
    proof -
      have ok: "tty_inv (d_tty w)" using inv by (simp add: drivers_inv_def)
      show ?thesis
      proof (cases "a < HWE_MAX_DEVICES")
        case True
        then show ?thesis
          using ok tty_ops_ok(4) [of "d_tty w" a] by (auto simp: tty_inv_def hwe_destroy_tty_device_def tty_ok_def nth_list_update)
      next
        case False
        then have "hwe_destroy_tty_device a (d_tty w) = d_tty w"
          using ok by (simp add: hwe_destroy_tty_device_def tty_inv_def tty_ok_def list_update_beyond)
        then show ?thesis using ok by simp
      qed
    qed
    have i2c: "i2c_inv (hwe_destroy_i2c_device a (d_i2c w))"
      using inv hwe_destroy_i2c_ok [of "d_i2c w" a] by (auto simp: drivers_inv_def i2c_inv_def)
    have net: "net_inv (hwe_destroy_net_device a (d_net w))"
      using inv distinct_del [of "d_net w" a] by (auto simp: drivers_inv_def net_inv_def hwe_destroy_net_device_def dest: del_priv_mem)
    have spi: "spi_inv (hwe_destroy_spi_device a (d_spi w))"
      using inv spi_destroy_ok [of "d_spi w" a]
      by (auto simp: drivers_inv_def spi_inv_def hwe_destroy_spi_device_def spi_del_dev_def dest: del_priv_mem)
    show ?thesis using inv tty i2c net spi by (cases i) (simp_all add: drivers_inv_def)
  qed
qed

lemma fold_destroy_inv:
  "drivers_inv w \<Longrightarrow> drivers_inv (fold (\<lambda>i. fold (\<lambda>dev. destroy_table i (the (device dev))) (ds i)) is w)"
proof (induction "is" arbitrary: w)
  case (Cons i "is")
  have "drivers_inv (fold (\<lambda>dev. destroy_table i (the (device dev))) xs w)" for xs
    using Cons.prems by (induction xs arbitrary: w) (simp_all add: destroy_keeps_inv)
  from Cons.IH [OF this [of "ds i"]] show ?case by simp
qed simp



section \<open>The states of a loaded module\<close>

inductive hwemu_reachable :: "(nat, drivers) sysfs \<Rightarrow> bool" where
  loaded: "hwemu_init E BE boot_hwemu = (0, m) \<Longrightarrow> cdev_err (chr_env E) \<le> 0 \<Longrightarrow> hwemu_reachable (m_sys m)"
| stepped: "hwemu_reachable st \<Longrightarrow> hwemu_step st st' \<Longrightarrow> hwemu_reachable st'"

lemma reachable_inv: "hwemu_reachable st \<Longrightarrow> system_inv st"
proof (induction rule: hwemu_reachable.induct)
  case (loaded E BE m)
  then show ?case using hwemu_init_outcome [of E BE] by (auto split: if_splits)
next
  case (stepped st st')
  then show ?case using hwemu_step_system by blast
qed

text \<open>C1: the invariant of the module. In every state a loaded module can reach, by any interleaving of
  attribute writes, ioctls, transfers on any device and timer ticks that return, the registry
  is consistent and unlocked: unique indexes and names, the index bitmaps exact, every pair
  well formed, no request twice; and it agrees with the drivers: the live private data of each
  driver are exactly those of the devices on its interface, each serving the device that
  points to it.\<close>

theorem hwemu_invariant:
  assumes "hwemu_reachable st"
  shows "sysfs_inv st \<and> drivers_inv (drv st) \<and>
    (\<forall>i a n. owner_of i (drv st) a = Some n \<longleftrightarrow> (\<exists>dev. find_device_by_index i n st = Some dev \<and> device dev = Some a))"
proof -
  have inv: "system_inv st" by (rule reachable_inv [OF assms])
  have "owner_of i (drv st) a = Some n \<longleftrightarrow> (\<exists>dev. find_device_by_index i n st = Some dev \<and> device dev = Some a)" for i a n
    using linked_device [OF inv, of i a n] device_linked [OF inv, of i n _ a] by blast
  then show ?thesis using inv by (simp add: system_inv_def linked_def)
qed

text \<open>A reachable state with a device: the module loaded, then one terminal created.\<close>

lemma reachable_terminal:
  "\<exists>st dev. hwemu_reachable st \<and> find_device_by_index HWE_TTY 0 st = Some dev \<and> device dev = Some 0"
proof -
  obtain m where m: "hwemu_init granted_env demo_bus boot_hwemu = (0, m)" "system_inv (m_sys m)"
    "\<forall>i. devs (m_sys m) i = []" "drv (m_sys m) = ready_drivers"
    using hwemu_init_ok by blast
  define st where "st = m_sys m"
  have reach: "hwemu_reachable st" unfolding st_def by (rule loaded [OF m(1)]) (simp add: granted)
  have inv: "sysfs_inv st" using m(2) by (simp add: st_def system_inv_def)
  then have "iface_inv HWE_TTY (ifaces st HWE_TTY)" by (simp add: sysfs_inv_def)
  then have ii: "iface_inv HWE_TTY (ifaces (locked HWE_TTY st) HWE_TTY)"
    using sysfs_inv_all_inv [OF inv] all_inv_locked [of HWE_TTY st] by (simp add: all_inv_def)
  have bits: "dev_index ` set (devs st HWE_TTY) = bits (dev_indexes (ifaces st HWE_TTY))"
    "length (dev_indexes (ifaces st HWE_TTY)) = HWE_MAX_DEVICES" "devs st HWE_TTY = []"
    using inv m(3) by (simp_all add: sysfs_inv_def iface_inv_def st_def)
  have idx: "next_index HWE_TTY (locked HWE_TTY st) = 0"
  proof (rule ccontr)
    assume "next_index HWE_TTY (locked HWE_TTY st) \<noteq> 0"
    then have "0 \<in> dev_index ` set (devs st HWE_TTY)"
      using next_index_least [OF ii, of 0] by simp
    then show False using bits(3) by simp
  qed
  have create: "create_table demo_bus HWE_TTY 0 (drv st) =
      (Some 0, (drv st)\<lparr>d_tty := snd (hwe_create_tty_device demo_bus 0 0 (d_tty (drv st)))\<rparr>)"
    by (simp add: hwe_create_tty_device_def demo_bus_def hwe_consts Let_def)
  have "device_created (dev_ops_table demo_bus) sample_new_env HWE_TTY (locked HWE_TTY st)"
    using create idx bits(3) by (simp add: device_created_def dev_ops_table_def sample_new_env_def hwe_consts)
  from new_dev_created [OF ii this] obtain w where new: "new_dev (dev_ops_table demo_bus) sample_new_env HWE_TTY (locked HWE_TTY st) =
      (Some (made_dev HWE_TTY 0 0), added HWE_TTY (made_dev HWE_TTY 0 0) ((locked HWE_TTY st)\<lparr>drv := w\<rparr>))"
    using create idx by (auto simp: dev_ops_table_def)
  define st' where "st' = unlock_iface_devs HWE_TTY (added HWE_TTY (made_dev HWE_TTY 0 0) ((locked HWE_TTY st)\<lparr>drv := w\<rparr>))"
  have "iface_attr_store (dev_ops_table demo_bus) sample_new_env IA_add HWE_TTY ''1'' 1 st = Done (1, st')"
    using iface_add_store_eq [OF inv, of 1 "dev_ops_table demo_bus" sample_new_env HWE_TTY] new by (simp add: st'_def)
  moreover have "fresh_drivers demo_bus (drv st)"
    using m(4) by (simp add: st_def fresh_drivers_def fresh_addr_def ready_drivers_def boot_drivers_def)
  ultimately have "hwemu_reachable st'" by (intro stepped [OF reach] iface_store)
  moreover have "find_device_by_index HWE_TTY 0 st' = Some (made_dev HWE_TTY 0 0)"
    by (simp add: st'_def find_device_by_index_def)
  ultimately show ?thesis by (auto simp: made_dev_def)
qed

theorem hwemu_invariant_witness:
  "\<exists>st. hwemu_reachable st \<and> sysfs_inv st \<and> drivers_inv (drv st) \<and> owner_of HWE_TTY (drv st) 0 = Some 0"
proof -
  obtain st dev where st: "hwemu_reachable st" "find_device_by_index HWE_TTY 0 st = Some dev" "device dev = Some 0"
    using reachable_terminal by blast
  then show ?thesis using hwemu_invariant [OF st(1)] by blast
qed

section \<open>No crash\<close>

definition returns :: "'r run \<Rightarrow> bool" where
  "returns r \<longleftrightarrow> (\<exists>x. r = Done x)"



end
