(* ===== verification/Linked_List.thy ===== *)
theory Linked_List
  imports Device
begin

text \<open>
  The pairs of a device in memory (\<open>list.h\<close>; the kernel's list is the same code). The other
  theories model \<open>dev->pair_list\<close> as an Isabelle list; here it is the doubly linked circular list
  the code has, with its \<open>next\<close> and \<open>prev\<close> fields, and \<open>on_list\<close> says which list of addresses a
  memory holds. Address 0 stands for the list head, which is part of \<open>struct hwe_dev\<close>; a pair is
  allocated while \<open>node\<close> gives its contents. The lemmas show that \<open>INIT_LIST_HEAD\<close>, \<open>list_add\<close>,
  \<open>list_add_tail\<close>, \<open>list_del\<close>, \<open>list_empty\<close> and \<open>list_entry_count\<close> are the empty list, adding in
  front and at the end, removing, the test for the empty list and the length. The theory \<open>Threads\<close>
  runs the handlers on this memory.
\<close>

section \<open>Operations\<close>

record list_mem =
  nxt :: "nat \<Rightarrow> nat"
  prv :: "nat \<Rightarrow> nat"
  node :: "nat \<Rightarrow> hwe_pair option"

definition LIST_POISON1 :: nat where
  "LIST_POISON1 = 0x00100100"

definition LIST_POISON2 :: nat where
  "LIST_POISON2 = 0x00200200"

definition set_next :: "nat \<Rightarrow> nat \<Rightarrow> list_mem \<Rightarrow> list_mem" where
  "set_next a b m = m\<lparr>nxt := (nxt m)(a := b)\<rparr>"

definition set_prev :: "nat \<Rightarrow> nat \<Rightarrow> list_mem \<Rightarrow> list_mem" where
  "set_prev a b m = m\<lparr>prv := (prv m)(a := b)\<rparr>"

definition INIT_LIST_HEAD :: "nat \<Rightarrow> list_mem \<Rightarrow> list_mem" where
  "INIT_LIST_HEAD ptr m = set_prev ptr ptr (set_next ptr ptr m)"

definition list_add_between :: "nat \<Rightarrow> nat \<Rightarrow> nat \<Rightarrow> list_mem \<Rightarrow> list_mem" where
  "list_add_between new prev next m =
     (let m = set_prev next new m;
          m = set_next new next m;
          m = set_prev new prev m
      in set_next prev new m)"

definition list_add_tail :: "nat \<Rightarrow> nat \<Rightarrow> list_mem \<Rightarrow> list_mem" where
  "list_add_tail new head m = list_add_between new (prv m head) head m"

definition list_add :: "nat \<Rightarrow> nat \<Rightarrow> list_mem \<Rightarrow> list_mem" where
  "list_add new head m = list_add_between new head (nxt m head) m"

definition list_empty :: "nat \<Rightarrow> list_mem \<Rightarrow> bool" where
  "list_empty head m \<longleftrightarrow> nxt m head = head"

text \<open>\<open>list_entry_count\<close> of \<open>hwemu.h\<close>. On a memory that is not a list its loop need not end.\<close>

partial_function (option) count_entries :: "list_mem \<Rightarrow> nat \<Rightarrow> nat \<Rightarrow> nat \<Rightarrow> nat option" where
  "count_entries m head p ret = (if p = head then Some ret else count_entries m head (nxt m p) (ret + 1))"

definition list_entry_count :: "nat \<Rightarrow> list_mem \<Rightarrow> nat option" where
  "list_entry_count head m = count_entries m head (nxt m head) 0"

definition list_del_between :: "nat \<Rightarrow> nat \<Rightarrow> list_mem \<Rightarrow> list_mem" where
  "list_del_between prev next m = set_next prev next (set_prev next prev m)"

definition list_del :: "nat \<Rightarrow> list_mem \<Rightarrow> list_mem" where
  "list_del entry m =
     (let m = list_del_between (prv m entry) (nxt m entry) m;
          m = set_next entry LIST_POISON1 m
      in set_prev entry LIST_POISON2 m)"

definition kmalloc_node :: "nat \<Rightarrow> hwe_pair \<Rightarrow> list_mem \<Rightarrow> list_mem" where
  "kmalloc_node a p m = m\<lparr>node := (node m)(a \<mapsto> p)\<rparr>"

definition kfree_node :: "nat \<Rightarrow> list_mem \<Rightarrow> list_mem" where
  "kfree_node a m = m\<lparr>node := (node m)(a := None)\<rparr>"

lemmas field_defs = set_next_def set_prev_def

section \<open>Chains\<close>

text \<open>\<open>chain m x as y\<close>: from \<open>x\<close> the list runs through the entries \<open>as\<close> to \<open>y\<close>, and back.\<close>

fun chain :: "list_mem \<Rightarrow> nat \<Rightarrow> nat list \<Rightarrow> nat \<Rightarrow> bool" where
  "chain m x [] y \<longleftrightarrow> nxt m x = y \<and> prv m y = x"
| "chain m x (a # as) y \<longleftrightarrow> nxt m x = a \<and> prv m a = x \<and> chain m a as y"

definition on_list :: "list_mem \<Rightarrow> nat list \<Rightarrow> bool" where
  "on_list m as \<longleftrightarrow> distinct (0 # as) \<and> chain m 0 as 0"

definition pairs_at :: "list_mem \<Rightarrow> nat list \<Rightarrow> hwe_pair list" where
  "pairs_at m as = map (\<lambda>a. the (node m a)) as"

lemma chain_append [simp]: "chain m x (as @ b # bs) y \<longleftrightarrow> chain m x as b \<and> chain m b bs y"
  by (induction as arbitrary: x) auto

lemma chain_cong:
  assumes "chain m x as y" "\<And>a. a \<in> set (x # as) \<Longrightarrow> nxt m' a = nxt m a"
    "\<And>a. a \<in> set (as @ [y]) \<Longrightarrow> prv m' a = prv m a"
  shows "chain m' x as y"
  using assms by (induction as arbitrary: x) auto

lemma chain_first: "chain m x as y \<Longrightarrow> nxt m x = hd (as @ [y])"
  by (cases as) auto

lemma chain_last: "chain m x as y \<Longrightarrow> prv m y = last (x # as)"
  by (induction as arbitrary: x) auto

lemma chain_node [simp]: "chain (m\<lparr>node := n\<rparr>) x as y \<longleftrightarrow> chain m x as y"
  by (induction as arbitrary: x) auto

lemma on_list_node [simp]:
  "on_list (kmalloc_node a p m) as \<longleftrightarrow> on_list m as" "on_list (kfree_node a m) as \<longleftrightarrow> on_list m as"
  by (simp_all add: on_list_def kmalloc_node_def kfree_node_def)

lemma on_list_at: "on_list m (as @ a # bs) \<Longrightarrow> nxt m a = hd (bs @ [0])"
  by (auto simp: on_list_def dest: chain_first)

lemma on_list_first: "on_list m as \<Longrightarrow> nxt m 0 = hd (as @ [0])"
  by (auto simp: on_list_def dest: chain_first)

section \<open>The operations on chains\<close>

lemma init_on_list: "on_list (INIT_LIST_HEAD 0 m) []"
  by (simp add: on_list_def INIT_LIST_HEAD_def field_defs)

text \<open>A chain ends where its last link says; with a new link it ends elsewhere.\<close>

lemma chain_redirect:
  assumes "chain m x as y" "distinct (x # as)"
    "nxt m' (last (x # as)) = z" "prv m' z = last (x # as)"
    "\<And>a. a \<in> set (x # as) \<Longrightarrow> a \<noteq> last (x # as) \<Longrightarrow> nxt m' a = nxt m a" "\<And>a. a \<in> set as \<Longrightarrow> prv m' a = prv m a"
  shows "chain m' x as z"
  using assms
proof (induction as arbitrary: x)
  case (Cons a as)
  have l: "last (x # a # as) = last (a # as)" by simp
  have "chain m' a as z"
  proof (rule Cons.IH)
    show "chain m a as y" "distinct (a # as)" using Cons.prems(1,2) by simp_all
    show "nxt m' (last (a # as)) = z" "prv m' z = last (a # as)" using Cons.prems(3,4) l by simp_all
    show "nxt m' b = nxt m b" if "b \<in> set (a # as)" "b \<noteq> last (a # as)" for b
      using Cons.prems(5) [of b] that l by simp
    show "prv m' b = prv m b" if "b \<in> set as" for b using Cons.prems(6) that by simp
  qed
  moreover have "x \<noteq> last (a # as)" using Cons.prems(2) last_in_set [of "a # as"] by (metis distinct.simps(2) list.discI)
  then have "nxt m' x = nxt m x" using Cons.prems(5) [of x] l by simp
  moreover have "prv m' a = prv m a" using Cons.prems(6) by simp
  ultimately show ?case using Cons.prems(1) by simp
qed simp

lemma list_add_tail_on_list:
  assumes "on_list m as" "a \<noteq> 0" "a \<notin> set as"
  shows "on_list (list_add_tail a 0 m) (as @ [a])"
proof -
  have chain: "chain m 0 as 0" and d: "distinct (0 # as)" using assms(1) by (simp_all add: on_list_def)
  define l where "l = last (0 # as)"
  have l: "prv m 0 = l" "l \<in> set (0 # as)" using chain_last [OF chain] by (simp_all add: l_def)
  have ne: "a \<noteq> l" using l(2) assms(2,3) by auto
  let ?m = "list_add_tail a 0 m"
  have m: "?m = m\<lparr>prv := (prv m)(0 := a, a := l), nxt := (nxt m)(a := 0, l := a)\<rparr>"
    by (simp add: list_add_tail_def list_add_between_def field_defs l)
  have "chain ?m 0 as a"
  proof (rule chain_redirect [OF chain d])
    show "nxt ?m (last (0 # as)) = a" "prv ?m a = last (0 # as)" unfolding l_def [symmetric] by (simp_all add: m ne)
    show "nxt ?m b = nxt m b" if "b \<in> set (0 # as)" "b \<noteq> last (0 # as)" for b
      using that assms(2,3) unfolding l_def [symmetric] by (auto simp: m)
    show "prv ?m b = prv m b" if "b \<in> set as" for b
      using that assms(3) d by (auto simp: m)
  qed
  then show ?thesis using assms ne d by (auto simp: on_list_def m)
qed

lemma list_add_on_list:
  assumes "on_list m as" "a \<noteq> 0" "a \<notin> set as"
  shows "on_list (list_add a 0 m) (a # as)"
proof -
  have chain: "chain m 0 as 0" and d: "distinct (0 # as)" using assms(1) by (simp_all add: on_list_def)
  define n where "n = hd (as @ [0])"
  have n: "nxt m 0 = n" "a \<noteq> n" "n \<in> set (as @ [0])"
    using chain_first [OF chain] assms(2,3) by (cases as; simp add: n_def)+
  let ?m = "list_add a 0 m"
  have m: "?m = m\<lparr>prv := (prv m)(n := a, a := 0), nxt := (nxt m)(a := n, 0 := a)\<rparr>"
    by (simp add: list_add_def list_add_between_def field_defs n)
  have "chain ?m a as 0"
  proof (cases as)
    case Nil
    then show ?thesis using assms(2) n by (simp add: m n_def)
  next
    case (Cons b bs)
    then have b: "n = b" by (simp add: n_def)
    have "chain m b bs 0" using chain Cons by simp
    then have "chain ?m b bs 0"
      using d assms b Cons by (elim chain_cong) (auto simp: m)
    then show ?thesis using Cons assms n d b by (auto simp: m)
  qed
  then show ?thesis using assms d n by (auto simp: on_list_def m)
qed

lemma list_empty_on_list: "on_list m as \<Longrightarrow> list_empty 0 m \<longleftrightarrow> as = []"
  by (cases as) (auto simp: list_empty_def on_list_first on_list_def)

lemma count_entries_chain:
  "chain m x as 0 \<Longrightarrow> 0 \<notin> set as \<Longrightarrow> count_entries m 0 (nxt m x) n = Some (n + length as)"
proof (induction as arbitrary: x n)
  case Nil
  then show ?case by (simp add: count_entries.simps)
next
  case (Cons a as)
  then have "count_entries m 0 (nxt m x) n = count_entries m 0 (nxt m a) (n + 1)"
    by (subst count_entries.simps) simp
  then show ?case using Cons.IH [of a "n + 1"] Cons.prems by simp
qed

text \<open>The loop of \<open>list_entry_count\<close> ends, with the number of entries.\<close>

lemma list_entry_count_on_list: "on_list m as \<Longrightarrow> list_entry_count 0 m = Some (length as)"
  using count_entries_chain [of m 0 as 0] by (simp add: on_list_def list_entry_count_def)

lemma list_del_on_list:
  assumes "on_list m (as @ a # bs)"
  shows "on_list (list_del a m) (as @ bs)"
proof -
  have c1: "chain m 0 as a" and c2: "chain m a bs 0" and d: "distinct (0 # as @ a # bs)"
    using assms by (simp_all add: on_list_def)
  define l n where "l = last (0 # as)" and "n = hd (bs @ [0])"
  have l: "prv m a = l" "l \<in> set (0 # as)" using chain_last [OF c1] by (simp_all add: l_def)
  have n: "nxt m a = n" "n \<in> set (bs @ [0])" using chain_first [OF c2] by (cases bs; simp add: n_def)+
  have ne: "l \<noteq> a" "n \<noteq> a" "l \<notin> set bs" "n \<notin> set as" using l(2) n(2) d by auto
  let ?m = "list_del a m"
  have m: "?m = m\<lparr>prv := (prv m)(n := l, a := LIST_POISON2), nxt := (nxt m)(l := n, a := LIST_POISON1)\<rparr>"
    by (simp add: list_del_def list_del_between_def Let_def field_defs l n)
  have da: "distinct (0 # as)" using d by simp
  have 1: "chain ?m 0 as n"
  proof (rule chain_redirect [OF c1 da])
    show "nxt ?m (last (0 # as)) = n" "prv ?m n = last (0 # as)" unfolding l_def [symmetric] using ne by (simp_all add: m)
    show "nxt ?m b = nxt m b" if "b \<in> set (0 # as)" "b \<noteq> last (0 # as)" for b
      using that d unfolding l_def [symmetric] by (auto simp: m)
    show "prv ?m b = prv m b" if "b \<in> set as" for b
      using that ne(4) d by (auto simp: m)
  qed
  show ?thesis
  proof (cases bs)
    case Nil
    then show ?thesis using 1 d by (auto simp: on_list_def n_def)
  next
    case (Cons b bs')
    then have b: "n = b" by (simp add: n_def)
    have "chain m b bs' 0" using c2 Cons by simp
    then have "chain ?m b bs' 0"
      using d ne b Cons by (elim chain_cong) (auto simp: m)
    then show ?thesis using 1 d by (auto simp: on_list_def Cons b)
  qed
qed

end
