(* ===== verification/Interleave.thy ===== *)
theory Interleave
  imports Prelude
begin

text \<open>
  Threads whose steps are interleaved, and critical sections. \<open>interleave step n ts\<close> lets the threads
  whose numbers are in \<open>ts\<close> make one step each, whatever the steps are; a thread that is blocked
  stays where it is. The locale \<open>critical_sections\<close> is the contract of a lock: a thread enters only
  when nobody is inside, keeps a description of the state while it is inside, gets nearer its end
  with every step, and leaves with the result and the state of its operation run whole. From it
  follow, once for all, that every schedule has the effect of the operations run whole in some
  order and that no schedule leads into a deadlock. \<open>Threads_Correct\<close> interprets it for the
  handlers on the pairs of a device.
\<close>

section \<open>Interleaving\<close>

fun interleave ::
  "(nat \<Rightarrow> 'p \<Rightarrow> 'w \<Rightarrow> ('p \<times> 'w) run) \<Rightarrow> nat \<Rightarrow> nat list \<Rightarrow> 'p list \<times> 'w \<Rightarrow> ('p list \<times> 'w) run" where
  "interleave step n [] s = Done s"
| "interleave step n (t # ts) (pcs, w) =
     (if t < n then
        (case step t (pcs ! t) w of
           Done (pc, w) \<Rightarrow> interleave step n ts (pcs[t := pc], w)
         | Blocked \<Rightarrow> interleave step n ts (pcs, w)
         | Oops \<Rightarrow> Oops)
      else interleave step n ts (pcs, w))"

fun whole_in_order :: "(nat \<Rightarrow> 'd \<Rightarrow> 'r \<times> 'd) \<Rightarrow> nat list \<Rightarrow> 'd \<Rightarrow> (nat \<times> 'r) list \<times> 'd" where
  "whole_in_order whole [] d = ([], d)"
| "whole_in_order whole (t # ts) d =
     (case whole t d of (r, d) \<Rightarrow> (case whole_in_order whole ts d of (rs, d) \<Rightarrow> ((t, r) # rs, d)))"

lemma interleave_append:
  "interleave step n (s @ s') x = (case interleave step n s x of
     Done y \<Rightarrow> interleave step n s' y | Blocked \<Rightarrow> Blocked | Oops \<Rightarrow> Oops)"
  by (induction step n s x rule: interleave.induct) (auto split: run.splits)

lemma interleave_invariant:
  assumes "I x" "\<And>t pcs w pc w'. I (pcs, w) \<Longrightarrow> t < n \<Longrightarrow> step t (pcs ! t) w = Done (pc, w') \<Longrightarrow> I (pcs[t := pc], w')"
    "\<And>t pcs w. I (pcs, w) \<Longrightarrow> t < n \<Longrightarrow> step t (pcs ! t) w \<noteq> Oops"
  shows "\<exists>y. interleave step n ts x = Done y \<and> I y"
  using assms(1)
proof (induction ts arbitrary: x)
  case Nil
  then show ?case by simp
next
  case (Cons t ts)
  obtain pcs w where x: "x = (pcs, w)" by (cases x)
  show ?case
    using Cons.IH [of "(pcs, w)"] Cons.IH assms(2,3) [of pcs w t] Cons.prems unfolding x
    by (auto split: run.splits)
qed

lemma whole_in_order_snoc:
  "whole_in_order whole (ts @ [t]) d =
    (case whole_in_order whole ts d of (rs, d') \<Rightarrow> case whole t d' of (r, d'') \<Rightarrow> (rs @ [(t, r)], d''))"
  by (induction ts arbitrary: d) (auto split: prod.splits)

lemma not_settled: "t \<notin> fst ` set rs \<Longrightarrow> (t, r) \<notin> set rs"
  by force

section \<open>The contract of a lock\<close>

text \<open>
  \<open>free w d\<close>: nobody is inside and the state \<open>w\<close> is that of \<open>d\<close>. \<open>inside t d p w k\<close>: the thread \<open>t\<close>, which
  entered when the state was \<open>d\<close>, is at \<open>p\<close> and leaves after at most \<open>k + 1\<close> steps. \<open>gives_up\<close>: where
  a thread ends that does not wait for the lock.
\<close>

locale critical_sections =
  fixes step :: "nat \<Rightarrow> 'p \<Rightarrow> 'w \<Rightarrow> ('p \<times> 'w) run" and threads :: nat
    and whole :: "nat \<Rightarrow> 'd \<Rightarrow> 'r \<times> 'd" and start :: 'p and final :: "'r \<Rightarrow> 'p"
    and gives_up :: "nat \<Rightarrow> 'p \<Rightarrow> bool" and free :: "'w \<Rightarrow> 'd \<Rightarrow> bool"
    and inside :: "nat \<Rightarrow> 'd \<Rightarrow> 'p \<Rightarrow> 'w \<Rightarrow> nat \<Rightarrow> bool" and inv :: "'d \<Rightarrow> bool"
  assumes enters: "t < threads \<Longrightarrow> inv d \<Longrightarrow> free w d \<Longrightarrow>
      \<exists>p w' k. step t start w = Done (p, w') \<and> inside t d p w' k"
    and works: "t < threads \<Longrightarrow> inv d \<Longrightarrow> inside t d p w k \<Longrightarrow>
      (\<exists>p' w' k'. step t p w = Done (p', w') \<and> inside t d p' w' k' \<and> k' < k) \<or>
      (\<exists>r w' d'. step t p w = Done (final r, w') \<and> whole t d = (r, d') \<and> free w' d')"
    and waits: "t < threads \<Longrightarrow> inv d \<Longrightarrow> inside u d p w k \<Longrightarrow>
      step t start w = Blocked \<or> (\<exists>p'. step t start w = Done (p', w) \<and> gives_up t p')"
    and stays: "step t (final r) w = Done (final r, w)"
    and gives_up_final: "gives_up t p \<Longrightarrow> \<exists>r. p = final r"
    and keeps: "t < threads \<Longrightarrow> inv d \<Longrightarrow> inv (snd (whole t d))"
    and inside_neither: "inside t d p w k \<Longrightarrow> p \<noteq> start" "inside t d p w k \<Longrightarrow> p \<noteq> final r"
    and final_neq: "final r \<noteq> start" and final_inj: "final r = final r' \<Longrightarrow> r = r'"
begin

definition ended :: "'p \<Rightarrow> bool" where
  "ended p \<longleftrightarrow> (\<exists>r. p = final r)"

text \<open>
  The threads that have ended, in the order in which they entered, are \<open>rs\<close> with their results; \<open>h\<close> is
  the thread that is inside; any other has not begun, or has given up.
\<close>

definition settled :: "'p list \<Rightarrow> nat option \<Rightarrow> (nat \<times> 'r) list \<Rightarrow> bool" where
  "settled pcs h rs \<longleftrightarrow>
     length pcs = threads \<and> (\<forall>t r. (t, r) \<in> set rs \<longrightarrow> t < threads \<and> pcs ! t = final r) \<and>
     (\<forall>t < threads. t \<notin> fst ` set rs \<longrightarrow> h = Some t \<or> pcs ! t = start \<or> gives_up t (pcs ! t))"

definition consistent :: "'d \<Rightarrow> 'p list \<Rightarrow> 'w \<Rightarrow> nat option \<Rightarrow> (nat \<times> 'r) list \<Rightarrow> 'd \<Rightarrow> bool" where
  "consistent d pcs w h rs d' \<longleftrightarrow>
     settled pcs h rs \<and> whole_in_order whole (map fst rs) d = (rs, d') \<and> distinct (map fst rs) \<and> inv d' \<and>
     (case h of
        None \<Rightarrow> free w d'
      | Some t \<Rightarrow> t < threads \<and> t \<notin> fst ` set rs \<and> (\<exists>k. inside t d' (pcs ! t) w k))"

lemma settled_move:
  assumes "settled pcs h rs" "t < threads" "t \<notin> fst ` set rs" "h = None \<or> h = Some t"
  shows "settled (pcs[t := p]) (Some t) rs"
  using assms not_settled [OF assms(3)] by (auto simp: settled_def nth_list_update)

lemma settled_leave:
  assumes "settled pcs (Some t) rs" "t < threads" "t \<notin> fst ` set rs"
  shows "settled (pcs[t := final r]) None (rs @ [(t, r)])"
  using assms not_settled [OF assms(3)] by (auto simp: settled_def nth_list_update)

lemma settled_gives_up:
  assumes "settled pcs h rs" "t < threads" "t \<notin> fst ` set rs" "gives_up t p"
  shows "settled (pcs[t := p]) h rs"
  using assms not_settled [OF assms(3)] by (auto simp: settled_def nth_list_update)

lemma consistent_start: "free w d \<Longrightarrow> inv d \<Longrightarrow> consistent d (replicate threads start) w None [] d"
  by (simp add: consistent_def settled_def)

lemma consistent_move:
  assumes "consistent d pcs w h rs d'" "t < threads" "t \<notin> fst ` set rs" "h = None \<or> h = Some t" "inside t d' p w' k"
  shows "consistent d (pcs[t := p]) w' (Some t) rs d'"
proof -
  have s: "settled pcs h rs" using assms(1) by (simp add: consistent_def)
  have "pcs[t := p] ! t = p" using s assms(2) by (simp add: settled_def)
  then show ?thesis using assms settled_move [OF s assms(2-4)] by (auto simp: consistent_def)
qed

lemma consistent_leave:
  assumes c: "consistent d pcs w (Some t) rs d'" and r: "whole t d' = (r, d'')" "free w' d''"
  shows "consistent d (pcs[t := final r]) w' None (rs @ [(t, r)]) d''"
proof -
  have t: "t < threads" and "inv d'" using c by (simp_all add: consistent_def)
  then have "inv d''" using keeps [of t d'] r(1) by simp
  moreover have "whole_in_order whole (map fst (rs @ [(t, r)])) d = (rs @ [(t, r)], d'')"
    using c r(1) by (simp add: consistent_def whole_in_order_snoc)
  moreover have "settled (pcs[t := final r]) None (rs @ [(t, r)])" "distinct (map fst (rs @ [(t, r)]))"
    using c settled_leave [of pcs t rs r] by (simp_all add: consistent_def)
  ultimately show ?thesis using r(2) by (simp add: consistent_def)
qed

lemma consistent_gives_up:
  assumes c: "consistent d pcs w h rs d'" and "t < threads" "t \<notin> fst ` set rs" "h \<noteq> Some t" "gives_up t p"
  shows "consistent d (pcs[t := p]) w h rs d'"
proof -
  have "settled (pcs[t := p]) h rs" using c settled_gives_up [OF _ assms(2,3,5)] by (simp add: consistent_def)
  moreover have "pcs[t := p] ! u = pcs ! u" if "h = Some u" for u using assms(4) that by (auto simp: nth_list_update)
  ultimately show ?thesis using c by (auto simp: consistent_def split: option.splits)
qed

text \<open>What a step of a thread does.\<close>

definition advances :: "'d \<Rightarrow> nat \<Rightarrow> 'p list \<Rightarrow> (nat \<times> 'r) list \<Rightarrow> ('p \<times> 'w) run \<Rightarrow> bool" where
  "advances d t pcs rs s \<longleftrightarrow>
     s = Blocked \<or> (\<exists>p w' h rs' d'. s = Done (p, w') \<and> consistent d (pcs[t := p]) w' h (rs @ rs') d')"

lemma advances_same: "s = Done (p, w') \<Longrightarrow> consistent d (pcs[t := p]) w' h rs d' \<Longrightarrow> advances d t pcs rs s"
  unfolding advances_def by (metis append_Nil2)

lemma advances_more: "s = Done (p, w') \<Longrightarrow> consistent d (pcs[t := p]) w' h (rs @ rs') d' \<Longrightarrow> advances d t pcs rs s"
  unfolding advances_def by blast

lemma holder_step:
  assumes c: "consistent d pcs w (Some t) rs d'" and i: "inside t d' (pcs ! t) w k"
  obtains (ends) r w' d'' where "step t (pcs ! t) w = Done (final r, w')"
      "consistent d (pcs[t := final r]) w' None (rs @ [(t, r)]) d''"
    | (goes_on) p w' k' where "step t (pcs ! t) w = Done (p, w')" "inside t d' p w' k'" "k' < k"
      "consistent d (pcs[t := p]) w' (Some t) rs d'"
proof -
  have t: "t < threads" "t \<notin> fst ` set rs" and inv: "inv d'" using c by (simp_all add: consistent_def)
  from works [OF t(1) inv i] show ?thesis
  proof (elim disjE exE conjE)
    fix p w' k' assume "step t (pcs ! t) w = Done (p, w')" and p: "inside t d' p w' k'" and "k' < k"
    then show ?thesis using goes_on consistent_move [OF c t _ p] by blast
  next
    fix r w' d'' assume "step t (pcs ! t) w = Done (final r, w')" "whole t d' = (r, d'')" "free w' d''"
    then show ?thesis using ends consistent_leave [OF c] by blast
  qed
qed

lemma consistent_step:
  assumes c: "consistent d pcs w h rs d'" and t: "t < threads"
  shows "advances d t pcs rs (step t (pcs ! t) w)"
proof -
  have stay: "advances d t pcs rs (step t (pcs ! t) w)" if "pcs ! t = final r" for r
  proof -
    have "pcs[t := final r] = pcs" using that by (metis list_update_id)
    then show ?thesis using c that stays by (intro advances_same [where h = h and d' = d']) auto
  qed
  consider (ended) "t \<in> fst ` set rs" | (holder) "h = Some t" | (up) "gives_up t (pcs ! t)"
    | (free) "t \<notin> fst ` set rs" "pcs ! t = start" "h = None"
    | (taken) u where "t \<notin> fst ` set rs" "pcs ! t = start" "h = Some u" "u \<noteq> t"
  proof -
    have "t \<notin> fst ` set rs \<longrightarrow> h = Some t \<or> pcs ! t = start \<or> gives_up t (pcs ! t)"
      using c t by (simp add: consistent_def settled_def)
    then show ?thesis using that by (cases h) blast+
  qed
  then show ?thesis
  proof cases
    case ended
    then show ?thesis using c stay by (auto simp: consistent_def settled_def)
  next
    case holder
    then obtain k where "inside t d' (pcs ! t) w k" using c by (auto simp: consistent_def)
    with c [unfolded holder] show ?thesis
      by (rule holder_step) (rule advances_more, assumption+, rule advances_same, assumption+)
  next
    case up
    then show ?thesis using stay gives_up_final by blast
  next
    case free
    then have "inv d'" "free w d'" using c by (simp_all add: consistent_def)
    then obtain p w' k where "step t start w = Done (p, w')" "inside t d' p w' k"
      using enters [OF t] by blast
    then show ?thesis using free consistent_move [OF c t free(1)] by (intro advances_same) auto
  next
    case taken
    then obtain k where "inside u d' (pcs ! u) w k" "inv d'" using c by (auto simp: consistent_def)
    then consider "step t start w = Blocked" | p where "step t start w = Done (p, w)" "gives_up t p"
      using waits [OF t] by blast
    then show ?thesis
    proof cases
      case 1
      then show ?thesis using taken(2) by (simp add: advances_def)
    next
      case 2
      then show ?thesis using consistent_gives_up [OF c t taken(1) _ 2(2)] taken by (intro advances_same) auto
    qed
  qed
qed

lemma consistent_schedule:
  assumes "consistent d pcs w h rs d'"
  shows "\<exists>pcs' w' h' rs' d''. interleave step threads s (pcs, w) = Done (pcs', w') \<and>
    consistent d pcs' w' h' (rs @ rs') d''"
  using assms
proof (induction s arbitrary: pcs w h rs d')
  case Nil
  then show ?case by (metis append_Nil2 interleave.simps(1))
next
  case (Cons t s)
  show ?case
  proof (cases "t < threads")
    case True
    consider (waits) "step t (pcs ! t) w = Blocked"
      | (moves) p w' h' rs' d'' where "step t (pcs ! t) w = Done (p, w')"
        "consistent d (pcs[t := p]) w' h' (rs @ rs') d''"
      using consistent_step [OF Cons.prems True] unfolding advances_def by blast
    then show ?thesis
    proof cases
      case waits
      then show ?thesis using Cons.IH [OF Cons.prems] True by simp
    next
      case moves
      then show ?thesis using Cons.IH [OF moves(2)] True by (simp add: append_assoc) metis
    qed
  next
    case False
    then show ?thesis using Cons.IH [OF Cons.prems] by simp
  qed
qed

section \<open>Every schedule is explained, and can be completed\<close>

definition explained :: "'d \<Rightarrow> nat list \<Rightarrow> 'p list \<Rightarrow> 'w \<Rightarrow> bool" where
  "explained d order pcs w \<longleftrightarrow>
     (\<exists>rs d'. whole_in_order whole order d = (rs, d') \<and> distinct order \<and> inv d' \<and>
        (\<forall>(t, r) \<in> set rs. t < threads \<and> pcs ! t = final r) \<and>
        (\<forall>t < threads. \<forall>r. pcs ! t = final r \<longrightarrow> (t, r) \<in> set rs \<or> gives_up t (final r)) \<and>
        ((\<forall>t < threads. pcs ! t = start \<or> ended (pcs ! t)) \<longrightarrow> free w d'))"

lemma consistent_explained:
  assumes "consistent d pcs w h rs d'"
  shows "explained d (map fst rs) pcs w"
proof -
  have set: "settled pcs h rs" using assms by (simp add: consistent_def)
  have holder: "pcs ! t \<noteq> start \<and> \<not> ended (pcs ! t)" if h: "h = Some t" for t
  proof -
    obtain k where "inside t d' (pcs ! t) w k" using assms h by (auto simp: consistent_def)
    then show ?thesis using inside_neither by (auto simp: ended_def)
  qed
  have "(t, r) \<in> set rs \<or> gives_up t (final r)" if t: "t < threads" "pcs ! t = final r" for t r
  proof (cases "t \<in> fst ` set rs")
    case True
    then show ?thesis using set t final_inj by (force simp: settled_def)
  next
    case False
    have "h \<noteq> Some t" using holder [of t] t by (auto simp: ended_def)
    then show ?thesis using set t False final_neq by (force simp: settled_def)
  qed
  moreover have "free w d'" if idle: "\<forall>t < threads. pcs ! t = start \<or> ended (pcs ! t)"
    using assms idle holder by (cases h) (auto simp: consistent_def)
  ultimately show ?thesis using assms set unfolding explained_def consistent_def settled_def by blast
qed

lemma schedule_explained:
  assumes "free w d" "inv d"
  shows "\<exists>pcs1 w1 pcs2 w2 order1 order2.
    interleave step threads s1 (replicate threads start, w) = Done (pcs1, w1) \<and>
    interleave step threads s2 (pcs1, w1) = Done (pcs2, w2) \<and>
    explained d order1 pcs1 w1 \<and> explained d (order1 @ order2) pcs2 w2"
proof -
  obtain pcs1 w1 h1 rs1 d1 where 1: "interleave step threads s1 (replicate threads start, w) = Done (pcs1, w1)"
    "consistent d pcs1 w1 h1 rs1 d1"
    using consistent_schedule [OF consistent_start [OF assms], of s1] by auto
  obtain pcs2 w2 h2 rs2 d2 where 2: "interleave step threads s2 (pcs1, w1) = Done (pcs2, w2)"
    "consistent d pcs2 w2 h2 (rs1 @ rs2) d2"
    using consistent_schedule [OF 1(2), of s2] by auto
  show ?thesis using 1 2 consistent_explained [OF 1(2)] consistent_explained [OF 2(2)] by (metis map_append)
qed

text \<open>The thread that is inside can run to its end; then every other can, one after the other.\<close>

lemma holder_ends:
  assumes "consistent d pcs w (Some t) rs d'" "inside t d' (pcs ! t) w k"
  shows "\<exists>s pcs' w' rs' d'' r. interleave step threads s (pcs, w) = Done (pcs', w') \<and>
    consistent d pcs' w' None (rs @ rs') d'' \<and> pcs' = pcs[t := final r]"
  using assms
proof (induction k arbitrary: pcs w rule: less_induct)
  case (less k)
  have t: "t < threads" "t < length pcs" using less.prems(1) by (simp_all add: consistent_def settled_def)
  show ?case
  proof (rule holder_step [OF less.prems])
    fix r w' d''
    assume step: "step t (pcs ! t) w = Done (final r, w')" and c: "consistent d (pcs[t := final r]) w' None (rs @ [(t, r)]) d''"
    have "interleave step threads [t] (pcs, w) = Done (pcs[t := final r], w')" using step t by simp
    then show ?thesis using c by blast
  next
    fix p w' k'
    assume step: "step t (pcs ! t) w = Done (p, w')" and k: "inside t d' p w' k'" "k' < k"
      and c: "consistent d (pcs[t := p]) w' (Some t) rs d'"
    have "inside t d' (pcs[t := p] ! t) w' k'" using k(1) t by simp
    from less.IH [OF k(2) c this] obtain s pcs' w'' rs' d'' r where
      s: "interleave step threads s (pcs[t := p], w') = Done (pcs', w'')"
      "consistent d pcs' w'' None (rs @ rs') d''" "pcs' = pcs[t := p, t := final r]" by blast
    then have "interleave step threads (t # s) (pcs, w) = Done (pcs', w'')" using step t by simp
    then show ?thesis using s(2,3) by (metis list_update_overwrite)
  qed
qed

lemma thread_ends:
  assumes c: "consistent d pcs w None rs d'" and t: "t < threads"
  shows "\<exists>s pcs' w' rs' d'' r. interleave step threads s (pcs, w) = Done (pcs', w') \<and>
    consistent d pcs' w' None (rs @ rs') d'' \<and> pcs' = pcs[t := final r]"
proof (cases "pcs ! t = start")
  case True
  have set: "settled pcs None rs" and l: "t < length pcs" using c t by (simp_all add: consistent_def settled_def)
  have new: "t \<notin> fst ` set rs"
  proof
    assume "t \<in> fst ` set rs"
    then obtain r where "pcs ! t = final r" using set by (auto simp: settled_def)
    then show False using True final_neq [of r] by simp
  qed
  have "inv d'" "free w d'" using c by (simp_all add: consistent_def)
  then obtain p w' k where b: "step t start w = Done (p, w')" "inside t d' p w' k"
    using enters [OF t] by blast
  have "consistent d (pcs[t := p]) w' (Some t) rs d'" by (rule consistent_move [OF c t new _ b(2)]) simp
  from holder_ends [OF this] b(2) l obtain s pcs' w'' rs' d'' r where
    s: "interleave step threads s (pcs[t := p], w') = Done (pcs', w'')"
    "consistent d pcs' w'' None (rs @ rs') d''" "pcs' = pcs[t := p, t := final r]"
    by (metis nth_list_update_eq)
  then have "interleave step threads (t # s) (pcs, w) = Done (pcs', w'')" using b(1) True t by simp
  then show ?thesis using s(2,3) by (metis list_update_overwrite)
next
  case False
  then have "t \<in> fst ` set rs \<or> gives_up t (pcs ! t)" using c t by (auto simp: consistent_def settled_def)
  then obtain r where "pcs ! t = final r"
    using c gives_up_final by (force simp: consistent_def settled_def)
  then have "pcs[t := final r] = pcs" by (metis list_update_id)
  then show ?thesis using c by (metis append_Nil2 interleave.simps(1))
qed

lemma first_threads_end:
  assumes c: "consistent d pcs w None rs d'" and "m \<le> threads"
  shows "\<exists>s pcs' w' rs' d''. interleave step threads s (pcs, w) = Done (pcs', w') \<and>
    consistent d pcs' w' None (rs @ rs') d'' \<and> (\<forall>t < m. ended (pcs' ! t))"
  using assms(2)
proof (induction m)
  case 0
  then show ?case using c by (metis append_Nil2 less_nat_zero_code interleave.simps(1))
next
  case (Suc m)
  then obtain s pcs' w' rs' d'' where 1: "interleave step threads s (pcs, w) = Done (pcs', w')"
    "consistent d pcs' w' None (rs @ rs') d''" "\<forall>t < m. ended (pcs' ! t)"
    by auto
  obtain s2 pcs2 w2 rs2 d2 r where 2: "interleave step threads s2 (pcs', w') = Done (pcs2, w2)"
    "consistent d pcs2 w2 None ((rs @ rs') @ rs2) d2" "pcs2 = pcs'[m := final r]"
    using thread_ends [OF 1(2), of m] Suc.prems by auto
  have "length pcs' = threads" using 1(2) by (simp add: consistent_def settled_def)
  then have "\<forall>t < Suc m. ended (pcs2 ! t)"
    using 1(3) 2(3) Suc.prems by (auto simp: nth_list_update less_Suc_eq ended_def)
  moreover have "interleave step threads (s @ s2) (pcs, w) = Done (pcs2, w2)"
    using 1(1) 2(1) by (simp add: interleave_append)
  ultimately show ?case using 2(2) by (metis append_assoc)
qed

lemma schedule_completes:
  assumes "free w d" "inv d" "interleave step threads s1 (replicate threads start, w) = Done (pcs1, w1)"
  shows "\<exists>s2 pcs2 w2. interleave step threads s2 (pcs1, w1) = Done (pcs2, w2) \<and> (\<forall>t < threads. ended (pcs2 ! t))"
proof -
  obtain h rs d1 where c: "consistent d pcs1 w1 h rs d1"
    using consistent_schedule [OF consistent_start [OF assms(1,2)], of s1] assms(3) by auto
  obtain s pcs w' rs' d' where s: "interleave step threads s (pcs1, w1) = Done (pcs, w')"
    "consistent d pcs w' None rs' d'"
  proof (cases h)
    case None
    then show ?thesis using that [of "[]"] c by simp
  next
    case (Some t)
    then obtain k where "inside t d1 (pcs1 ! t) w1 k" using c by (auto simp: consistent_def)
    then show ?thesis using holder_ends [OF c [unfolded Some]] that by blast
  qed
  obtain s' pcs2 w2 where "interleave step threads s' (pcs, w') = Done (pcs2, w2)" "\<forall>t < threads. ended (pcs2 ! t)"
    using first_threads_end [OF s(2) order_refl] by blast
  then have "interleave step threads (s @ s') (pcs1, w1) = Done (pcs2, w2) \<and> (\<forall>t < threads. ended (pcs2 ! t))"
    using s(1) by (simp add: interleave_append)
  then show ?thesis by blast
qed

end

end
