(* ===== verification/Threads.thy ===== *)
theory Threads
  imports Async Linked_List Interleave
begin

text \<open>
  The handlers on one device as threads (\<open>hwe_sysfs.c\<close>, \<open>hwe_utils.c\<close>, \<open>hwe_async.c\<close>, and the
  drivers' calls of \<open>find_response\<close>). In the other theories a handler runs to its end in one go.
  Here it is a sequence of small steps on the linked list in memory, with a program counter, and
  the kernel switches between the threads as it likes: \<open>schedule\<close> is \<open>interleave\<close> with these steps. A thread that waits for the semaphore stays where it is; a thread that
  reads a pair that has been freed, or follows the poison of \<open>list_del\<close>, ends in \<open>Oops\<close>.

  \<open>handlers_are_atomic\<close> shows that with the interface lock every schedule has the effect of
  running the handlers of the theories \<open>Device\<close> and \<open>Async\<close> whole, one after the other;
  \<open>every_call_completes\<close> that no schedule leads into a deadlock; \<open>unlocked_search_can_crash\<close> that
  a search without the lock, as in \<open>hwespi_transfer_one\<close> and \<open>hwenet_xmit\<close>, can read a freed pair.

  The memory of a device is \<open>w_mem\<close>; the field \<open>pair_list\<close> of \<open>w_dev\<close> is not used. \<open>w_buf\<close> is the
  static buffer of \<open>pair_to_str\<close>, of which the module has one; writing the text there and copying it
  out are a step each. \<open>fresh\<close> is the allocator: it may return any address that is not allocated.
\<close>

section \<open>Calls and their steps\<close>

record 'd world =
  w_dev :: "'d hwe_dev"
  w_mem :: list_mem
  w_sem :: nat
  w_buf :: string

text \<open>
  The calls: \<open>find_response\<close> and the use of its result, with the lock (terminals, I2C) or
  without (SPI, network); \<open>dev_add_store\<close>; \<open>hwe_delete_pair\<close>; \<open>hwe_clear_pairs\<close>; the timer's
  visit of the device; the part of \<open>pair_show\<close> and \<open>hwe_get_pair\<close> that copies the text of a pair.
\<close>

datatype call =
    Search bool "byte list" nat
  | Add add_env string nat
  | Delete int
  | Clear
  | Tick ulong
  | Show int

datatype answer =
    Response "byte list option"
  | Returned int
  | Packets "hwe_pair list option"
  | Text string

datatype pc =
    Begin
  | At nat
  | Hold nat
  | Copy
  | Gone nat
  | Wipe nat nat
  | Wiped nat nat
  | Stamp nat "hwe_pair list"
  | Alloc
  | Parse nat
  | Number nat
  | Check nat nat nat
  | Create nat nat
  | Link nat nat
  | Discard nat answer
  | Unlock answer
  | End answer

definition down :: "'d world \<Rightarrow> 'd world option" where
  "down w = (if w_sem w = 0 then None else Some (w\<lparr>w_sem := w_sem w - 1\<rparr>))"

definition up :: "'d world \<Rightarrow> 'd world" where
  "up w = w\<lparr>w_sem := w_sem w + 1\<rparr>"

definition entry_matches :: "byte list \<Rightarrow> nat \<Rightarrow> hwe_pair \<Rightarrow> bool" where
  "entry_matches request sz ret \<longleftrightarrow>
     \<not> async_rx ret \<and> req_size ret = sz \<and> take sz (req ret) = take sz request"

definition leave :: "bool \<Rightarrow> answer \<Rightarrow> pc" where
  "leave lk r = (if lk then Unlock r else End r)"

fun search_step :: "bool \<Rightarrow> byte list \<Rightarrow> nat \<Rightarrow> pc \<Rightarrow> 'd world \<Rightarrow> (pc \<times> 'd world) run" where
  "search_step lk rq sz Begin w =
     (case (if lk then down w else Some w) of
        None \<Rightarrow> Blocked
      | Some w \<Rightarrow> Done (At (nxt (w_mem w) 0), w))"
| "search_step lk rq sz (At x) w =
     (if x = 0 then Done (leave lk (Response None), w)
      else
        (case node (w_mem w) x of
           None \<Rightarrow> Oops
         | Some ret \<Rightarrow>
             if entry_matches rq sz ret then Done (Hold x, w) else Done (At (nxt (w_mem w) x), w)))"
| "search_step lk rq sz (Hold x) w =
     (case node (w_mem w) x of
        None \<Rightarrow> Oops
      | Some pair \<Rightarrow> Done (leave lk (Response (Some (resp_bytes pair))), w))"
| "search_step lk rq sz pc w = Done (pc, w)"

text \<open>The first three actions of \<open>pair_delete\<close>; the fourth is \<open>kfree\<close>.\<close>

definition unlink_pair :: "hwe_pair \<Rightarrow> nat \<Rightarrow> 'd world \<Rightarrow> 'd world" where
  "unlink_pair pair x w =
     w\<lparr>w_dev := (w_dev w)\<lparr>pairs_indexes := bm_clear_bit (index pair) (pairs_indexes (w_dev w)),
                         pairs_dir := removeAll (filename pair) (pairs_dir (w_dev w))\<rparr>,
       w_mem := list_del x (w_mem w)\<rparr>"

definition free_pair :: "nat \<Rightarrow> 'd world \<Rightarrow> 'd world" where
  "free_pair x w = w\<lparr>w_mem := kfree_node x (w_mem w)\<rparr>"

definition store_pair :: "nat \<Rightarrow> hwe_pair \<Rightarrow> 'd world \<Rightarrow> 'd world" where
  "store_pair x p w = w\<lparr>w_mem := kmalloc_node x p (w_mem w)\<rparr>"

fun delete_step :: "int \<Rightarrow> pc \<Rightarrow> 'd world \<Rightarrow> (pc \<times> 'd world) run" where
  "delete_step k Begin w =
     (case down w of None \<Rightarrow> Blocked | Some w \<Rightarrow> Done (At (nxt (w_mem w) 0), w))"
| "delete_step k (At x) w =
     (if x = 0 then Done (Unlock (Returned (- ENOENT)), w)
      else
        (case node (w_mem w) x of
           None \<Rightarrow> Oops
         | Some ret \<Rightarrow>
             if size_of_long k = index ret then Done (Hold x, w) else Done (At (nxt (w_mem w) x), w)))"
| "delete_step k (Hold x) w =
     (case node (w_mem w) x of None \<Rightarrow> Oops | Some pair \<Rightarrow> Done (Gone x, unlink_pair pair x w))"
| "delete_step k (Gone x) w = Done (Unlock (Returned 0), free_pair x w)"
| "delete_step k pc w = Done (pc, w)"

text \<open>\<open>list_for_each_safe\<close> reads the next entry before the current one is deleted.\<close>

fun clear_step :: "pc \<Rightarrow> 'd world \<Rightarrow> (pc \<times> 'd world) run" where
  "clear_step Begin w =
     (case down w of
        None \<Rightarrow> Blocked
      | Some w \<Rightarrow> Done (Wipe (nxt (w_mem w) 0) (nxt (w_mem w) (nxt (w_mem w) 0)), w))"
| "clear_step (Wipe x n) w =
     (if x = 0 then Done (Unlock (Returned 0), w)
      else (case node (w_mem w) x of None \<Rightarrow> Oops | Some pair \<Rightarrow> Done (Wiped x n, unlink_pair pair x w)))"
| "clear_step (Wiped x n) w =
     (let w = free_pair x w
      in if n \<noteq> 0 \<and> node (w_mem w) n = None then Oops else Done (Wipe n (nxt (w_mem w) n), w))"
| "clear_step pc w = Done (pc, w)"

fun tick_step :: "ulong \<Rightarrow> pc \<Rightarrow> 'd world \<Rightarrow> (pc \<times> 'd world) run" where
  "tick_step jiff Begin w =
     (case down w of
        None \<Rightarrow> Done (End (Packets None), w)
      | Some w \<Rightarrow> Done (Stamp (nxt (w_mem w) 0) [], w))"
| "tick_step jiff (Stamp x ps) w =
     (if x = 0 then Done (Unlock (Packets (Some ps)), w)
      else
        (case node (w_mem w) x of
           None \<Rightarrow> Oops
         | Some p \<Rightarrow>
             if fires jiff p
             then Done (Stamp (nxt (w_mem w) x) (ps @ [stamped jiff p]), store_pair x (stamped jiff p) w)
             else Done (Stamp (nxt (w_mem w) x) ps, w)))"
| "tick_step jiff pc w = Done (pc, w)"

definition in_static_buf :: "hwe_pair \<Rightarrow> bool" where
  "in_static_buf pair \<longleftrightarrow>
     (async_rx pair \<or> 1 \<le> req_size pair \<and> req_size pair \<le> HWE_MAX_REQUEST) \<and>
     1 \<le> resp_size pair \<and> resp_size pair \<le> HWE_MAX_RESPONSE"

text \<open>\<open>pair_to_str\<close> returns its static buffer, or a constant text when a size is out of range.\<close>

fun show_step :: "int \<Rightarrow> pc \<Rightarrow> 'd world \<Rightarrow> (pc \<times> 'd world) run" where
  "show_step idx Begin w =
     (case down w of None \<Rightarrow> Blocked | Some w \<Rightarrow> Done (At (nxt (w_mem w) 0), w))"
| "show_step idx (At x) w =
     (if x = 0 then Done (Unlock (Text []), w)
      else
        (case node (w_mem w) x of
           None \<Rightarrow> Oops
         | Some pair \<Rightarrow>
             if int (index pair) = idx then Done (Hold x, w) else Done (At (nxt (w_mem w) x), w)))"
| "show_step idx (Hold x) w =
     (case node (w_mem w) x of
        None \<Rightarrow> Oops
      | Some pair \<Rightarrow>
          if in_static_buf pair then Done (Copy, w\<lparr>w_buf := pair_to_str pair\<rparr>)
          else Done (Unlock (Text (pair_to_str pair)), w))"
| "show_step idx Copy w = Done (Unlock (Text (w_buf w)), w)"
| "show_step idx pc w = Done (pc, w)"

fun add_step ::
  "klib \<Rightarrow> ((nat \<Rightarrow> hwe_pair option) \<Rightarrow> nat) \<Rightarrow> add_env \<Rightarrow> string \<Rightarrow> nat \<Rightarrow> pc \<Rightarrow> 'd world \<Rightarrow> (pc \<times> 'd world) run" where
  "add_step K fresh E buf cnt Begin w = (case down w of None \<Rightarrow> Blocked | Some w \<Rightarrow> Done (Alloc, w))"
| "add_step K fresh E buf cnt Alloc w =
     (if \<not> kmalloc_ok E then Done (Unlock (Returned (- EINVAL)), w)
      else (let a = fresh (node (w_mem w)) in Done (Parse a, store_pair a (raw_pair E) w)))"
| "add_step K fresh E buf cnt (Parse a) w =
     (case node (w_mem w) a of
        None \<Rightarrow> Oops
      | Some raw \<Rightarrow>
          (case str_to_pair K buf cnt raw of
             Inl err \<Rightarrow> Done (Discard a (Returned (- EINVAL)), w)
           | Inr pair \<Rightarrow> Done (Number a, store_pair a pair w)))"
| "add_step K fresh E buf cnt (Number a) w =
     (let idx = find_first_zero_bit (pairs_indexes (w_dev w)) HWE_MAX_PAIRS
      in if idx = HWE_MAX_PAIRS then Done (Discard a (Returned (- EINVAL)), w)
         else Done (Check a idx (nxt (w_mem w) 0), w))"
| "add_step K fresh E buf cnt (Check a idx x) w =
     (case node (w_mem w) a of
        None \<Rightarrow> Oops
      | Some pair \<Rightarrow>
          if x = 0 then Done (Create a idx, w)
          else
            (case node (w_mem w) x of
               None \<Rightarrow> Oops
             | Some ret \<Rightarrow>
                 if entry_matches (req pair) (req_size pair) ret
                 then Done (Discard a (Returned (- EINVAL)), w)
                 else Done (Check a idx (nxt (w_mem w) x), w)))"
| "add_step K fresh E buf cnt (Create a idx) w =
     (case node (w_mem w) a of
        None \<Rightarrow> Oops
      | Some pair \<Rightarrow>
          let pair = numbered pair idx;
              w = store_pair a pair w;
              ret = create_file_err E
          in if ret \<noteq> 0
             then (if ret < 0 then Done (Discard a (Returned ret), w) else Done (Unlock (Returned ret), w))
             else Done (Link a idx, w\<lparr>w_dev := (w_dev w)\<lparr>pairs_dir := pairs_dir (w_dev w) @ [filename pair]\<rparr>\<rparr>))"
| "add_step K fresh E buf cnt (Link a idx) w =
     Done (Unlock (Returned (int cnt)),
       w\<lparr>w_dev := (w_dev w)\<lparr>pairs_indexes := bm_set_bit idx (pairs_indexes (w_dev w))\<rparr>,
         w_mem := list_add_tail a 0 (w_mem w)\<rparr>)"
| "add_step K fresh E buf cnt (Discard a r) w = Done (Unlock r, free_pair a w)"
| "add_step K fresh E buf cnt pc w = Done (pc, w)"

fun thread_step ::
  "klib \<Rightarrow> ((nat \<Rightarrow> hwe_pair option) \<Rightarrow> nat) \<Rightarrow> call \<Rightarrow> pc \<Rightarrow> 'd world \<Rightarrow> (pc \<times> 'd world) run" where
  "thread_step K fresh c (Unlock r) w = Done (End r, up w)"
| "thread_step K fresh c (End r) w = Done (End r, w)"
| "thread_step K fresh (Search lk rq sz) pc w = search_step lk rq sz pc w"
| "thread_step K fresh (Add E buf cnt) pc w = add_step K fresh E buf cnt pc w"
| "thread_step K fresh (Delete k) pc w = delete_step k pc w"
| "thread_step K fresh Clear pc w = clear_step pc w"
| "thread_step K fresh (Tick jiff) pc w = tick_step jiff pc w"
| "thread_step K fresh (Show idx) pc w = show_step idx pc w"

text \<open>\<open>schedule\<close> lets the threads whose numbers are listed make one step each.\<close>

definition schedule ::
  "klib \<Rightarrow> ((nat \<Rightarrow> hwe_pair option) \<Rightarrow> nat) \<Rightarrow> call list \<Rightarrow> nat list \<Rightarrow> pc list \<times> 'd world \<Rightarrow>
     (pc list \<times> 'd world) run" where
  "schedule K fresh calls = interleave (\<lambda>t. thread_step K fresh (calls ! t)) (length calls)"

section \<open>The handlers in one go\<close>

fun atomic :: "klib \<Rightarrow> call \<Rightarrow> 'd hwe_dev \<Rightarrow> answer \<times> 'd hwe_dev" where
  "atomic K (Search lk rq sz) dev = (Response (map_option resp_bytes (find_response dev rq sz)), dev)"
| "atomic K (Add E buf cnt) dev = (case dev_add_store_locked K E dev buf cnt of (r, dev) \<Rightarrow> (Returned r, dev))"
| "atomic K (Delete k) dev = (case hwe_delete_pair_locked dev k of (r, dev) \<Rightarrow> (Returned r, dev))"
| "atomic K Clear dev = (Returned 0, clear_pairs dev)"
| "atomic K (Tick jiff) dev =
     (Packets (Some (map (stamped jiff) (filter (fires jiff) (pair_list dev)))), tick_dev jiff dev)"
| "atomic K (Show idx) dev = (Text (pair_show_locked dev idx), dev)"

definition in_order :: "klib \<Rightarrow> call list \<Rightarrow> nat list \<Rightarrow> 'd hwe_dev \<Rightarrow> (nat \<times> answer) list \<times> 'd hwe_dev" where
  "in_order K calls = whole_in_order (\<lambda>t. atomic K (calls ! t))"

definition fresh_ok :: "((nat \<Rightarrow> hwe_pair option) \<Rightarrow> nat) \<Rightarrow> bool" where
  "fresh_ok fresh \<longleftrightarrow>
     (\<forall>h. finite (dom h) \<longrightarrow> fresh h \<notin> dom h \<and> fresh h \<notin> {0, LIST_POISON1, LIST_POISON2})"

fun call_ok :: "call \<Rightarrow> bool" where
  "call_ok (Search lk rq sz) = lk"
| "call_ok (Add E buf cnt) \<longleftrightarrow> pair_buf_ok (raw_pair E) \<and> create_file_err E \<le> 0"
| "call_ok c = True"

text \<open>
  \<open>holds w as ex dev\<close>: the memory of \<open>w\<close> is that of the device \<open>dev\<close>; its pairs are at the
  addresses \<open>as\<close> in this order, and besides them exactly the addresses \<open>ex\<close> are allocated.
\<close>

definition holds :: "'d world \<Rightarrow> nat list \<Rightarrow> nat set \<Rightarrow> 'd hwe_dev \<Rightarrow> bool" where
  "holds w as ex dev \<longleftrightarrow> on_list (w_mem w) as \<and> (w_dev w)\<lparr>pair_list := pairs_at (w_mem w) as\<rparr> = dev \<and>
     dom (node (w_mem w)) = set as \<union> ex \<and> 0 \<notin> ex \<and> LIST_POISON1 \<notin> set as \<union> ex"

definition represents :: "'d world \<Rightarrow> 'd hwe_dev \<Rightarrow> bool" where
  "represents w dev \<longleftrightarrow> w_sem w = 1 \<and> (\<exists>as. holds w as {} dev)"

end
