(* ===== verification/Threads_Correct.thy ===== *)
theory Threads_Correct
  imports Threads
begin

text \<open>
  Why the lock makes the handlers atomic. \<open>busy\<close> describes a thread inside its critical section: what
  the memory is at each of its program points, compared with the device before it began, and how
  many steps it has left at most. \<open>busy_step\<close> is the step case. So the handlers keep the contract
  \<open>critical_sections\<close> of a lock, and the theorems are those of the contract.
\<close>

section \<open>Actions on the memory\<close>

lemma hd_entry: "hd ((bs :: nat list) @ [0]) = (case bs of [] \<Rightarrow> 0 | b # _ \<Rightarrow> b)"
  by (cases bs) simp_all

lemma pairs_at_simps [simp]:
  "pairs_at m [] = []" "pairs_at m (a # as) = the (node m a) # pairs_at m as"
  "pairs_at m (as @ bs) = pairs_at m as @ pairs_at m bs"
  by (simp_all add: pairs_at_def)

lemma pairs_at_frame: "a \<notin> set as \<Longrightarrow> pairs_at (kmalloc_node a p m) as = pairs_at m as"
  "a \<notin> set as \<Longrightarrow> pairs_at (kfree_node a m) as = pairs_at m as"
  "pairs_at (list_del x m) as = pairs_at m as" "pairs_at (list_add_tail x y m) as = pairs_at m as"
  by (auto simp: pairs_at_def kmalloc_node_def kfree_node_def list_del_def list_del_between_def list_add_tail_def
      list_add_between_def field_defs Let_def)

lemma node_simps [simp]:
  "node (list_del x m) = node m" "node (list_add_tail x y m) = node m"
  "node (kmalloc_node a p m) = (node m)(a \<mapsto> p)" "node (kfree_node a m) = (node m)(a := None)"
  by (simp_all add: kmalloc_node_def kfree_node_def list_del_def list_del_between_def list_add_tail_def
      list_add_between_def field_defs Let_def)

lemma nxt_simps [simp]: "nxt (kmalloc_node a p m) = nxt m" "nxt (kfree_node a m) = nxt m"
  by (simp_all add: kmalloc_node_def kfree_node_def)

lemma holds_pairs: "holds w as ex dev \<Longrightarrow> pair_list dev = pairs_at (w_mem w) as"
  by (auto simp: holds_def)

lemma holds_first: "holds w as ex dev \<Longrightarrow> nxt (w_mem w) 0 = hd (as @ [0])"
  by (simp add: holds_def on_list_first)

lemma holds_entry:
  assumes "holds w (as @ x # bs) ex dev"
  obtains p where "node (w_mem w) x = Some p" "x \<noteq> 0" "nxt (w_mem w) x = hd (bs @ [0])" "x \<notin> set as" "x \<notin> set bs"
proof -
  have "x \<in> dom (node (w_mem w))" "on_list (w_mem w) (as @ x # bs)" using assms by (auto simp: holds_def)
  then show ?thesis using that on_list_at [of "w_mem w" as x bs] by (auto simp: on_list_def)
qed

lemma holds_sem [simp]: "holds (w\<lparr>w_sem := n\<rparr>) as ex dev \<longleftrightarrow> holds w as ex dev"
  by (simp add: holds_def)

lemma holds_buf [simp]: "holds (w\<lparr>w_buf := s\<rparr>) as ex dev \<longleftrightarrow> holds w as ex dev"
  by (simp add: holds_def)

lemma holds_up [simp]: "holds (up w) as ex dev \<longleftrightarrow> holds w as ex dev"
  by (simp add: up_def)

lemma holds_free: "holds w as {a} dev \<Longrightarrow> a \<notin> set as \<Longrightarrow> holds (free_pair a w) as {} dev"
  by (auto simp: holds_def free_pair_def pairs_at_frame)

lemma holds_store: "holds w as {a} dev \<Longrightarrow> a \<notin> set as \<Longrightarrow> holds (store_pair a p w) as {a} dev"
  by (auto simp: holds_def store_pair_def pairs_at_frame)

lemma holds_alloc:
  assumes "holds w as {} dev" "fresh_ok fresh"
  shows "holds (store_pair (fresh (node (w_mem w))) p w) as {fresh (node (w_mem w))} dev"
    "fresh (node (w_mem w)) \<notin> set as"
proof -
  let ?a = "fresh (node (w_mem w))"
  have "finite (dom (node (w_mem w)))" using assms(1) by (simp add: holds_def)
  then have "?a \<notin> dom (node (w_mem w))" and a: "?a \<notin> {0, LIST_POISON1, LIST_POISON2}"
    using assms(2) unfolding fresh_ok_def by blast+
  then show new: "?a \<notin> set as" using assms(1) by (auto simp: holds_def)
  then show "holds (store_pair ?a p w) as {?a} dev"
    using assms(1) a by (auto simp: holds_def store_pair_def pairs_at_frame)
qed

lemma remove1_at:
  assumes "distinct (map f (xs @ p # ys))"
  shows "remove1 p (xs @ p # ys) = xs @ ys"
  using assms by (auto simp: remove1_append)

lemma holds_unlink:
  assumes h: "holds w (as @ x # bs) {} dev" and p: "node (w_mem w) x = Some p" and inv: "dev_inv dev"
  shows "holds (unlink_pair p x w) (as @ bs) {x} (pair_delete dev p)"
proof -
  have dev: "pair_list dev = pairs_at (w_mem w) as @ p # pairs_at (w_mem w) bs" using holds_pairs [OF h] p by simp
  then have "remove1 p (pair_list dev) = pairs_at (w_mem w) (as @ bs)"
    using inv remove1_at [of index "pairs_at (w_mem w) as" p "pairs_at (w_mem w) bs"] by (simp add: dev_inv_def)
  moreover have "on_list (list_del x (w_mem w)) (as @ bs)"
    using h by (intro list_del_on_list) (simp add: holds_def)
  moreover have "x \<noteq> 0" "x \<notin> set (as @ bs)" using holds_entry [OF h] by auto
  ultimately show ?thesis
    using h by (auto simp: holds_def unlink_pair_def pair_delete_def pairs_at_frame)
qed

lemma holds_link:
  assumes h: "holds w as {a} (dev\<lparr>pairs_dir := pairs_dir dev @ [filename q]\<rparr>)" and a: "a \<notin> set as"
    and q: "node (w_mem w) a = Some q"
  shows "holds (w\<lparr>w_dev := (w_dev w)\<lparr>pairs_indexes := bm_set_bit (index q) (pairs_indexes (w_dev w))\<rparr>,
      w_mem := list_add_tail a 0 (w_mem w)\<rparr>) (as @ [a]) {} (add_new_pair dev q)"
proof -
  have eq: "(w_dev w)\<lparr>pair_list := pairs_at (w_mem w) as\<rparr> = dev\<lparr>pairs_dir := pairs_dir dev @ [filename q]\<rparr>"
    using h by (simp add: holds_def)
  then have "pair_list dev = pairs_at (w_mem w) as" "pairs_indexes (w_dev w) = pairs_indexes dev"
    by (cases dev; cases "w_dev w"; simp)+
  then have "(w_dev w)\<lparr>pairs_indexes := bm_set_bit (index q) (pairs_indexes (w_dev w)), pair_list := pairs_at (w_mem w) as @ [q]\<rparr>
      = add_new_pair dev q"
    using eq by (cases dev; cases "w_dev w") (simp add: add_new_pair_def)
  then show ?thesis
    using h a q by (auto simp: holds_def pairs_at_frame intro: list_add_tail_on_list)
qed

lemma holds_stamp:
  assumes h: "holds w (as @ x # bs) {} dev"
  shows "holds (store_pair x q w) (as @ x # bs) {}
    (dev\<lparr>pair_list := pairs_at (w_mem w) as @ q # pairs_at (w_mem w) bs\<rparr>)"
proof -
  have "x \<notin> set as" "x \<notin> set bs" using holds_entry [OF h] by auto
  then show ?thesis using h by (auto simp: holds_def store_pair_def pairs_at_frame)
qed

section \<open>Inside the critical section\<close>

text \<open>\<open>busy K c dev pc w n\<close>: a thread at \<open>pc\<close> that began the call \<open>c\<close> on the device \<open>dev\<close> has at
  most \<open>n + 1\<close> steps left.\<close>

inductive busy :: "klib \<Rightarrow> call \<Rightarrow> 'd hwe_dev \<Rightarrow> pc \<Rightarrow> 'd world \<Rightarrow> nat \<Rightarrow> bool" for K :: klib where
  leave: "holds w as {} dev' \<Longrightarrow> atomic K c dev = (r, dev') \<Longrightarrow> busy K c dev (Unlock r) w 0"
| search_at: "holds w (as @ bs) {} dev \<Longrightarrow>
    find_pair (pair_list dev) rq sz = find_pair (pairs_at (w_mem w) bs) rq sz \<Longrightarrow>
    x = hd (bs @ [0]) \<Longrightarrow> busy K (Search True rq sz) dev (At x) w (length bs + 2)"
| search_hold: "holds w as {} dev \<Longrightarrow> x \<in> set as \<Longrightarrow> find_response dev rq sz = node (w_mem w) x \<Longrightarrow>
    busy K (Search True rq sz) dev (Hold x) w 1"
| delete_at: "holds w (as @ bs) {} dev \<Longrightarrow>
    get_pair_at_index (pair_list dev) (size_of_long k) = get_pair_at_index (pairs_at (w_mem w) bs) (size_of_long k) \<Longrightarrow>
    x = hd (bs @ [0]) \<Longrightarrow> busy K (Delete k) dev (At x) w (length bs + 3)"
| delete_hold: "holds w (as @ x # bs) {} dev \<Longrightarrow> node (w_mem w) x = Some p \<Longrightarrow>
    get_pair_at_index (pair_list dev) (size_of_long k) = Some p \<Longrightarrow> busy K (Delete k) dev (Hold x) w 2"
| delete_gone: "holds w as {x} dev' \<Longrightarrow> x \<notin> set as \<Longrightarrow> atomic K (Delete k) dev = (Returned 0, dev') \<Longrightarrow>
    busy K (Delete k) dev (Gone x) w 1"
| wipe: "holds w as {} dev' \<Longrightarrow> dev_inv dev' \<Longrightarrow> clear_pairs dev' = clear_pairs dev \<Longrightarrow>
    x = hd (as @ [0]) \<Longrightarrow> n = hd (tl as @ [0]) \<Longrightarrow> busy K Clear dev (Wipe x n) w (2 * length as + 1)"
| wiped: "holds w as {x} dev' \<Longrightarrow> x \<notin> set as \<Longrightarrow> dev_inv dev' \<Longrightarrow> clear_pairs dev' = clear_pairs dev \<Longrightarrow>
    n = hd (as @ [0]) \<Longrightarrow> busy K Clear dev (Wiped x n) w (2 * length as + 2)"
| stamp: "holds w (as @ bs) {} (dev\<lparr>pair_list := map (tick_pair jiff) ps @ qs\<rparr>) \<Longrightarrow> pair_list dev = ps @ qs \<Longrightarrow>
    length ps = length as \<Longrightarrow> x = hd (bs @ [0]) \<Longrightarrow> rs = map (stamped jiff) (filter (fires jiff) ps) \<Longrightarrow>
    busy K (Tick jiff) dev (Stamp x rs) w (length bs + 1)"
| alloc: "holds w as {} dev \<Longrightarrow> busy K (Add E buf cnt) dev Alloc w (length as + 6)"
| parse: "holds w as {a} dev \<Longrightarrow> a \<notin> set as \<Longrightarrow> kmalloc_ok E \<Longrightarrow> node (w_mem w) a = Some (raw_pair E) \<Longrightarrow>
    busy K (Add E buf cnt) dev (Parse a) w (length as + 5)"
| number: "holds w as {a} dev \<Longrightarrow> a \<notin> set as \<Longrightarrow> kmalloc_ok E \<Longrightarrow> node (w_mem w) a = Some p \<Longrightarrow>
    str_to_pair K buf cnt (raw_pair E) = Inr p \<Longrightarrow> busy K (Add E buf cnt) dev (Number a) w (length as + 4)"
| check: "holds w (as @ bs) {a} dev \<Longrightarrow> a \<notin> set (as @ bs) \<Longrightarrow> kmalloc_ok E \<Longrightarrow> node (w_mem w) a = Some p \<Longrightarrow>
    str_to_pair K buf cnt (raw_pair E) = Inr p \<Longrightarrow>
    idx = find_first_zero_bit (pairs_indexes dev) HWE_MAX_PAIRS \<Longrightarrow> idx \<noteq> HWE_MAX_PAIRS \<Longrightarrow>
    find_pair (pair_list dev) (req p) (req_size p) = find_pair (pairs_at (w_mem w) bs) (req p) (req_size p) \<Longrightarrow>
    x = hd (bs @ [0]) \<Longrightarrow> busy K (Add E buf cnt) dev (Check a idx x) w (length bs + 3)"
| create: "holds w as {a} dev \<Longrightarrow> a \<notin> set as \<Longrightarrow> kmalloc_ok E \<Longrightarrow> node (w_mem w) a = Some p \<Longrightarrow>
    str_to_pair K buf cnt (raw_pair E) = Inr p \<Longrightarrow>
    idx = find_first_zero_bit (pairs_indexes dev) HWE_MAX_PAIRS \<Longrightarrow> idx \<noteq> HWE_MAX_PAIRS \<Longrightarrow>
    find_pair (pair_list dev) (req p) (req_size p) = None \<Longrightarrow> busy K (Add E buf cnt) dev (Create a idx) w 2"
| link: "holds w as {a} (dev\<lparr>pairs_dir := pairs_dir dev @ [filename q]\<rparr>) \<Longrightarrow> a \<notin> set as \<Longrightarrow>
    node (w_mem w) a = Some q \<Longrightarrow> index q = idx \<Longrightarrow>
    atomic K (Add E buf cnt) dev = (Returned (int cnt), add_new_pair dev q) \<Longrightarrow>
    busy K (Add E buf cnt) dev (Link a idx) w 1"
| discard: "holds w as {a} dev \<Longrightarrow> a \<notin> set as \<Longrightarrow> atomic K (Add E buf cnt) dev = (r, dev) \<Longrightarrow>
    busy K (Add E buf cnt) dev (Discard a r) w 1"
| show_at: "holds w (as @ bs) {} dev \<Longrightarrow>
    find (\<lambda>p. int (index p) = k) (pair_list dev) = find (\<lambda>p. int (index p) = k) (pairs_at (w_mem w) bs) \<Longrightarrow>
    x = hd (bs @ [0]) \<Longrightarrow> busy K (Show k) dev (At x) w (length bs + 3)"
| show_hold: "holds w as {} dev \<Longrightarrow> x \<in> set as \<Longrightarrow>
    find (\<lambda>p. int (index p) = k) (pair_list dev) = node (w_mem w) x \<Longrightarrow> busy K (Show k) dev (Hold x) w 2"
| show_copy: "holds w as {} dev \<Longrightarrow> pair_show_locked dev k = w_buf w \<Longrightarrow> busy K (Show k) dev Copy w 1"

text \<open>Every step of such a thread returns, keeps the description and brings the end nearer.\<close>

definition goes_on :: "klib \<Rightarrow> ((nat \<Rightarrow> hwe_pair option) \<Rightarrow> nat) \<Rightarrow> call \<Rightarrow> 'd hwe_dev \<Rightarrow> pc \<Rightarrow> 'd world \<Rightarrow> nat \<Rightarrow> bool" where
  "goes_on K fresh c dev pc w n \<longleftrightarrow>
     (\<exists>pc' w' n'. thread_step K fresh c pc w = Done (pc', w') \<and> busy K c dev pc' w' n' \<and> n' < n \<and> w_sem w' = w_sem w)"

lemma goes_onI:
  "thread_step K fresh c pc w = Done (pc', w') \<Longrightarrow> busy K c dev pc' w' n' \<Longrightarrow> n' < n \<Longrightarrow> w_sem w' = w_sem w \<Longrightarrow>
    goes_on K fresh c dev pc w n"
  by (auto simp: goes_on_def)

lemma world_sem [simp]: "w_sem (free_pair x w) = w_sem w" "w_sem (store_pair x p w) = w_sem w"
  "w_sem (unlink_pair p x w) = w_sem w"
  by (simp_all add: free_pair_def store_pair_def unlink_pair_def)

lemma world_nxt [simp]: "nxt (w_mem (free_pair x w)) = nxt (w_mem w)" "nxt (w_mem (store_pair x p w)) = nxt (w_mem w)"
  "node (w_mem (free_pair x w)) = (node (w_mem w))(x := None)"
  "node (w_mem (store_pair x p w)) = (node (w_mem w))(x \<mapsto> p)"
  by (simp_all add: free_pair_def store_pair_def)

lemma search_at_step:
  assumes h: "holds w (as @ bs) {} dev" and f: "find_pair (pair_list dev) rq sz = find_pair (pairs_at (w_mem w) bs) rq sz"
  shows "goes_on K fresh (Search True rq sz) dev (At (hd (bs @ [0]))) w (length bs + 2)"
proof (cases bs)
  case Nil
  then have "busy K (Search True rq sz) dev (Unlock (Response None)) w 0"
    using h f by (intro busy.leave [where as = as]) (simp_all add: find_response_def)
  then show ?thesis using Nil by (elim goes_onI [rotated]) (auto simp: leave_def)
next
  case (Cons x bs')
  obtain p where p: "node (w_mem w) x = Some p" "x \<noteq> 0" "nxt (w_mem w) x = hd (bs' @ [0])"
    using holds_entry [OF h [unfolded Cons]] by blast
  show ?thesis
  proof (cases "entry_matches rq sz p")
    case True
    then have "busy K (Search True rq sz) dev (Hold x) w 1"
      using h f p Cons by (intro busy.search_hold [where as = "as @ bs"]) (auto simp: find_response_def entry_matches_def)
    then show ?thesis using True p Cons by (elim goes_onI [rotated]) auto
  next
    case False
    then have "find_pair (pair_list dev) rq sz = find_pair (pairs_at (w_mem w) bs') rq sz"
      using f p Cons by (simp only: pairs_at_simps find_pair.simps entry_matches_def option.sel if_False)
    then have "busy K (Search True rq sz) dev (At (nxt (w_mem w) x)) w (length bs' + 2)"
      using h p Cons by (intro busy.search_at [where as = "as @ [x]"]) auto
    then show ?thesis using False p Cons by (elim goes_onI [rotated]) auto
  qed
qed

lemma search_hold_step:
  assumes h: "holds w as {} dev" and x: "x \<in> set as" and f: "find_response dev rq sz = node (w_mem w) x"
  shows "goes_on K fresh (Search True rq sz) dev (Hold x) w 1"
proof -
  obtain p where p: "node (w_mem w) x = Some p" using h x by (auto simp: holds_def)
  then have "busy K (Search True rq sz) dev (Unlock (Response (Some (resp_bytes p)))) w 0"
    using h f by (intro busy.leave [where as = as]) simp_all
  then show ?thesis using p by (elim goes_onI [rotated]) (auto simp: leave_def)
qed

lemma delete_at_step:
  assumes h: "holds w (as @ bs) {} dev"
    and f: "get_pair_at_index (pair_list dev) (size_of_long k) = get_pair_at_index (pairs_at (w_mem w) bs) (size_of_long k)"
  shows "goes_on K fresh (Delete k) dev (At (hd (bs @ [0]))) w (length bs + 3)"
proof (cases bs)
  case Nil
  then have "busy K (Delete k) dev (Unlock (Returned (- ENOENT))) w 0"
    using h f by (intro busy.leave [where as = as]) (simp_all add: hwe_delete_pair_locked_def)
  then show ?thesis using Nil by (elim goes_onI [rotated]) auto
next
  case (Cons x bs')
  obtain p where p: "node (w_mem w) x = Some p" "x \<noteq> 0" "nxt (w_mem w) x = hd (bs' @ [0])"
    using holds_entry [OF h [unfolded Cons]] by blast
  show ?thesis
  proof (cases "size_of_long k = index p")
    case True
    then have "busy K (Delete k) dev (Hold x) w 2"
      using h f p Cons by (intro busy.delete_hold [where as = as and bs = bs' and p = p]) auto
    then show ?thesis using True p Cons by (elim goes_onI [rotated]) auto
  next
    case False
    then have "busy K (Delete k) dev (At (nxt (w_mem w) x)) w (length bs' + 3)"
      using h f p Cons by (intro busy.delete_at [where as = "as @ [x]"]) auto
    then show ?thesis using False p Cons by (elim goes_onI [rotated]) auto
  qed
qed

lemma delete_hold_step:
  assumes h: "holds w (as @ x # bs) {} dev" and p: "node (w_mem w) x = Some p" and inv: "dev_inv dev"
    and f: "get_pair_at_index (pair_list dev) (size_of_long k) = Some p"
  shows "goes_on K fresh (Delete k) dev (Hold x) w 2"
proof -
  have "x \<notin> set (as @ bs)" using holds_entry [OF h] by auto
  then have "busy K (Delete k) dev (Gone x) (unlink_pair p x w) 1"
    using holds_unlink [OF h p inv] f by (intro busy.delete_gone) (auto simp: hwe_delete_pair_locked_def)
  then show ?thesis using p by (elim goes_onI [rotated]) auto
qed

lemma wipe_step:
  assumes h: "holds w as {} dev'" and inv: "dev_inv dev'" and eq: "clear_pairs dev' = clear_pairs dev"
  shows "goes_on K fresh Clear dev (Wipe (hd (as @ [0])) (hd (tl as @ [0]))) w (2 * length as + 1)"
proof (cases as)
  case Nil
  then have "clear_pairs dev' = dev'" using holds_pairs [OF h] by (simp add: clear_pairs_def)
  then have "busy K Clear dev (Unlock (Returned 0)) w 0"
    using h eq by (intro busy.leave [where as = as and dev' = dev']) simp_all
  then show ?thesis using Nil by (elim goes_onI [rotated]) auto
next
  case (Cons x as')
  have h': "holds w ([] @ x # as') {} dev'" using h Cons by simp
  obtain p where p: "node (w_mem w) x = Some p" "x \<noteq> 0" "x \<notin> set as'" by (rule holds_entry [OF h']) blast
  have l: "pair_list dev' = p # pairs_at (w_mem w) as'" using holds_pairs [OF h'] p by simp
  then have "clear_pairs (pair_delete dev' p) = clear_pairs dev"
    using eq by (simp add: clear_pairs_def pair_delete_def)
  moreover have "dev_inv (pair_delete dev' p)" using dev_inv_delete [OF inv] l by simp
  ultimately have "busy K Clear dev (Wiped x (hd (as' @ [0]))) (unlink_pair p x w) (2 * length as' + 2)"
    using holds_unlink [OF h' p(1) inv] p(3) by (intro busy.wiped [where dev' = "pair_delete dev' p"]) auto
  then show ?thesis using p Cons by (elim goes_onI [rotated]) auto
qed

lemma wiped_step:
  assumes h: "holds w as {x} dev'" and x: "x \<notin> set as" and inv: "dev_inv dev'" and eq: "clear_pairs dev' = clear_pairs dev"
  shows "goes_on K fresh Clear dev (Wiped x (hd (as @ [0]))) w (2 * length as + 2)"
proof -
  have f: "holds (free_pair x w) as {} dev'" using holds_free [OF h x] .
  have n: "nxt (w_mem w) (hd (as @ [0])) = hd (tl as @ [0])" 
    "hd (as @ [0]) = 0 \<or> node (w_mem (free_pair x w)) (hd (as @ [0])) \<noteq> None"
  proof -
    show "nxt (w_mem w) (hd (as @ [0])) = hd (tl as @ [0])"
      using holds_first [OF f] on_list_at [of "w_mem (free_pair x w)" "[]"] f
      by (cases as) (auto simp: holds_def)
    show "hd (as @ [0]) = 0 \<or> node (w_mem (free_pair x w)) (hd (as @ [0])) \<noteq> None"
      using f by (cases as) (auto simp: holds_def)
  qed
  have "busy K Clear dev (Wipe (hd (as @ [0])) (hd (tl as @ [0]))) (free_pair x w) (2 * length as + 1)"
    using f inv eq by (intro busy.wipe [where dev' = dev']) auto
  then show ?thesis using n by (elim goes_onI [rotated]) (auto simp: Let_def)
qed

lemma stamp_step:
  assumes h: "holds w (as @ bs) {} (dev\<lparr>pair_list := map (tick_pair jiff) ps @ qs\<rparr>)" and l: "pair_list dev = ps @ qs"
    and len: "length ps = length as"
  shows "goes_on K fresh (Tick jiff) dev (Stamp (hd (bs @ [0])) (map (stamped jiff) (filter (fires jiff) ps))) w (length bs + 1)"
proof -
  have pl: "map (tick_pair jiff) ps = pairs_at (w_mem w) as" "qs = pairs_at (w_mem w) bs"
    using holds_pairs [OF h] len by (simp_all add: pairs_at_def)
  show ?thesis
  proof (cases bs)
    case Nil
    then have "busy K (Tick jiff) dev (Unlock (Packets (Some (map (stamped jiff) (filter (fires jiff) ps))))) w 0"
      using h l pl by (intro busy.leave [where as = as]) (simp_all add: tick_dev_def)
    then show ?thesis using Nil by (elim goes_onI [rotated]) auto
  next
    case (Cons x bs')
    have h': "holds w (as @ x # bs') {} (dev\<lparr>pair_list := map (tick_pair jiff) ps @ qs\<rparr>)" using h Cons by simp
    obtain p where p: "node (w_mem w) x = Some p" "x \<noteq> 0" "nxt (w_mem w) x = hd (bs' @ [0])"
      by (rule holds_entry [OF h']) blast
    define qs' where "qs' = pairs_at (w_mem w) bs'"
    have qs: "qs = p # qs'" using pl Cons p by (simp add: qs'_def)
    let ?w = "if fires jiff p then store_pair x (stamped jiff p) w else w"
    have "holds ?w ((as @ [x]) @ bs') {} (dev\<lparr>pair_list := map (tick_pair jiff) (ps @ [p]) @ qs'\<rparr>)"
      using h' holds_stamp [OF h', of "stamped jiff p"] pl(1) qs by (simp add: tick_pair_def qs'_def)
    then have "busy K (Tick jiff) dev (Stamp (nxt (w_mem w) x) (map (stamped jiff) (filter (fires jiff) (ps @ [p])))) ?w (length bs' + 1)"
      using l qs len p by (intro busy.stamp [where as = "as @ [x]" and ps = "ps @ [p]" and qs = qs']) auto
    then show ?thesis using p Cons by (elim goes_onI [rotated]) (auto split: if_splits)
  qed
qed

lemma holds_new:
  assumes "holds w as {a} dev" "node (w_mem w) a = Some p" "a \<notin> set as"
  shows "pair_list dev = pairs_at (w_mem w) as" "pairs_indexes (w_dev w) = pairs_indexes dev"
    "pairs_dir (w_dev w) = pairs_dir dev"
  using assms by (auto simp: holds_def)

lemma parse_step:
  assumes h: "holds w as {a} dev" "a \<notin> set as" and E: "kmalloc_ok E" and n: "node (w_mem w) a = Some (raw_pair E)"
  shows "goes_on K fresh (Add E buf cnt) dev (Parse a) w (length as + 5)"
proof (cases "str_to_pair K buf cnt (raw_pair E)")
  case (Inl err)
  then have "busy K (Add E buf cnt) dev (Discard a (Returned (- EINVAL))) w 1"
    using h E by (intro busy.discard [where as = as]) (simp_all add: dev_add_store_locked_def)
  then show ?thesis using Inl n by (elim goes_onI [rotated]) auto
next
  case (Inr p)
  then have "busy K (Add E buf cnt) dev (Number a) (store_pair a p w) (length as + 4)"
    using holds_store [OF h] h E by (intro busy.number) simp_all
  then show ?thesis using Inr n by (elim goes_onI [rotated]) auto
qed

lemma number_step:
  assumes h: "holds w as {a} dev" "a \<notin> set as" and E: "kmalloc_ok E" and n: "node (w_mem w) a = Some p"
    and p: "str_to_pair K buf cnt (raw_pair E) = Inr p"
  shows "goes_on K fresh (Add E buf cnt) dev (Number a) w (length as + 4)"
proof (cases "find_first_zero_bit (pairs_indexes dev) HWE_MAX_PAIRS = HWE_MAX_PAIRS")
  case True
  then have "busy K (Add E buf cnt) dev (Discard a (Returned (- EINVAL))) w 1"
    using h E p by (intro busy.discard [where as = as]) (simp_all add: dev_add_store_locked_def)
  then show ?thesis using True holds_new [OF h(1) n h(2)] by (elim goes_onI [rotated]) auto
next
  case False
  then have "busy K (Add E buf cnt) dev
      (Check a (find_first_zero_bit (pairs_indexes dev) HWE_MAX_PAIRS) (nxt (w_mem w) 0)) w (length as + 3)"
    using h E n p holds_first [OF h(1)] holds_new [OF h(1) n h(2)]
    by (intro busy.check [where as = "[]" and p = p]) simp_all
  then show ?thesis using False holds_new [OF h(1) n h(2)] by (elim goes_onI [rotated]) (auto simp: Let_def)
qed

lemma check_step:
  assumes h: "holds w (as @ bs) {a} dev" "a \<notin> set (as @ bs)" and E: "kmalloc_ok E" and n: "node (w_mem w) a = Some p"
    and p: "str_to_pair K buf cnt (raw_pair E) = Inr p"
    and idx: "idx = find_first_zero_bit (pairs_indexes dev) HWE_MAX_PAIRS" "idx \<noteq> HWE_MAX_PAIRS"
    and f: "find_pair (pair_list dev) (req p) (req_size p) = find_pair (pairs_at (w_mem w) bs) (req p) (req_size p)"
  shows "goes_on K fresh (Add E buf cnt) dev (Check a idx (hd (bs @ [0]))) w (length bs + 3)"
proof (cases bs)
  case Nil
  then have "busy K (Add E buf cnt) dev (Create a idx) w 2"
    using h E n p idx f by (intro busy.create [where as = as]) simp_all
  then show ?thesis using Nil n by (elim goes_onI [rotated]) auto
next
  case (Cons x bs')
  obtain q where q: "node (w_mem w) x = Some q" "x \<noteq> 0" "nxt (w_mem w) x = hd (bs' @ [0])"
    using holds_entry [OF h(1) [unfolded Cons]] by blast
  show ?thesis
  proof (cases "entry_matches (req p) (req_size p) q")
    case True
    then have "find_pair (pair_list dev) (req p) (req_size p) = Some q"
      using f q Cons by (simp add: entry_matches_def)
    then have "busy K (Add E buf cnt) dev (Discard a (Returned (- EINVAL))) w 1"
      using h E p idx by (intro busy.discard [where as = "as @ bs"]) (simp_all add: dev_add_store_locked_def Let_def)
    then show ?thesis using True q n Cons by (elim goes_onI [rotated]) auto
  next
    case False
    then have "find_pair (pair_list dev) (req p) (req_size p) = find_pair (pairs_at (w_mem w) bs') (req p) (req_size p)"
      using f q Cons by (simp only: pairs_at_simps find_pair.simps entry_matches_def option.sel if_False)
    then have "busy K (Add E buf cnt) dev (Check a idx (nxt (w_mem w) x)) w (length bs' + 3)"
      using h E n p idx q Cons by (intro busy.check [where as = "as @ [x]" and p = p]) auto
    then show ?thesis using False q n Cons by (elim goes_onI [rotated]) auto
  qed
qed

lemma create_step:
  assumes h: "holds w as {a} dev" "a \<notin> set as" and E: "kmalloc_ok E" and n: "node (w_mem w) a = Some p"
    and p: "str_to_pair K buf cnt (raw_pair E) = Inr p"
    and idx: "idx = find_first_zero_bit (pairs_indexes dev) HWE_MAX_PAIRS" "idx \<noteq> HWE_MAX_PAIRS"
    and f: "find_pair (pair_list dev) (req p) (req_size p) = None" and ok: "create_file_err E \<le> 0"
  shows "goes_on K fresh (Add E buf cnt) dev (Create a idx) w 2"
proof (cases "create_file_err E = 0")
  case True
  let ?q = "numbered p idx"
  have add: "dev_add_store_locked K E dev buf cnt = (int cnt, add_new_pair dev ?q)"
    using True E p idx f by (simp add: dev_add_store_locked_def Let_def)
  have "holds (store_pair a ?q w) as {a} dev" using holds_store [OF h] .
  then have "holds ((store_pair a ?q w)\<lparr>w_dev := (w_dev w)\<lparr>pairs_dir := pairs_dir (w_dev w) @ [filename ?q]\<rparr>\<rparr>) as {a}
      (dev\<lparr>pairs_dir := pairs_dir dev @ [filename ?q]\<rparr>)"
    unfolding holds_def by (clarsimp simp: store_pair_def)
  then have "busy K (Add E buf cnt) dev (Link a idx)
      ((store_pair a ?q w)\<lparr>w_dev := (w_dev w)\<lparr>pairs_dir := pairs_dir (w_dev w) @ [filename ?q]\<rparr>\<rparr>) 1"
    using h add by (intro busy.link [where q = ?q]) (auto simp: store_pair_def)
  then show ?thesis using True n by (elim goes_onI [rotated]) (auto simp: Let_def store_pair_def)
next
  case False
  have "dev_add_store_locked K E dev buf cnt = (create_file_err E, dev)"
    using False E p idx f by (simp add: dev_add_store_locked_def Let_def)
  then have "busy K (Add E buf cnt) dev (Discard a (Returned (create_file_err E))) (store_pair a (numbered p idx) w) 1"
    using holds_store [OF h] h by (intro busy.discard) auto
  then show ?thesis using False n ok by (elim goes_onI [rotated]) (auto simp: Let_def)
qed

lemma show_at_step:
  assumes h: "holds w (as @ bs) {} dev"
    and f: "find (\<lambda>p. int (index p) = k) (pair_list dev) = find (\<lambda>p. int (index p) = k) (pairs_at (w_mem w) bs)"
  shows "goes_on K fresh (Show k) dev (At (hd (bs @ [0]))) w (length bs + 3)"
proof (cases bs)
  case Nil
  then have "busy K (Show k) dev (Unlock (Text [])) w 0"
    using h f by (intro busy.leave [where as = as]) (simp_all add: pair_show_locked_def)
  then show ?thesis using Nil by (elim goes_onI [rotated]) auto
next
  case (Cons x bs')
  obtain p where p: "node (w_mem w) x = Some p" "x \<noteq> 0" "nxt (w_mem w) x = hd (bs' @ [0])"
    using holds_entry [OF h [unfolded Cons]] by blast
  show ?thesis
  proof (cases "int (index p) = k")
    case True
    then have "busy K (Show k) dev (Hold x) w 2"
      using h f p Cons by (intro busy.show_hold [where as = "as @ bs"]) auto
    then show ?thesis using True p Cons by (elim goes_onI [rotated]) auto
  next
    case False
    then have "busy K (Show k) dev (At (nxt (w_mem w) x)) w (length bs' + 3)"
      using h f p Cons by (intro busy.show_at [where as = "as @ [x]"]) auto
    then show ?thesis using False p Cons by (elim goes_onI [rotated]) auto
  qed
qed

lemma show_hold_step:
  assumes h: "holds w as {} dev" and x: "x \<in> set as"
    and f: "find (\<lambda>p. int (index p) = k) (pair_list dev) = node (w_mem w) x"
  shows "goes_on K fresh (Show k) dev (Hold x) w 2"
proof -
  obtain p where p: "node (w_mem w) x = Some p" using h x by (auto simp: holds_def)
  then have "pair_show_locked dev k = pair_to_str p" using f by (simp add: pair_show_locked_def)
  then have "busy K (Show k) dev Copy (w\<lparr>w_buf := pair_to_str p\<rparr>) 1" "busy K (Show k) dev (Unlock (Text (pair_to_str p))) w 0"
    using h by (intro busy.show_copy busy.leave [where as = as and dev' = dev]; simp)+
  then show ?thesis
    using p by (cases "in_static_buf p") (elim goes_onI [rotated]; auto)+
qed

lemma busy_step:
  assumes "busy K c dev pc w n" "dev_inv dev" "call_ok c" "\<forall>r. pc \<noteq> Unlock r" "fresh_ok fresh"
  shows "goes_on K fresh c dev pc w n"
  using assms
proof (cases rule: busy.cases)
  case (delete_gone as x dev' k)
  then have "busy K (Delete k) dev (Unlock (Returned 0)) (free_pair x w) 0"
    by (intro busy.leave [where dev' = dev'] holds_free) auto
  then show ?thesis unfolding delete_gone(1-3) by (elim goes_onI [rotated]) auto
next
  case (alloc as E buf cnt)
  show ?thesis
  proof (cases "kmalloc_ok E")
    case True
    then have "busy K c dev (Parse (fresh (node (w_mem w)))) (store_pair (fresh (node (w_mem w))) (raw_pair E) w) (length as + 5)"
      using alloc holds_alloc [OF alloc(4) assms(5)] by (auto intro!: busy.parse)
    then show ?thesis using True unfolding alloc(1-3) by (elim goes_onI [rotated]) (auto simp: Let_def)
  next
    case False
    then have "busy K c dev (Unlock (Returned (- EINVAL))) w 0"
      using alloc by (auto intro!: busy.leave simp: dev_add_store_locked_def)
    then show ?thesis using False unfolding alloc(1-3) by (elim goes_onI [rotated]) auto
  qed
next
  case (link as a q idx E buf cnt)
  have "busy K c dev (Unlock (Returned (int cnt)))
     (w\<lparr>w_dev := (w_dev w)\<lparr>pairs_indexes := bm_set_bit idx (pairs_indexes (w_dev w))\<rparr>,
        w_mem := list_add_tail a 0 (w_mem w)\<rparr>) 0"
    using link holds_link [of w as a dev q] by (intro busy.leave [where as = "as @ [a]" and dev' = "add_new_pair dev q"]) auto
  then show ?thesis unfolding link(1-3) by (elim goes_onI [rotated]) auto
next
  case (show_copy as k)
  then have "busy K c dev (Unlock (Text (w_buf w))) w 0"
    by (intro busy.leave [where dev' = dev]) auto
  then show ?thesis unfolding show_copy(1-3) by (elim goes_onI [rotated]) auto
next
  case (discard as a E buf cnt r)
  then have "busy K c dev (Unlock r) (free_pair a w) 0"
    by (intro busy.leave [where dev' = dev] holds_free) auto
  then show ?thesis unfolding discard(1-3) by (elim goes_onI [rotated]) auto
qed (simp_all only: search_at_step search_hold_step delete_at_step delete_hold_step wipe_step wiped_step stamp_step
    parse_step number_step check_step create_step show_at_step show_hold_step call_ok.simps pc.inject simp_thms)

text \<open>A thread enters its critical section when the semaphore is free, and leaves it with the
  result and the device of the handler run in one go.\<close>

lemma begin_step:
  assumes "represents w dev" "dev_inv dev" "call_ok c"
  shows "\<exists>pc w' n. thread_step K fresh c Begin w = Done (pc, w') \<and> w_sem w' = 0 \<and> busy K c dev pc w' n"
proof -
  obtain as where as: "holds w as {} dev" and s: "w_sem w = 1" using assms(1) by (auto simp: represents_def)
  have d: "down w = Some (w\<lparr>w_sem := 0\<rparr>)" using s by (simp add: down_def)
  have h: "holds (w\<lparr>w_sem := 0\<rparr>) as {} dev" using as by simp
  note l = holds_pairs [OF h]
  have n: "nxt (w_mem w) 0 = hd (as @ [0])" using holds_first [OF as] .
  show ?thesis
  proof (cases c)
    case (Search lk rq sz)
    have "busy K (Search True rq sz) dev (At (hd (as @ [0]))) (w\<lparr>w_sem := 0\<rparr>) (length as + 2)"
      using h l by (intro busy.search_at [where as = "[]"]) simp_all
    then show ?thesis using Search assms(3) d n by auto
  next
    case (Add E buf cnt)
    then show ?thesis using busy.alloc [OF h, of K E buf cnt] d by auto
  next
    case (Delete k)
    have "busy K (Delete k) dev (At (hd (as @ [0]))) (w\<lparr>w_sem := 0\<rparr>) (length as + 3)"
      using h l by (intro busy.delete_at [where as = "[]"]) simp_all
    then show ?thesis using Delete d n by auto
  next
    case Clear
    have "nxt (w_mem w) (hd (as @ [0])) = hd (tl as @ [0])"
      using n on_list_at [of "w_mem w" "[]"] as by (cases as) (auto simp: holds_def)
    then have "busy K Clear dev (Wipe (hd (as @ [0])) (nxt (w_mem w) (hd (as @ [0])))) (w\<lparr>w_sem := 0\<rparr>) (2 * length as + 1)"
      using h assms(2) by (intro busy.wipe) auto
    then show ?thesis using Clear d n by auto
  next
    case (Tick jiff)
    have "busy K (Tick jiff) dev (Stamp (hd (as @ [0])) (map (stamped jiff) (filter (fires jiff) [])))
        (w\<lparr>w_sem := 0\<rparr>) (length as + 1)"
      using h by (intro busy.stamp [where as = "[]" and ps = "[]" and qs = "pair_list dev"]) simp_all
    then show ?thesis using Tick d n by auto
  next
    case (Show k)
    have "busy K (Show k) dev (At (hd (as @ [0]))) (w\<lparr>w_sem := 0\<rparr>) (length as + 3)"
      using h l by (intro busy.show_at [where as = "[]"]) simp_all
    then show ?thesis using Show d n by auto
  qed
qed

lemma unlock_step:
  assumes "busy K c dev (Unlock r) w n" "w_sem w = 0"
  shows "\<exists>dev'. atomic K c dev = (r, dev') \<and> thread_step K fresh c (Unlock r) w = Done (End r, up w) \<and> represents (up w) dev'"
  using assms by (cases rule: busy.cases) (auto simp: represents_def up_def)

lemma atomic_inv: "dev_inv dev \<Longrightarrow> call_ok c \<Longrightarrow> dev_inv (snd (atomic K c dev))"
proof (cases c)
  case (Add E buf cnt)
  then show "dev_inv dev \<Longrightarrow> call_ok c \<Longrightarrow> ?thesis"
    using dev_add_store_inv [of dev E K buf cnt] by (simp add: prod.case_eq_if)
next
  case (Delete k)
  then show "dev_inv dev \<Longrightarrow> ?thesis" using hwe_delete_pair_inv [of dev k] by (simp add: prod.case_eq_if)
qed (simp_all add: dev_inv_clear tick_dev_inv)

section \<open>All threads\<close>

definition lost :: "call \<Rightarrow> pc \<Rightarrow> bool" where
  "lost c pc \<longleftrightarrow> (\<exists>jiff. c = Tick jiff) \<and> pc = End (Packets None)"

lemma begin_waits:
  "w_sem w = 0 \<Longrightarrow> call_ok c \<Longrightarrow>
     thread_step K fresh c Begin w = Blocked \<or> (\<exists>pc. thread_step K fresh c Begin w = Done (pc, w) \<and> lost c pc)"
  by (cases c) (auto simp: down_def lost_def)

lemma busy_not_idle: "busy K c dev pc w n \<Longrightarrow> pc \<noteq> Begin \<and> pc \<noteq> End r"
  by (cases rule: busy.cases) auto

text \<open>The handlers keep the contract of a lock.\<close>

definition handlers_inv ::
  "((nat \<Rightarrow> hwe_pair option) \<Rightarrow> nat) \<Rightarrow> call list \<Rightarrow> 'd hwe_dev \<Rightarrow> bool" where
  "handlers_inv fresh calls dev \<longleftrightarrow> dev_inv dev \<and> (\<forall>c \<in> set calls. call_ok c) \<and> fresh_ok fresh"

definition handler_inside ::
  "klib \<Rightarrow> call list \<Rightarrow> nat \<Rightarrow> 'd hwe_dev \<Rightarrow> pc \<Rightarrow> 'd world \<Rightarrow> nat \<Rightarrow> bool" where
  "handler_inside K calls t dev pc w n \<longleftrightarrow> busy K (calls ! t) dev pc w n \<and> w_sem w = 0"

lemma handler_works:
  assumes "busy K c dev pc w n" "w_sem w = 0" "dev_inv dev" "call_ok c" "fresh_ok fresh"
  shows "(\<exists>pc' w' n'. thread_step K fresh c pc w = Done (pc', w') \<and> (busy K c dev pc' w' n' \<and> w_sem w' = 0) \<and> n' < n) \<or>
    (\<exists>r w' dev'. thread_step K fresh c pc w = Done (End r, w') \<and> atomic K c dev = (r, dev') \<and> represents w' dev')"
proof (cases "\<exists>r. pc = Unlock r")
  case True
  then show ?thesis using unlock_step [of K c dev _ w n fresh] assms(1,2) by blast
next
  case False
  then show ?thesis using busy_step [OF assms(1,3,4) _ assms(5)] assms(2) by (auto simp: goes_on_def)
qed

interpretation handlers: critical_sections "\<lambda>t. thread_step K fresh (calls ! t)" "length calls"
  "\<lambda>t. atomic K (calls ! t)" Begin End "\<lambda>t. lost (calls ! t)" represents "handler_inside K calls" "handlers_inv fresh calls"
  for K fresh calls
proof (unfold_locales; (unfold handler_inside_def handlers_inv_def)?)
  fix t and dev :: "'a hwe_dev" and w pc n u
  assume t: "t < length calls" and inv: "dev_inv dev \<and> (\<forall>c \<in> set calls. call_ok c) \<and> fresh_ok fresh"
  then have ok: "call_ok (calls ! t)" by simp
  show "\<exists>pc w' n. thread_step K fresh (calls ! t) Begin w = Done (pc, w') \<and> busy K (calls ! t) dev pc w' n \<and> w_sem w' = 0"
    if "represents w dev"
    using begin_step [OF that _ ok, of K fresh] inv by blast
  show "(\<exists>pc' w' n'. thread_step K fresh (calls ! t) pc w = Done (pc', w') \<and>
        (busy K (calls ! t) dev pc' w' n' \<and> w_sem w' = 0) \<and> n' < n) \<or>
      (\<exists>r w' dev'. thread_step K fresh (calls ! t) pc w = Done (End r, w') \<and> atomic K (calls ! t) dev = (r, dev') \<and> represents w' dev')"
    if "busy K (calls ! t) dev pc w n \<and> w_sem w = 0"
    using that inv by (intro handler_works [OF _ _ _ ok]) simp_all
  show "thread_step K fresh (calls ! t) Begin w = Blocked \<or>
      (\<exists>pc. thread_step K fresh (calls ! t) Begin w = Done (pc, w) \<and> lost (calls ! t) pc)"
    if "busy K (calls ! u) dev pc w n \<and> w_sem w = 0"
    using that begin_waits [OF _ ok] by blast
  show "dev_inv (snd (atomic K (calls ! t) dev)) \<and> (\<forall>c \<in> set calls. call_ok c) \<and> fresh_ok fresh"
    using atomic_inv [OF _ ok, of dev K] inv by simp
qed (auto simp: lost_def dest: busy_not_idle)

definition ended :: "pc \<Rightarrow> bool" where
  "ended pc \<longleftrightarrow> (\<exists>r. pc = End r)"

section \<open>Properties\<close>

text \<open>
  \<open>explains order\<close>: running the handlers of \<open>order\<close> whole, in this order, gives exactly the results of
  the threads that have ended (but for ticks that gave up), and once no thread is inside a
  handler the memory is that of the device this makes, with nothing else allocated.
\<close>

definition explains ::
  "klib \<Rightarrow> call list \<Rightarrow> 'd hwe_dev \<Rightarrow> nat list \<Rightarrow> pc list \<Rightarrow> 'd world \<Rightarrow> bool" where
  "explains K calls dev order pcs w \<longleftrightarrow>
     (\<exists>rs dev'. in_order K calls order dev = (rs, dev') \<and> distinct order \<and> dev_inv dev' \<and>
        (\<forall>(t, r) \<in> set rs. t < length calls \<and> pcs ! t = End r) \<and>
        (\<forall>t < length calls. \<forall>r. pcs ! t = End r \<longrightarrow> (t, r) \<in> set rs \<or> lost (calls ! t) (End r)) \<and>
        ((\<forall>t < length calls. pcs ! t = Begin \<or> ended (pcs ! t)) \<longrightarrow> represents w dev'))"

lemma explains_handlers: "handlers.explained calls K fresh dev order pcs w \<Longrightarrow> explains K calls dev order pcs w"
  unfolding handlers.explained_def explains_def in_order_def ended_def handlers.ended_def handlers_inv_def by blast

text \<open>The first pair of a device that nobody is using.\<close>

lemma first_pair:
  assumes "represents w dev" "dev_inv dev" "pair_list dev = p # ps"
  obtains x where "nxt (w_mem w) 0 = x" "x \<noteq> 0" "node (w_mem w) x = Some p" "w_sem w = 1"
    "in_static_buf p" "size_of_long (int (index p)) = index p" "filename p \<in> set (pairs_dir (w_dev w))"
proof -
  obtain as where as: "holds w as {} dev" and sem: "w_sem w = 1" using assms(1) by (auto simp: represents_def)
  obtain x bs where x: "as = x # bs" using holds_pairs [OF as] assms(3) by (cases as) auto
  have h: "holds w ([] @ x # bs) {} dev" using as x by simp
  obtain q where q: "node (w_mem w) x = Some q" "x \<noteq> 0" by (rule holds_entry [OF h]) blast
  then have p: "node (w_mem w) x = Some p" using holds_pairs [OF h] assms(3) by simp
  have "index p < HWE_MAX_PAIRS" "wf_pair p"
    using dev_inv_index_less [OF assms(2)] dev_inv_wf [OF assms(2)] assms(3) by simp_all
  then have "size_of_long (int (index p)) = index p" "in_static_buf p"
    by (auto simp: size_of_long_def hwe_consts in_static_buf_def wf_pair_def)
  moreover have "pairs_dir (w_dev w) = pairs_dir dev" using as by (auto simp: holds_def)
  then have "filename p \<in> set (pairs_dir (w_dev w))" using assms(2,3) by (simp add: dev_inv_def)
  ultimately show ?thesis using that [of x] holds_first [OF as] x p q(2) sem by simp
qed

text \<open>A device with one pair, at address 1, and some calls on it.\<close>

definition one_pair_dev :: "hwe_pair \<Rightarrow> unit hwe_dev" where
  "one_pair_dev p = add_new_pair (made_dev HWE_TTY 0 ()) (numbered p 0)"

definition one_pair_world :: "hwe_pair \<Rightarrow> unit world" where
  "one_pair_world p = \<lparr>w_dev = one_pair_dev p,
     w_mem = \<lparr>nxt = (\<lambda>a. if a = 0 then 1 else 0), prv = (\<lambda>a. if a = 0 then 1 else 0), node = [1 \<mapsto> numbered p 0]\<rparr>,
     w_sem = 1, w_buf = []\<rparr>"

definition sample_world :: "unit world" where
  "sample_world = one_pair_world sample_pair"

definition sample_calls :: "call list" where
  "sample_calls = [Add sample_env ''02=03'' 5, Search True [1, 0xAB] 2, Delete 0, Tick 5, Clear, Show 0]"

definition max_fresh :: "(nat \<Rightarrow> hwe_pair option) \<Rightarrow> nat" where
  "max_fresh h = Suc (Max (insert LIST_POISON2 (dom h)))"

lemma one_pair_dev_pairs: "pair_list (one_pair_dev p) = [numbered p 0]"
  by (simp add: one_pair_dev_def add_new_pair_def made_dev_def fresh_dev_def)

lemma one_pair_dev_inv: "wf_pair p \<Longrightarrow> dev_inv (one_pair_dev p)"
  using one_pair_dev_ok(1) [of p HWE_TTY "()"]
  by (simp add: one_pair_dev_def dev_ok_def view_def replies_def timers_def made_dev_def fresh_dev_def)

lemma one_pair_world_represents: "represents (one_pair_world p) (one_pair_dev p)"
proof -
  have "holds (one_pair_world p) [1] {} (one_pair_dev p)"
    using one_pair_dev_pairs [of p]
    by (auto simp: holds_def one_pair_world_def on_list_def LIST_POISON1_def pairs_at_def split: if_splits)
  then show ?thesis unfolding represents_def by (auto simp: one_pair_world_def)
qed

lemma sample_world_ok: "represents sample_world sample_dev" "dev_inv sample_dev"
  using one_pair_world_represents [of sample_pair] one_pair_dev_inv [OF sample_pair_wf(1)]
  by (simp_all add: sample_world_def sample_dev_def one_pair_dev_def)

lemma sample_calls_ok: "\<forall>c \<in> set sample_calls. call_ok c"
  by (simp add: sample_calls_def sample_env_ok)

lemma max_fresh_ok: "fresh_ok max_fresh"
  unfolding fresh_ok_def
proof (intro allI impI)
  fix h :: "nat \<Rightarrow> hwe_pair option"
  assume "finite (dom h)"
  then have less: "a < max_fresh h" if "a \<in> insert LIST_POISON2 (dom h)" for a
    using that by (simp only: max_fresh_def less_Suc_eq_le Max_ge finite_insert)
  show "max_fresh h \<notin> dom h \<and> max_fresh h \<notin> {0, LIST_POISON1, LIST_POISON2}"
    using less [of "max_fresh h"] less [of LIST_POISON2] unfolding LIST_POISON1_def LIST_POISON2_def by auto
qed

lemmas sample_threads = sample_world_ok sample_calls_ok max_fresh_ok

text \<open>C3: the interface lock makes the handlers atomic. Take any calls of locked searches (terminals,
  I2C), \<open>dev_add_store\<close>, \<open>hwe_delete_pair\<close>, \<open>hwe_clear_pairs\<close>, \<open>pair_show\<close> and visits of the timer
  on one device, and any interleaving of their steps on the linked list in memory. No step reads
  freed memory, and the answers and the device that result are those of running the handlers of
  the other theories whole, one after the other, in some order; a call that has ended before
  another begins comes before it. When no call is running the memory holds exactly the pairs of
  that device: nothing is leaked.\<close>

theorem handlers_are_atomic:
  assumes "represents w dev" "dev_inv dev" "\<forall>c \<in> set calls. call_ok c" "fresh_ok fresh"
  shows "\<exists>pcs1 w1 pcs2 w2 order1 order2.
    schedule K fresh calls s1 (replicate (length calls) Begin, w) = Done (pcs1, w1) \<and>
    schedule K fresh calls s2 (pcs1, w1) = Done (pcs2, w2) \<and>
    explains K calls dev order1 pcs1 w1 \<and> explains K calls dev (order1 @ order2) pcs2 w2"
  using handlers.schedule_explained [of w dev fresh calls K s1 s2] explains_handlers assms
  unfolding schedule_def handlers_inv_def by blast

theorem handlers_are_atomic_witness:
  "\<exists>pcs1 w1 pcs2 w2 order1 order2.
    schedule sample_klib max_fresh sample_calls [0, 1, 0, 2, 0, 3, 0] (replicate (length sample_calls) Begin, sample_world)
      = Done (pcs1, w1) \<and>
    schedule sample_klib max_fresh sample_calls [0, 0, 0, 4, 2, 1, 4, 2, 1] (pcs1, w1) = Done (pcs2, w2) \<and>
    explains sample_klib sample_calls sample_dev order1 pcs1 w1 \<and>
    explains sample_klib sample_calls sample_dev (order1 @ order2) pcs2 w2"
  by (rule handlers_are_atomic [OF sample_threads])



text \<open>C13: without the lock, a search can read a freed pair. \<open>hwespi_transfer_one\<close> and \<open>hwenet_xmit\<close> call
  \<open>find_response\<close> without \<open>lock_iface_devs\<close>; on any device that has a pair there is an
  interleaving with \<open>hwe_delete_pair\<close> in which the search follows a pointer to memory that
  \<open>kfree\<close> has released.\<close>

theorem unlocked_search_can_crash:
  assumes "represents w dev" "dev_inv dev" "pair_list dev = p # ps"
  shows "\<exists>s. schedule K fresh [Search False rq sz, Delete (int (index p))] s ([Begin, Begin], w) = Oops"
proof -
  obtain x where x: "nxt (w_mem w) 0 = x" "x \<noteq> 0" "node (w_mem w) x = Some p" "w_sem w = 1"
    "size_of_long (int (index p)) = index p" by (rule first_pair [OF assms])
  have "schedule K fresh [Search False rq sz, Delete (int (index p))] [0, 1, 1, 1, 1, 0] ([Begin, Begin], w) = Oops"
    using x by (simp add: schedule_def down_def unlink_pair_def free_pair_def)
  then show ?thesis by blast
qed

theorem unlocked_search_can_crash_witness:
  "\<exists>s. schedule sample_klib max_fresh [Search False [1, 0xAB] 2, Delete (int (index (numbered sample_pair 0)))] s
     ([Begin, Begin], sample_world) = Oops"
  by (rule unlocked_search_can_crash [OF sample_world_ok sample_dev_pairs])

end
