(* ===== verification/Pair_Files.thy ===== *)
theory Pair_Files
  imports Threads_Correct
begin

text \<open>
  The files of the pairs (\<open>sysfs_create_file\<close> in \<open>dev_add_store\<close>, \<open>sysfs_remove_file\<close> in \<open>pair_delete\<close>,
  \<open>pair_show\<close>). While a program reads a file, \<open>sysfs\<close> counts it as active, runs \<open>pair_show\<close>, and
  counts it as inactive again; \<open>sysfs_remove_file\<close> does not return before the file is inactive.
  \<open>file_step\<close> puts this around the threads of \<open>Threads\<close>: \<open>active\<close> are the names of the files being
  read, and \<open>waits name names\<close> says whether the removal of \<open>name\<close> waits while \<open>names\<close> are being
  read. The kernel's \<open>sysfs\<close> satisfies \<open>removal_waits\<close>. A file can be opened here even while its
  removal waits, which the kernel no longer allows then: the model has more schedules. The index is
  given back just before the wait in the code, with it here; the lock hides the difference.

  The theorems: what is read is consistent, and a file is never removed under its reader; but the
  lock and the wait for the readers together lead into a deadlock.
\<close>

section \<open>Reading a file\<close>

datatype file_call =
    Direct call
  | Read string

record 'd files =
  f_world :: "'d world"
  active :: "string list"

datatype file_pc =
    Closed
  | Opened pc
  | Shut "answer option"

text \<open>The file that the next step of \<open>pair_delete\<close> removes.\<close>

fun removing :: "call \<Rightarrow> pc \<Rightarrow> 'd world \<Rightarrow> string option" where
  "removing (Delete k) (Hold x) w = map_option filename (node (w_mem w) x)"
| "removing Clear (Wipe x n) w = (if x = 0 then None else map_option filename (node (w_mem w) x))"
| "removing c pc w = None"

definition call_step ::
  "klib \<Rightarrow> ((nat \<Rightarrow> hwe_pair option) \<Rightarrow> nat) \<Rightarrow> (string \<Rightarrow> string list \<Rightarrow> bool) \<Rightarrow> call \<Rightarrow> pc \<Rightarrow>
     'd files \<Rightarrow> (file_pc \<times> 'd files) run" where
  "call_step K fresh waits c pc f =
     (if (case removing c pc (f_world f) of None \<Rightarrow> False | Some name \<Rightarrow> waits name (active f)) then Blocked
      else
        (case thread_step K fresh c pc (f_world f) of
           Done (pc, w) \<Rightarrow> Done (Opened pc, f\<lparr>f_world := w\<rparr>)
         | Blocked \<Rightarrow> Blocked
         | Oops \<Rightarrow> Oops))"

fun file_step ::
  "klib \<Rightarrow> ((nat \<Rightarrow> hwe_pair option) \<Rightarrow> nat) \<Rightarrow> (string \<Rightarrow> string list \<Rightarrow> bool) \<Rightarrow> file_call \<Rightarrow> file_pc \<Rightarrow>
     'd files \<Rightarrow> (file_pc \<times> 'd files) run" where
  "file_step K fresh waits c (Shut r) f = Done (Shut r, f)"
| "file_step K fresh waits (Direct c) Closed f = Done (Opened Begin, f)"
| "file_step K fresh waits (Direct c) (Opened (End r)) f = Done (Shut (Some r), f)"
| "file_step K fresh waits (Direct c) (Opened pc) f = call_step K fresh waits c pc f"
| "file_step K fresh waits (Read name) Closed f =
     (if name \<in> set (pairs_dir (w_dev (f_world f))) then Done (Opened Begin, f\<lparr>active := name # active f\<rparr>)
      else Done (Shut None, f))"
| "file_step K fresh waits (Read name) (Opened (End r)) f =
     Done (Shut (Some r), f\<lparr>active := remove1 name (active f)\<rparr>)"
| "file_step K fresh waits (Read name) (Opened pc) f =
     (case kl_kstrtol K name of
        None \<Rightarrow> Done (Opened (End (Text (''ERROR: invalid index '' @ [CHR 0x27] @ name @ [CHR 0x27] @ ''!''))), f)
      | Some idx \<Rightarrow> call_step K fresh waits (Show idx) pc f)"

definition file_schedule ::
  "klib \<Rightarrow> ((nat \<Rightarrow> hwe_pair option) \<Rightarrow> nat) \<Rightarrow> (string \<Rightarrow> string list \<Rightarrow> bool) \<Rightarrow> file_call list \<Rightarrow> nat list \<Rightarrow>
     file_pc list \<times> 'd files \<Rightarrow> (file_pc list \<times> 'd files) run" where
  "file_schedule K fresh waits calls = interleave (\<lambda>t. file_step K fresh waits (calls ! t)) (length calls)"

definition removal_waits :: "(string \<Rightarrow> string list \<Rightarrow> bool) \<Rightarrow> bool" where
  "removal_waits waits \<longleftrightarrow> (\<forall>name names. name \<in> set names \<longrightarrow> waits name names)"

section \<open>The handlers behind the files\<close>

fun handler_of :: "klib \<Rightarrow> file_call \<Rightarrow> call" where
  "handler_of K (Direct c) = c"
| "handler_of K (Read name) = Show (the (kl_kstrtol K name))"

fun thread_pc :: "file_pc \<Rightarrow> pc" where
  "thread_pc Closed = Begin"
| "thread_pc (Opened pc) = pc"
| "thread_pc (Shut (Some r)) = End r"
| "thread_pc (Shut None) = Begin"

fun file_call_ok :: "klib \<Rightarrow> file_call \<Rightarrow> bool" where
  "file_call_ok K (Direct c) = call_ok c"
| "file_call_ok K (Read name) \<longleftrightarrow> kl_kstrtol K name \<noteq> None"

lemma call_step_sound:
  "call_step K fresh waits c pc f = Done (fpc, f') \<Longrightarrow>
     thread_step K fresh c pc (f_world f) = Done (thread_pc fpc, f_world f') \<and> active f' = active f"
  "call_step K fresh waits c pc f = Oops \<Longrightarrow> thread_step K fresh c pc (f_world f) = Oops"
  by (auto simp: call_step_def split: if_splits run.splits)

text \<open>A step of a file is a step of the thread behind it, or does not touch the memory.\<close>

lemma file_step_sound:
  assumes "file_call_ok K c" "file_step K fresh waits c fpc f = Done (fpc', f')"
  shows "thread_pc fpc' = thread_pc fpc \<and> f_world f' = f_world f \<or>
    thread_step K fresh (handler_of K c) (thread_pc fpc) (f_world f) = Done (thread_pc fpc', f_world f')"
  using assms
  by (induction K fresh waits c fpc f rule: file_step.induct)
    (auto split: if_splits option.splits dest: call_step_sound(1))

lemma file_step_Oops:
  assumes "file_call_ok K c" "file_step K fresh waits c fpc f = Oops"
  shows "thread_step K fresh (handler_of K c) (thread_pc fpc) (f_world f) = Oops"
  using assms
  by (induction K fresh waits c fpc f rule: file_step.induct)
    (auto split: if_splits option.splits dest: call_step_sound(2))

text \<open>Only the removal of a file takes its name out of the directory.\<close>

lemma add_step_dir:
  "add_step K fresh E buf cnt pc w = Done (pc', w') \<Longrightarrow> set (pairs_dir (w_dev w)) \<subseteq> set (pairs_dir (w_dev w'))"
  by (induction K fresh E buf cnt pc w rule: add_step.induct)
    (auto simp: down_def store_pair_def free_pair_def Let_def split: if_splits option.splits sum.splits)

lemma thread_step_dir:
  assumes "thread_step K fresh c pc w = Done (pc', w')" "name \<in> set (pairs_dir (w_dev w))" "removing c pc w \<noteq> Some name"
  shows "name \<in> set (pairs_dir (w_dev w'))"
  using assms
proof (cases c)
  case (Add E buf cnt)
  then show ?thesis using assms add_step_dir [of K fresh E buf cnt pc w pc' w'] by (cases pc) (auto simp: up_def)
qed (cases pc; use assms in \<open>auto simp: down_def up_def unlink_pair_def free_pair_def store_pair_def Let_def
      split: if_splits option.splits\<close>)+

lemma call_step_active:
  assumes "removal_waits waits" "set (active f) \<subseteq> set (pairs_dir (w_dev (f_world f)))"
    "call_step K fresh waits c pc f = Done (fpc, f')"
  shows "set (active f') \<subseteq> set (pairs_dir (w_dev (f_world f')))"
proof
  fix name
  assume "name \<in> set (active f')"
  then have name: "name \<in> set (active f)" using call_step_sound(1) [OF assms(3)] by simp
  then have "removing c pc (f_world f) \<noteq> Some name"
    using assms(1,3) by (auto simp: call_step_def removal_waits_def)
  then show "name \<in> set (pairs_dir (w_dev (f_world f')))"
    using call_step_sound(1) [OF assms(3)] thread_step_dir name assms(2) by blast
qed

lemma in_remove1: "y \<in> set (remove1 x xs) \<Longrightarrow> y \<in> set xs"
  using notin_set_remove1 by metis

lemma file_step_active:
  assumes "removal_waits waits" "set (active f) \<subseteq> set (pairs_dir (w_dev (f_world f)))"
    "file_step K fresh waits c fpc f = Done (fpc', f')"
  shows "set (active f') \<subseteq> set (pairs_dir (w_dev (f_world f')))"
  using assms
  by (induction K fresh waits c fpc f rule: file_step.induct)
    (auto split: if_splits option.splits dest!: in_remove1 dest: call_step_active)

section \<open>What is read is consistent\<close>

abbreviation handlers_of :: "klib \<Rightarrow> file_call list \<Rightarrow> call list" where
  "handlers_of K calls \<equiv> map (handler_of K) calls"

definition files_ok ::
  "klib \<Rightarrow> ((nat \<Rightarrow> hwe_pair option) \<Rightarrow> nat) \<Rightarrow> file_call list \<Rightarrow> 'd hwe_dev \<Rightarrow> file_pc list \<times> 'd files \<Rightarrow> bool" where
  "files_ok K fresh calls dev = (\<lambda>(fpcs, f).
     length fpcs = length calls \<and> set (active f) \<subseteq> set (pairs_dir (w_dev (f_world f))) \<and>
     (\<exists>h rs dev'. handlers.consistent (handlers_of K calls) K fresh dev (map thread_pc fpcs) (f_world f) h rs dev'))"

lemma files_ok_step:
  assumes ok: "files_ok K fresh calls dev (fpcs, f)" and t: "t < length calls"
    and calls: "\<forall>c \<in> set calls. file_call_ok K c" and "removal_waits waits"
  shows "file_step K fresh waits (calls ! t) (fpcs ! t) f = Done (fpc, f') \<Longrightarrow> files_ok K fresh calls dev (fpcs[t := fpc], f')"
    "file_step K fresh waits (calls ! t) (fpcs ! t) f \<noteq> Oops"
proof -
  let ?cs = "handlers_of K calls" and ?pcs = "map thread_pc fpcs"
  obtain h rs dev' where c: "handlers.consistent ?cs K fresh dev ?pcs (f_world f) h rs dev'"
    and len: "length fpcs = length calls" and act: "set (active f) \<subseteq> set (pairs_dir (w_dev (f_world f)))"
    using ok by (auto simp: files_ok_def)
  have okt: "file_call_ok K (calls ! t)" using calls t by simp
  have adv: "handlers.advances ?cs K fresh dev t ?pcs rs (thread_step K fresh (?cs ! t) (?pcs ! t) (f_world f))"
    using handlers.consistent_step [OF c] t by simp
  show "file_step K fresh waits (calls ! t) (fpcs ! t) f \<noteq> Oops"
    using adv [unfolded handlers.advances_def] file_step_Oops [OF okt, of fresh waits "fpcs ! t" f] t len by auto
  assume step: "file_step K fresh waits (calls ! t) (fpcs ! t) f = Done (fpc, f')"
  have "\<exists>h rs dev'. handlers.consistent ?cs K fresh dev (?pcs[t := thread_pc fpc]) (f_world f') h rs dev'"
    using file_step_sound [OF okt step]
  proof
    assume "thread_pc fpc = thread_pc (fpcs ! t) \<and> f_world f' = f_world f"
    moreover have "?pcs[t := thread_pc (fpcs ! t)] = ?pcs" by (metis list_update_id map_update)
    ultimately show ?thesis using c by auto
  next
    assume "thread_step K fresh (handler_of K (calls ! t)) (thread_pc (fpcs ! t)) (f_world f) = Done (thread_pc fpc, f_world f')"
    then show ?thesis using adv [unfolded handlers.advances_def] t len by auto
  qed
  then show "files_ok K fresh calls dev (fpcs[t := fpc], f')"
    using len file_step_active [OF assms(4) act step] by (simp add: files_ok_def map_update)
qed

lemma files_ok_schedule:
  assumes "files_ok K fresh calls dev x" "\<forall>c \<in> set calls. file_call_ok K c" "removal_waits waits"
  obtains fpcs f where "file_schedule K fresh waits calls s x = Done (fpcs, f)" "files_ok K fresh calls dev (fpcs, f)"
proof -
  have "\<exists>y. file_schedule K fresh waits calls s x = Done y \<and> files_ok K fresh calls dev y"
    unfolding file_schedule_def
    by (rule interleave_invariant [of "files_ok K fresh calls dev", OF assms(1)])
      (use files_ok_step [OF _ _ assms(2,3)] in blast)+
  then show ?thesis using that by auto
qed

definition sample_files :: "unit files" where
  "sample_files = \<lparr>f_world = sample_world, active = []\<rparr>"

definition sample_file_calls :: "file_call list" where
  "sample_file_calls = [Read ''0'', Direct (Add sample_env ''02=03'' 5), Direct Clear, Read ''0'']"

definition busy_file_waits :: "string \<Rightarrow> string list \<Rightarrow> bool" where
  "busy_file_waits name names \<longleftrightarrow> name \<in> set names"

lemma sample_files_ok:
  "represents (f_world sample_files) sample_dev" "active sample_files = []"
  "\<forall>c \<in> set sample_file_calls. file_call_ok sample_klib c" "removal_waits busy_file_waits"
  using sample_world_ok sample_calls_ok
  by (simp_all add: sample_files_def sample_file_calls_def sample_calls_def removal_waits_def busy_file_waits_def
      sample_klib_def isdigit_def)

text \<open>C11: the files of the pairs may be read at any time. In every interleaving of programs that read
  files of pairs with locked searches, additions, deletions, clearings and visits of the timer on
  a device, no step touches freed memory; every answer, also every text read, is the one the
  handlers give when they run whole, one after the other; and a file that is being read is not
  removed.\<close>

theorem file_readers_are_atomic:
  assumes "represents (f_world f) dev" "dev_inv dev" "active f = []" "\<forall>c \<in> set calls. file_call_ok K c"
    "fresh_ok fresh" "removal_waits waits"
  shows "\<exists>fpcs f' order. file_schedule K fresh waits calls s (replicate (length calls) Closed, f) = Done (fpcs, f') \<and>
    explains K (map (handler_of K) calls) dev order (map thread_pc fpcs) (f_world f') \<and>
    set (active f') \<subseteq> set (pairs_dir (w_dev (f_world f')))"
proof -
  have "call_ok c" if "c \<in> set (handlers_of K calls)" for c
  proof -
    have "\<exists>fc \<in> set calls. c = handler_of K fc" using that by auto
    then obtain fc where "fc \<in> set calls" "c = handler_of K fc" ..
    then show ?thesis using bspec [OF assms(4), of fc] by - (cases fc; simp)
  qed
  then have "handlers_inv fresh (handlers_of K calls) dev" using assms(2,5) by (simp add: handlers_inv_def)
  then have start: "files_ok K fresh calls dev (replicate (length calls) Closed, f)"
    using handlers.consistent_start [OF assms(1), of fresh "handlers_of K calls" K] assms(3) by (auto simp: files_ok_def)
  obtain fpcs f' where run: "file_schedule K fresh waits calls s (replicate (length calls) Closed, f) = Done (fpcs, f')"
    "files_ok K fresh calls dev (fpcs, f')"
    by (rule files_ok_schedule [OF start assms(4,6)])
  then obtain h rs dev' where
    c: "handlers.consistent (handlers_of K calls) K fresh dev (map thread_pc fpcs) (f_world f') h rs dev'"
    and act: "set (active f') \<subseteq> set (pairs_dir (w_dev (f_world f')))"
    unfolding files_ok_def by blast
  show ?thesis
    using run(1) explains_handlers [OF handlers.consistent_explained [OF c]] act by blast
qed

theorem file_readers_are_atomic_witness:
  "\<exists>fpcs f' order. file_schedule sample_klib max_fresh busy_file_waits sample_file_calls [0, 2, 2, 1, 2, 0, 3, 1, 0]
      (replicate (length sample_file_calls) Closed, sample_files) = Done (fpcs, f') \<and>
    explains sample_klib (map (handler_of sample_klib) sample_file_calls) sample_dev order (map thread_pc fpcs) (f_world f') \<and>
    set (active f') \<subseteq> set (pairs_dir (w_dev (f_world f')))"
  by (rule file_readers_are_atomic [OF sample_files_ok(1) sample_world_ok(2) sample_files_ok(2,3) max_fresh_ok sample_files_ok(4)])

section \<open>A deadlock\<close>

definition is_tick :: "call \<Rightarrow> bool" where
  "is_tick c \<longleftrightarrow> (\<exists>jiff. c = Tick jiff)"

text \<open>A reader that waits for the lock, and a deletion that has the lock and waits for the reader.\<close>

definition stuck ::
  "call list \<Rightarrow> nat \<Rightarrow> string \<Rightarrow> 'd files \<Rightarrow> file_pc list \<times> 'd files \<Rightarrow> bool" where
  "stuck cs x name f0 = (\<lambda>(fpcs, f).
     f = f0 \<and> w_sem (f_world f) = 0 \<and> name \<in> set (active f) \<and>
     map_option filename (node (w_mem (f_world f)) x) = Some name \<and> length fpcs = length cs + 2 \<and>
     fpcs ! 0 = Opened Begin \<and> fpcs ! 1 = Opened (Hold x) \<and>
     (\<forall>t < length cs. fpcs ! (t + 2) \<in> {Closed, Opened Begin} \<or>
        is_tick (cs ! t) \<and> fpcs ! (t + 2) \<in> {Opened (End (Packets None)), Shut (Some (Packets None))}))"

lemma stuck_other_step:
  assumes "call_ok c" "w_sem (f_world f) = 0" "fpc \<in> {Closed, Opened Begin} \<or>
      is_tick c \<and> fpc \<in> {Opened (End (Packets None)), Shut (Some (Packets None))}"
  shows "file_step K fresh waits (Direct c) fpc f = Blocked \<or>
    (\<exists>fpc'. file_step K fresh waits (Direct c) fpc f = Done (fpc', f) \<and>
      (fpc' \<in> {Closed, Opened Begin} \<or> is_tick c \<and> fpc' \<in> {Opened (End (Packets None)), Shut (Some (Packets None))}))"
  using assms begin_waits [of "f_world f" c K fresh]
  by (auto simp: call_step_def is_tick_def lost_def)

lemma stuck_open:
  assumes "stuck cs x name f (fpcs, f1)"
  shows "fpcs ! 0 \<noteq> Shut r" "fpcs ! 1 \<noteq> Shut r" "t < length cs \<Longrightarrow> fpcs ! (t + 2) = Shut r \<Longrightarrow> is_tick (cs ! t)"
  using assms by (auto simp: stuck_def)

lemma stuck_forever:
  assumes "stuck cs x name f (fpcs, f)" "removal_waits waits" "kl_kstrtol K name = Some idx" "\<forall>c \<in> set cs. call_ok c"
  shows "\<exists>y. file_schedule K fresh waits (Read name # Direct (Delete k) # map Direct cs) s (fpcs, f) = Done y \<and> stuck cs x name f y"
  unfolding file_schedule_def
proof (rule interleave_invariant [of "stuck cs x name f", OF assms(1)])
  let ?calls = "Read name # Direct (Delete k) # map Direct cs"
  fix t fpcs f1
  assume st: "stuck cs x name f (fpcs, f1)" and t: "t < length ?calls"
  have cases: "file_step K fresh waits (?calls ! t) (fpcs ! t) f1 = Blocked \<or>
    (\<exists>fpc. file_step K fresh waits (?calls ! t) (fpcs ! t) f1 = Done (fpc, f1) \<and> stuck cs x name f (fpcs[t := fpc], f1))"
  proof -
    consider "t = 0" | "t = 1" | u where "t = u + 2" "u < length cs" using t
      by (metis One_nat_def add_2_eq_Suc' length_Cons length_map less_Suc_eq_0_disj)
    then show ?thesis
    proof cases
      case 1
      then show ?thesis using st assms(3) by (auto simp: stuck_def call_step_def down_def)
    next
      case 2
      then show ?thesis using st assms(2) by (auto simp: stuck_def call_step_def removal_waits_def)
    next
      case 3
      have "call_ok (cs ! u)" using assms(4) 3 by simp
      then show ?thesis
        using stuck_other_step [of "cs ! u" f1 "fpcs ! t" K fresh waits] st 3
        by (auto simp: stuck_def nth_list_update)
    qed
  qed
  then show "file_step K fresh waits (?calls ! t) (fpcs ! t) f1 \<noteq> Oops" by auto
  show "stuck cs x name f (fpcs[t := fpc], f')" if "file_step K fresh waits (?calls ! t) (fpcs ! t) f1 = Done (fpc, f')" for fpc f'
    using cases that by auto
qed

text \<open>C9: reading a pair's file while the pair is deleted can hang the interface for ever. \<open>pair_delete\<close> calls
  \<open>sysfs_remove_file\<close> with the interface locked; it waits for a reader of the file, which waits in
  \<open>pair_show\<close> for the lock. For every device with a pair, and whatever other handlers are called
  then, there is an interleaving after which no call on the device ever returns, whatever the
  kernel runs next (but for the timer, which does not wait for the lock).\<close>

theorem read_and_delete_deadlock:
  assumes "represents (f_world f) dev" "dev_inv dev" "pair_list dev = p # ps" "active f = []"
    "kl_kstrtol K (filename p) = Some (int (index p))" "removal_waits waits" "\<forall>c \<in> set cs. call_ok c"
  shows "\<exists>s fpcs f'. file_schedule K fresh waits (Read (filename p) # Direct (Delete (int (index p))) # map Direct cs) s
      (replicate (length cs + 2) Closed, f) = Done (fpcs, f') \<and>
    (\<forall>s'. \<exists>fpcs' f''. file_schedule K fresh waits (Read (filename p) # Direct (Delete (int (index p))) # map Direct cs) s'
        (fpcs, f') = Done (fpcs', f'') \<and>
      (\<forall>r. fpcs' ! 0 \<noteq> Shut r \<and> fpcs' ! 1 \<noteq> Shut r \<and> (\<forall>t < length cs. fpcs' ! (t + 2) = Shut r \<longrightarrow> is_tick (cs ! t))))"
proof -
  let ?calls = "Read (filename p) # Direct (Delete (int (index p))) # map Direct cs"
  obtain x where x: "nxt (w_mem (f_world f)) 0 = x" "x \<noteq> 0" "node (w_mem (f_world f)) x = Some p" "w_sem (f_world f) = 1"
    "size_of_long (int (index p)) = index p" "filename p \<in> set (pairs_dir (w_dev (f_world f)))"
    by (rule first_pair [OF assms(1-3)])
  define f' where "f' = f\<lparr>active := [filename p], f_world := (f_world f)\<lparr>w_sem := 0\<rparr>\<rparr>"
  define fpcs where "fpcs = Opened Begin # Opened (Hold x) # replicate (length cs) Closed"
  have "file_schedule K fresh waits ?calls [0, 1, 1, 1] (replicate (length cs + 2) Closed, f) = Done (fpcs, f')"
    using x assms(4) by (simp add: file_schedule_def call_step_def down_def f'_def fpcs_def)
  moreover have "stuck cs x (filename p) f' (fpcs, f')"
    using x(3) by (auto simp: stuck_def f'_def fpcs_def)
  then have "\<exists>fpcs' f''. file_schedule K fresh waits ?calls s' (fpcs, f') = Done (fpcs', f'') \<and>
      (\<forall>r. fpcs' ! 0 \<noteq> Shut r \<and> fpcs' ! 1 \<noteq> Shut r \<and> (\<forall>t < length cs. fpcs' ! (t + 2) = Shut r \<longrightarrow> is_tick (cs ! t)))" for s'
    using stuck_forever [OF _ assms(6,5,7), of x f' fpcs fresh "int (index p)" s'] stuck_open by (metis surj_pair)
  ultimately show ?thesis by blast
qed

theorem read_and_delete_deadlock_witness:
  "\<exists>s fpcs f'. file_schedule sample_klib max_fresh busy_file_waits
      (Read (filename (numbered sample_pair 0)) # Direct (Delete (int (index (numbered sample_pair 0)))) # map Direct sample_calls) s
      (replicate (length sample_calls + 2) Closed, sample_files) = Done (fpcs, f') \<and>
    (\<forall>s'. \<exists>fpcs' f''. file_schedule sample_klib max_fresh busy_file_waits
        (Read (filename (numbered sample_pair 0)) # Direct (Delete (int (index (numbered sample_pair 0)))) # map Direct sample_calls) s'
        (fpcs, f') = Done (fpcs', f'') \<and>
      (\<forall>r. fpcs' ! 0 \<noteq> Shut r \<and> fpcs' ! 1 \<noteq> Shut r \<and>
        (\<forall>t < length sample_calls. fpcs' ! (t + 2) = Shut r \<longrightarrow> is_tick (sample_calls ! t))))"
proof (rule read_and_delete_deadlock [OF sample_files_ok(1) sample_world_ok(2) sample_dev_pairs sample_files_ok(2)])
  show "kl_kstrtol sample_klib (filename (numbered sample_pair 0)) = Some (int (index (numbered sample_pair 0)))"
    using numbered_filename [of 0 sample_pair] dec_str_digits [of 0] by (simp add: hwe_consts sample_klib_def)
qed (simp_all add: sample_files_ok(4) sample_calls_ok)

end
