(* ===== verification/Interfaces.thy ===== *)
theory Interfaces
  imports Threads_Correct
begin

text \<open>
  The four interfaces at once: each has its lock and its devices, but \<open>pair_to_str\<close> has one static
  buffer for all (\<open>hwe_utils.c\<close>). \<open>memory\<close> has a device of each interface and the buffer; a call
  belongs to an interface. Calls on different interfaces do not disturb each other as long as
  all texts are read on one interface; if texts are read on two, a reader can get the text of
  another interface's pair.
\<close>

section \<open>Threads on all interfaces\<close>

record 'd memory =
  worlds :: "HWE_IFACE \<Rightarrow> 'd world"
  static_buf :: string

definition iface_step ::
  "klib \<Rightarrow> ((nat \<Rightarrow> hwe_pair option) \<Rightarrow> nat) \<Rightarrow> HWE_IFACE \<times> call \<Rightarrow> pc \<Rightarrow> 'd memory \<Rightarrow> (pc \<times> 'd memory) run" where
  "iface_step K fresh ic pc m =
     (case thread_step K fresh (snd ic) pc ((worlds m (fst ic))\<lparr>w_buf := static_buf m\<rparr>) of
        Done (pc, w) \<Rightarrow> Done (pc, m\<lparr>worlds := (worlds m)(fst ic := w), static_buf := w_buf w\<rparr>)
      | Blocked \<Rightarrow> Blocked
      | Oops \<Rightarrow> Oops)"

definition iface_schedule ::
  "klib \<Rightarrow> ((nat \<Rightarrow> hwe_pair option) \<Rightarrow> nat) \<Rightarrow> (HWE_IFACE \<times> call) list \<Rightarrow> nat list \<Rightarrow> pc list \<times> 'd memory \<Rightarrow>
     (pc list \<times> 'd memory) run" where
  "iface_schedule K fresh calls = interleave (\<lambda>t. iface_step K fresh (calls ! t)) (length calls)"

text \<open>The program counters of the threads on one interface; for the others, as if they had not begun.\<close>

definition pcs_on :: "(HWE_IFACE \<times> call) list \<Rightarrow> HWE_IFACE \<Rightarrow> pc list \<Rightarrow> pc list" where
  "pcs_on calls i pcs = map (\<lambda>t. if fst (calls ! t) = i then pcs ! t else Begin) [0..<length calls]"

definition prints :: "call \<Rightarrow> bool" where
  "prints c \<longleftrightarrow> (\<exists>idx. c = Show idx)"

section \<open>The buffer matters only to those who print\<close>

lemma add_step_buf:
  "add_step K fresh E buf cnt pc (w\<lparr>w_buf := b\<rparr>) = map_run (map_prod id (\<lambda>w. w\<lparr>w_buf := b\<rparr>)) (add_step K fresh E buf cnt pc w)"
  by (cases pc) (auto simp: down_def store_pair_def free_pair_def Let_def split: option.splits sum.splits)

lemma thread_step_buf:
  assumes "\<not> prints c"
  shows "thread_step K fresh c pc (w\<lparr>w_buf := b\<rparr>) = map_run (map_prod id (\<lambda>w. w\<lparr>w_buf := b\<rparr>)) (thread_step K fresh c pc w)"
proof (cases c)
  case (Add E buf cnt)
  then show ?thesis by (cases pc) (simp_all add: up_def add_step_buf)
next
  case (Show idx)
  then show ?thesis using assms by (simp add: prints_def)
qed (cases pc; auto simp: down_def up_def leave_def unlink_pair_def free_pair_def store_pair_def Let_def split: option.splits)+

lemma thread_step_keeps_buf:
  assumes "thread_step K fresh c pc w = Done (pc', w')" "\<not> prints c"
  shows "w_buf w' = w_buf w"
proof -
  have "w' = w'\<lparr>w_buf := w_buf w\<rparr>"
    using thread_step_buf [OF assms(2), where K = K and fresh = fresh and pc = pc and w = w and b = "w_buf w"] assms(1)
    by simp
  then show ?thesis by (metis world.select_convs(4) world.surjective world.update_convs(4))
qed

lemma represents_buf [simp]: "represents (w\<lparr>w_buf := b\<rparr>) dev \<longleftrightarrow> represents w dev"
  by (simp add: represents_def)

lemma explains_buf [simp]: "explains K calls dev order pcs (w\<lparr>w_buf := b\<rparr>) \<longleftrightarrow> explains K calls dev order pcs w"
  by (simp add: explains_def)

section \<open>What a thread sees of the memory\<close>

text \<open>\<open>k\<close> is the one interface on which texts are read.\<close>

definition seen :: "HWE_IFACE \<Rightarrow> HWE_IFACE \<Rightarrow> 'd memory \<Rightarrow> 'd world" where
  "seen k i m = (worlds m i)\<lparr>w_buf := if i = k then static_buf m else []\<rparr>"

definition prints_on :: "HWE_IFACE \<Rightarrow> (HWE_IFACE \<times> call) list \<Rightarrow> bool" where
  "prints_on k calls \<longleftrightarrow> (\<forall>(i, c) \<in> set calls. prints c \<longrightarrow> i = k)"

lemma iface_step_seen:
  assumes "prints c \<longrightarrow> i = k"
  shows "case thread_step K fresh c pc (seen k i m) of
      Done (pc', w) \<Rightarrow> (\<exists>m'. iface_step K fresh (i, c) pc m = Done (pc', m') \<and> seen k i m' = w \<and>
        (\<forall>j. j \<noteq> i \<longrightarrow> seen k j m' = seen k j m))
    | Blocked \<Rightarrow> iface_step K fresh (i, c) pc m = Blocked
    | Oops \<Rightarrow> iface_step K fresh (i, c) pc m = Oops"
proof (cases "i = k")
  case True
  then show ?thesis
    by (auto simp: iface_step_def seen_def split: run.split)
next
  case False
  then have np: "\<not> prints c" using assms by blast
  have run: "thread_step K fresh c pc ((worlds m i)\<lparr>w_buf := static_buf m\<rparr>) =
      map_run (map_prod id (\<lambda>w. w\<lparr>w_buf := static_buf m\<rparr>)) (thread_step K fresh c pc (seen k i m))"
    using thread_step_buf [OF np, where K = K and fresh = fresh and pc = pc and w = "seen k i m" and b = "static_buf m"]
    by (simp add: seen_def)
  have "w\<lparr>w_buf := []\<rparr> = w" if "thread_step K fresh c pc (seen k i m) = Done (pc', w)" for pc' w
    using thread_step_keeps_buf [OF that np] False by (cases w) (simp add: seen_def)
  then show ?thesis
    using run False by (auto simp: iface_step_def seen_def split: run.split)
qed

text \<open>On every interface the handlers keep the contract of their lock.\<close>

definition ifaces_ok ::
  "klib \<Rightarrow> ((nat \<Rightarrow> hwe_pair option) \<Rightarrow> nat) \<Rightarrow> HWE_IFACE \<Rightarrow> (HWE_IFACE \<times> call) list \<Rightarrow> (HWE_IFACE \<Rightarrow> 'd hwe_dev) \<Rightarrow>
     pc list \<times> 'd memory \<Rightarrow> bool" where
  "ifaces_ok K fresh k calls D = (\<lambda>(pcs, m). length pcs = length calls \<and>
     (\<forall>i. \<exists>h rs dev'. handlers.consistent (map snd calls) K fresh (D i) (pcs_on calls i pcs) (seen k i m) h rs dev'))"

lemma pcs_on_update:
  assumes "t < length calls" "length pcs = length calls"
  shows "pcs_on calls i (pcs[t := pc]) = (if fst (calls ! t) = i then (pcs_on calls i pcs)[t := pc] else pcs_on calls i pcs)"
  using assms by (auto simp: pcs_on_def nth_list_update intro!: nth_equalityI)

lemma ifaces_ok_step:
  assumes ok: "ifaces_ok K fresh k calls D (pcs, m)" and t: "t < length calls" and k: "prints_on k calls"
  shows "iface_step K fresh (calls ! t) (pcs ! t) m = Done (pc, m') \<Longrightarrow> ifaces_ok K fresh k calls D (pcs[t := pc], m')"
    "iface_step K fresh (calls ! t) (pcs ! t) m \<noteq> Oops"
proof -
  obtain i c where ic: "calls ! t = (i, c)" by (cases "calls ! t")
  have len: "length pcs = length calls" using ok by (simp add: ifaces_ok_def)
  have here: "pcs_on calls i pcs ! t = pcs ! t" using t ic by (simp add: pcs_on_def)
  obtain h rs dev' where c: "handlers.consistent (map snd calls) K fresh (D i) (pcs_on calls i pcs) (seen k i m) h rs dev'"
    using ok unfolding ifaces_ok_def by blast
  have adv: "handlers.advances (map snd calls) K fresh (D i) t (pcs_on calls i pcs) rs
      (thread_step K fresh c (pcs ! t) (seen k i m))"
    using handlers.consistent_step [OF c, of t] t ic here by simp
  have "prints c \<longrightarrow> i = k" using k t ic nth_mem [OF t] by (auto simp: prints_on_def)
  note step = iface_step_seen [OF this, of K fresh "pcs ! t" m]
  show "iface_step K fresh (calls ! t) (pcs ! t) m \<noteq> Oops"
    using adv [unfolded handlers.advances_def] step ic by auto
  assume "iface_step K fresh (calls ! t) (pcs ! t) m = Done (pc, m')"
  then obtain w where w: "thread_step K fresh c (pcs ! t) (seen k i m) = Done (pc, w)" "seen k i m' = w"
    "\<And>j. j \<noteq> i \<Longrightarrow> seen k j m' = seen k j m"
    using step ic by (auto split: run.splits)
  have "\<exists>h rs dev'. handlers.consistent (map snd calls) K fresh (D j) (pcs_on calls j (pcs[t := pc])) (seen k j m') h rs dev'" for j
  proof (cases "j = i")
    case True
    then show ?thesis
      using adv [unfolded handlers.advances_def] w pcs_on_update [OF t len, of i pc] ic by auto
  next
    case False
    then show ?thesis
      using ok w(3) pcs_on_update [OF t len, of j pc] ic by (simp add: ifaces_ok_def)
  qed
  then show "ifaces_ok K fresh k calls D (pcs[t := pc], m')" using len by (simp add: ifaces_ok_def)
qed

lemma ifaces_ok_schedule:
  assumes "ifaces_ok K fresh k calls D x" "prints_on k calls"
  obtains pcs m where "iface_schedule K fresh calls s x = Done (pcs, m)" "ifaces_ok K fresh k calls D (pcs, m)"
proof -
  have "\<exists>y. iface_schedule K fresh calls s x = Done y \<and> ifaces_ok K fresh k calls D y"
    unfolding iface_schedule_def
    by (rule interleave_invariant [of "ifaces_ok K fresh k calls D", OF assms(1)])
      (use ifaces_ok_step [OF _ _ assms(2)] in blast)+
  then show ?thesis using that by auto
qed

section \<open>Properties\<close>

definition sample_memory :: "unit memory" where
  "sample_memory = \<lparr>worlds = (\<lambda>i. one_pair_world (if i = HWE_TTY then sample_pair else sample_timer)), static_buf = []\<rparr>"

definition sample_devs :: "HWE_IFACE \<Rightarrow> unit hwe_dev" where
  "sample_devs i = one_pair_dev (if i = HWE_TTY then sample_pair else sample_timer)"

definition sample_iface_calls :: "(HWE_IFACE \<times> call) list" where
  "sample_iface_calls = [(HWE_TTY, Show 0), (HWE_I2C, Delete 0), (HWE_TTY, Clear), (HWE_TTY, Show 0), (HWE_SPI, Tick 5)]"

lemma sample_memory_ok: "represents (worlds sample_memory i) (sample_devs i)" "dev_inv (sample_devs i)"
  by (simp_all add: sample_memory_def sample_devs_def one_pair_world_represents one_pair_dev_inv sample_pair_wf sample_timer_wf)

text \<open>C12: the interfaces are independent. Take any calls on the four interfaces, each with its own lock,
  such that texts of pairs are read on one interface only. Under every interleaving no step
  touches freed memory, and on each interface the answers and the device are those of its
  handlers run whole, one after the other, as if the other interfaces did not exist.\<close>

theorem interfaces_are_independent:
  assumes "\<forall>i. represents (worlds m i) (D i) \<and> dev_inv (D i)" "\<forall>(i, c) \<in> set calls. call_ok c" "fresh_ok fresh"
    "prints_on k calls"
  shows "\<exists>pcs m'. iface_schedule K fresh calls s (replicate (length calls) Begin, m) = Done (pcs, m') \<and>
    (\<forall>i. \<exists>order. explains K (map snd calls) (D i) order (pcs_on calls i pcs) (worlds m' i))"
proof -
  have "pcs_on calls i (replicate (length calls) Begin) = replicate (length (map snd calls)) Begin" for i
    by (auto simp: pcs_on_def intro: nth_equalityI)
  moreover have "represents (seen k i m) (D i)" "handlers_inv fresh (map snd calls) (D i)" for i
    using assms(1-3) by (auto simp: seen_def handlers_inv_def)
  ultimately have "ifaces_ok K fresh k calls D (replicate (length calls) Begin, m)"
    unfolding ifaces_ok_def using handlers.consistent_start by fastforce
  then obtain pcs m' where run: "iface_schedule K fresh calls s (replicate (length calls) Begin, m) = Done (pcs, m')"
    "ifaces_ok K fresh k calls D (pcs, m')"
    using assms(4) by (rule ifaces_ok_schedule)
  have "\<exists>order. explains K (map snd calls) (D i) order (pcs_on calls i pcs) (worlds m' i)" for i
  proof -
    obtain h rs dev' where "handlers.consistent (map snd calls) K fresh (D i) (pcs_on calls i pcs) (seen k i m') h rs dev'"
      using run(2) unfolding ifaces_ok_def by blast
    from explains_handlers [OF handlers.consistent_explained [OF this]] show ?thesis unfolding seen_def by auto
  qed
  then show ?thesis using run(1) by blast
qed

theorem interfaces_are_independent_witness:
  "\<exists>pcs m'. iface_schedule sample_klib max_fresh sample_iface_calls [0, 1, 0, 2, 4, 0, 1, 3]
      (replicate (length sample_iface_calls) Begin, sample_memory) = Done (pcs, m') \<and>
    (\<forall>i. \<exists>order. explains sample_klib (map snd sample_iface_calls) (sample_devs i) order
      (pcs_on sample_iface_calls i pcs) (worlds m' i))"
  by (rule interfaces_are_independent [where k = HWE_TTY])
    (auto simp: sample_memory_ok sample_env_ok sample_iface_calls_def max_fresh_ok prints_on_def prints_def)

text \<open>C14: the static buffer of \<open>pair_to_str\<close> is shared by interfaces that do not share a lock. For any
  devices with pairs \<open>p\<close> and \<open>q\<close> on different interfaces there is an interleaving of two readers in
  which the reader of \<open>p\<close> gets the text of \<open>q\<close>.\<close>

theorem static_buffer_race:
  assumes "i \<noteq> j" "represents (worlds m i) dev1" "dev_inv dev1" "pair_list dev1 = p # ps"
    "represents (worlds m j) dev2" "dev_inv dev2" "pair_list dev2 = q # qs"
  shows "\<exists>s m'. iface_schedule K fresh [(i, Show (int (index p))), (j, Show (int (index q)))] s ([Begin, Begin], m) =
    Done ([End (Text (pair_to_str q)), End (Text (pair_to_str q))], m')"
proof -
  obtain x where x: "nxt (w_mem (worlds m i)) 0 = x" "x \<noteq> 0" "node (w_mem (worlds m i)) x = Some p"
    "w_sem (worlds m i) = 1" "in_static_buf p" by (rule first_pair [OF assms(2-4)])
  obtain y where y: "nxt (w_mem (worlds m j)) 0 = y" "y \<noteq> 0" "node (w_mem (worlds m j)) y = Some q"
    "w_sem (worlds m j) = 1" "in_static_buf q" by (rule first_pair [OF assms(5-7)])
  have "\<exists>m'. iface_schedule K fresh [(i, Show (int (index p))), (j, Show (int (index q)))]
      [0, 0, 0, 1, 1, 1, 0, 0, 1, 1] ([Begin, Begin], m) =
    Done ([End (Text (pair_to_str q)), End (Text (pair_to_str q))], m')"
    using x y assms(1) by (simp add: iface_schedule_def iface_step_def down_def up_def)
  then show ?thesis by blast
qed

theorem static_buffer_race_witness:
  "(\<exists>s m'. iface_schedule sample_klib max_fresh [(HWE_TTY, Show (int (index (numbered sample_pair 0)))),
      (HWE_I2C, Show (int (index (numbered sample_timer 0))))] s ([Begin, Begin], sample_memory) =
    Done ([End (Text (pair_to_str (numbered sample_timer 0))), End (Text (pair_to_str (numbered sample_timer 0)))], m')) \<and>
    pair_to_str (numbered sample_timer 0) \<noteq> pair_to_str (numbered sample_pair 0)"
proof
  show "\<exists>s m'. iface_schedule sample_klib max_fresh [(HWE_TTY, Show (int (index (numbered sample_pair 0)))),
      (HWE_I2C, Show (int (index (numbered sample_timer 0))))] s ([Begin, Begin], sample_memory) =
    Done ([End (Text (pair_to_str (numbered sample_timer 0))), End (Text (pair_to_str (numbered sample_timer 0)))], m')"
    by (rule static_buffer_race [OF _ sample_memory_ok [of HWE_TTY] _ sample_memory_ok [of HWE_I2C]])
      (simp_all add: sample_devs_def one_pair_dev_pairs)
  show "pair_to_str (numbered sample_timer 0) \<noteq> pair_to_str (numbered sample_pair 0)"
    by (simp add: pair_to_str_def sample_timer_def sample_pair_def hwe_consts hex_byte_pack_def hex_asc_hi_def hex_asc_lo_def hex_asc_def)
qed

end
