(* ===== verification/Removal.thy ===== *)
theory Removal
  imports Sysfs_Correct Interleave
begin

text \<open>
  Removing a device while its files are written (\<open>dev_add_store\<close>, \<open>dev_delete_store\<close>,
  \<open>dev_clear_store\<close>, \<open>shutdown_dev\<close> of \<open>hwe_sysfs.c\<close>). The handler of a device file gets the pointer to
  the device from \<open>sysfs\<close> and then waits for the lock. Here the entry points of one interface run
  as threads that take the lock, run their body, as the theories \<open>Sysfs\<close> and \<open>Registry\<close> have it, and
  release it. \<open>l_users\<close> counts, for each device, the programs inside the handlers of its files;
  \<open>waits n users\<close> says whether removing the files of device \<open>n\<close> waits for them. The kernel's \<open>sysfs\<close>
  satisfies \<open>removal_drains\<close>. A device is its index: an index is not reused before all pointers to
  the removed device are gone, if the removal waits. In the code the wait is at the end of
  \<open>shutdown_dev\<close> (\<open>kobject_put\<close>), here before it; the lock hides the difference. \<open>lock_devs\<close> reads the
  interface from the device; here it is the interface of the file, which is the same.

  With the wait no handler follows a pointer to a freed device; but it can deadlock with the
  lock; and without the wait a handler can use a freed device.
\<close>

section \<open>Entry points in steps\<close>

datatype dev_op =
    Op_add add_env string nat
  | Op_delete string nat
  | Op_clear nat

fun dev_op_locked :: "klib \<Rightarrow> dev_op \<Rightarrow> 'd hwe_dev \<Rightarrow> int \<times> 'd hwe_dev" where
  "dev_op_locked K (Op_add E buf cnt) dev = dev_add_store_locked K E dev buf cnt"
| "dev_op_locked K (Op_delete buf cnt) dev = dev_delete_store_locked K dev buf cnt"
| "dev_op_locked K (Op_clear cnt) dev = (int cnt, clear_pairs dev)"

text \<open>A write to a file of a device; \<open>hwe_delete_device\<close>; \<open>hwe_add_device\<close>; \<open>hwe_delete_pair\<close>.\<close>

datatype entry_call =
    Store nat dev_op
  | Uninstall nat
  | Create new_env
  | Delete_pair nat int

fun entry_body ::
  "klib \<Rightarrow> ('d, 'w) hwe_dev_ops \<Rightarrow> HWE_IFACE \<Rightarrow> entry_call \<Rightarrow> ('d, 'w) sysfs \<Rightarrow> (int \<times> ('d, 'w) sysfs) run" where
  "entry_body K ops i (Store n op) st =
     (case find_device_by_index i n st of
        None \<Rightarrow> Oops
      | Some dev \<Rightarrow> (case dev_op_locked K op dev of (r, dev') \<Rightarrow> Done (r, replace_dev i dev' st)))"
| "entry_body K ops i (Uninstall n) st =
     (case find_device_by_index i n st of
        None \<Rightarrow> Done (- ENODEV, st)
      | Some dev \<Rightarrow> Done (0, shutdown_dev ops dev st))"
| "entry_body K ops i (Create E) st =
     (case new_dev ops E i st of
        (None, st) \<Rightarrow> Done (- ENODEV, st)
      | (Some dev, st) \<Rightarrow> Done (int (dev_index dev), st))"
| "entry_body K ops i (Delete_pair n k) st =
     (case find_device_by_index i n st of
        None \<Rightarrow> Done (- ENODEV, st)
      | Some dev \<Rightarrow> (case hwe_delete_pair_locked dev k of (r, dev') \<Rightarrow> Done (r, replace_dev i dev' st)))"

text \<open>Run in one go, these are the entry points of \<open>Sysfs\<close>.\<close>

lemma entry_body_whole:
  "with_iface_lock i (entry_body K ops i (Store n (Op_add E buf cnt))) st = dev_add_store K E i n buf cnt st"
  "with_iface_lock i (entry_body K ops i (Store n (Op_delete buf cnt))) st = dev_delete_store K i n buf cnt st"
  "cnt \<noteq> 0 \<Longrightarrow> with_iface_lock i (entry_body K ops i (Store n (Op_clear cnt))) st = dev_clear_store i n cnt st"
  "with_iface_lock i (entry_body K ops i (Uninstall n)) st = hwe_delete_device ops i n st"
  "with_iface_lock i (entry_body K ops i (Create NE)) st = hwe_add_device ops NE i st"
  "with_iface_lock i (entry_body K ops i (Delete_pair n k)) st = hwe_delete_pair i n k st"
  by (simp_all add: dev_add_store_def dev_delete_store_def dev_clear_store_def dev_handler_def hwe_delete_device_def
      hwe_add_device_def hwe_delete_pair_def with_iface_lock_def cong: option.case_cong)

record ('d, 'w) live =
  l_sys :: "('d, 'w) sysfs"
  l_users :: "nat \<Rightarrow> nat"

datatype entry_pc =
    Outside
  | Waiting
  | Within
  | Leaving int
  | Unlocked int
  | Finished "int option"

fun file_of :: "entry_call \<Rightarrow> nat option" where
  "file_of (Store n op) = Some n"
| "file_of c = None"

definition add_user :: "nat option \<Rightarrow> ('d, 'w) live \<Rightarrow> ('d, 'w) live" where
  "add_user f s = (case f of None \<Rightarrow> s | Some n \<Rightarrow> s\<lparr>l_users := (l_users s)(n := l_users s n + 1)\<rparr>)"

definition drop_user :: "nat option \<Rightarrow> ('d, 'w) live \<Rightarrow> ('d, 'w) live" where
  "drop_user f s = (case f of None \<Rightarrow> s | Some n \<Rightarrow> s\<lparr>l_users := (l_users s)(n := l_users s n - 1)\<rparr>)"

definition device_there :: "HWE_IFACE \<Rightarrow> nat \<Rightarrow> ('d, 'w) sysfs \<Rightarrow> bool" where
  "device_there i n st \<longleftrightarrow> find_device_by_index i n st \<noteq> None"

text \<open>\<open>dev_clear_store\<close> refuses an empty write before it takes the lock.\<close>

fun fails_early :: "entry_call \<Rightarrow> bool" where
  "fails_early (Store n (Op_clear cnt)) \<longleftrightarrow> cnt = 0"
| "fails_early c \<longleftrightarrow> False"

text \<open>\<open>shutdown_dev\<close> waits, with the lock, until the files of the device are not used.\<close>

fun held_up :: "HWE_IFACE \<Rightarrow> (nat \<Rightarrow> (nat \<Rightarrow> nat) \<Rightarrow> bool) \<Rightarrow> entry_call \<Rightarrow> ('d, 'w) live \<Rightarrow> bool" where
  "held_up i waits (Uninstall n) s \<longleftrightarrow> device_there i n (l_sys s) \<and> waits n (l_users s)"
| "held_up i waits c s \<longleftrightarrow> False"

fun entry_step ::
  "klib \<Rightarrow> ('d, 'w) hwe_dev_ops \<Rightarrow> HWE_IFACE \<Rightarrow> (nat \<Rightarrow> (nat \<Rightarrow> nat) \<Rightarrow> bool) \<Rightarrow> entry_call \<Rightarrow> entry_pc \<Rightarrow>
     ('d, 'w) live \<Rightarrow> (entry_pc \<times> ('d, 'w) live) run" where
  "entry_step K ops i waits c Outside s =
     (if (case file_of c of None \<Rightarrow> False | Some n \<Rightarrow> \<not> device_there i n (l_sys s)) then Done (Finished None, s)
      else Done (Waiting, add_user (file_of c) s))"
| "entry_step K ops i waits c Waiting s =
     (if fails_early c then Done (Unlocked (- EIO), s)
      else
        (case lock_iface_devs i (l_sys s) of
           None \<Rightarrow> Blocked
         | Some st \<Rightarrow> Done (Within, s\<lparr>l_sys := st\<rparr>)))"
| "entry_step K ops i waits c Within s =
     (if held_up i waits c s then Blocked
      else
        (case entry_body K ops i c (l_sys s) of
           Done (r, st) \<Rightarrow> Done (Leaving r, s\<lparr>l_sys := st\<rparr>)
         | Blocked \<Rightarrow> Blocked
         | Oops \<Rightarrow> Oops))"
| "entry_step K ops i waits c (Leaving r) s = Done (Unlocked r, s\<lparr>l_sys := unlock_iface_devs i (l_sys s)\<rparr>)"
| "entry_step K ops i waits c (Unlocked r) s = Done (Finished (Some r), drop_user (file_of c) s)"
| "entry_step K ops i waits c (Finished r) s = Done (Finished r, s)"

definition entry_schedule ::
  "klib \<Rightarrow> ('d, 'w) hwe_dev_ops \<Rightarrow> HWE_IFACE \<Rightarrow> (nat \<Rightarrow> (nat \<Rightarrow> nat) \<Rightarrow> bool) \<Rightarrow> entry_call list \<Rightarrow> nat list \<Rightarrow>
     entry_pc list \<times> ('d, 'w) live \<Rightarrow> (entry_pc list \<times> ('d, 'w) live) run" where
  "entry_schedule K ops i waits calls = interleave (\<lambda>t. entry_step K ops i waits (calls ! t)) (length calls)"

definition removal_drains :: "(nat \<Rightarrow> (nat \<Rightarrow> nat) \<Rightarrow> bool) \<Rightarrow> bool" where
  "removal_drains waits \<longleftrightarrow> (\<forall>n users. 0 < users n \<longrightarrow> waits n users)"

section \<open>With the wait no handler uses a freed device\<close>

fun entry_ok :: "entry_call \<Rightarrow> bool" where
  "entry_ok (Store n (Op_add E buf cnt)) \<longleftrightarrow> pair_buf_ok (raw_pair E)"
| "entry_ok c \<longleftrightarrow> True"

fun removes :: "entry_call \<Rightarrow> nat option" where
  "removes (Uninstall n) = Some n"
| "removes c = None"

lemma device_there_iff: "device_there i n st \<longleftrightarrow> n \<in> dev_index ` set (devs st i)"
  by (auto simp: device_there_def find_device_by_index_None)

lemma replace_dev_there:
  assumes "find_device_by_index i m st = Some dev" "dev_index dev' = dev_index dev" "device_there i n st"
  shows "device_there i n (replace_dev i dev' st)"
proof (cases "n = m")
  case True
  then show ?thesis using find_replace_dev [OF assms(1), of dev'] find_device_by_index_Some [OF assms(1)] assms(2)
    by (simp add: device_there_def)
next
  case False
  then show ?thesis using find_replace_dev_other [of dev' n i st] find_device_by_index_Some [OF assms(1)] assms(2,3)
    by (simp add: device_there_def)
qed

lemma dev_op_keeps:
  assumes "all_inv st" "find_device_by_index i m st = Some dev" "entry_ok (Store m op)" "dev_op_locked K op dev = (r, dev')"
  shows "all_inv (replace_dev i dev' st) \<and> (\<forall>n. device_there i n st \<longrightarrow> device_there i n (replace_dev i dev' st))"
proof (cases op)
  case (Op_add E buf cnt)
  have "dev' = snd (dev_add_store_locked K E dev buf cnt)" using assms(4) Op_add by simp
  then show ?thesis
    using add_store_op.replace_keeps_all_inv(1) [OF _ assms(1,2), of "(K, E, buf, cnt)"] assms(3) Op_add replace_dev_there [OF assms(2)]
    by simp
next
  case (Op_delete buf cnt)
  have "dev' = snd (dev_delete_store_locked K dev buf cnt)" using assms(4) Op_delete by simp
  then show ?thesis
    using delete_store_op.replace_keeps_all_inv(1) [OF _ assms(1,2), of "(K, buf, cnt)"] replace_dev_there [OF assms(2)]
    by simp
next
  case (Op_clear cnt)
  then show ?thesis
    using clear_op.replace_keeps_all_inv(1) [OF _ assms(1,2), of 0] replace_dev_there [OF assms(2)] assms(4)
    by auto
qed

lemma shutdown_there:
  assumes "all_inv st" "find_device_by_index i m st = Some dev" "device_there i n st" "n \<noteq> m"
  shows "device_there i n (shutdown_dev ops dev st)"
proof -
  have "dev_ok i dev" "dev_index dev = m" using assms(1,2) find_device_by_index_Some [OF assms(2)] by (auto simp: all_inv_def iface_inv_def)
  then obtain d where "iface dev = i" "device dev = Some d" by (auto simp: dev_ok_def)
  then show ?thesis using assms(3,4) \<open>dev_index dev = m\<close> by (auto simp: shutdown_dev_eq device_there_iff)
qed

lemma new_dev_there:
  assumes "all_inv st" "new_dev ops E i st = (r, st')" "device_there i n st"
  shows "device_there i n st'"
  using assms new_dev_eq [of i st ops E] 
  by (auto simp: all_inv_def device_there_iff Let_def split: if_splits prod.splits option.splits)

lemma entry_body_Done:
  assumes "all_inv st" "entry_ok c" "entry_body K ops i c st = Done (r, st')"
  shows "all_inv st' \<and> (\<forall>n. device_there i n st \<and> removes c \<noteq> Some n \<longrightarrow> device_there i n st')"
proof (cases c)
  case (Store m op)
  then show ?thesis using assms dev_op_keeps [OF assms(1) _ assms(2) [unfolded Store]]
    by (auto split: option.splits prod.splits)
next
  case (Uninstall m)
  show ?thesis
  proof (cases "find_device_by_index i m st")
    case None
    then show ?thesis using assms Uninstall by auto
  next
    case (Some dev)
    then have "all_inv (shutdown_dev ops dev st)"
      using shutdown_dev_inv [OF assms(1)] find_device_by_index_Some [OF Some] by blast
    then show ?thesis using assms(3) Uninstall Some shutdown_there [OF assms(1) Some] by auto
  qed
next
  case (Create E)
  then show ?thesis using assms new_dev_inv [OF assms(1)] new_dev_there [OF assms(1)]
    by (auto split: option.splits prod.splits)
next
  case (Delete_pair m k)
  show ?thesis
  proof (cases "find_device_by_index i m st")
    case None
    then show ?thesis using assms Delete_pair by auto
  next
    case (Some dev)
    then have "st' = replace_dev i (snd (hwe_delete_pair_locked dev k)) st"
      using assms(3) Delete_pair by (auto split: prod.splits)
    then show ?thesis
      using delete_pair_op.replace_keeps_all_inv(1) [OF _ assms(1) Some, of k] replace_dev_there [OF Some] by simp
  qed
qed

lemma entry_body_Oops: "entry_body K ops i c st = Oops \<Longrightarrow> \<exists>n op. c = Store n op \<and> \<not> device_there i n st"
  by (cases c) (auto simp: device_there_def split: option.splits prod.splits)

text \<open>The threads inside the handlers of the files of device \<open>n\<close>.\<close>

fun in_handler :: "entry_pc \<Rightarrow> bool" where
  "in_handler Outside \<longleftrightarrow> False"
| "in_handler (Finished r) \<longleftrightarrow> False"
| "in_handler pc \<longleftrightarrow> True"

definition users_of :: "entry_call list \<Rightarrow> entry_pc list \<Rightarrow> nat \<Rightarrow> nat set" where
  "users_of calls pcs n = {t. t < length calls \<and> file_of (calls ! t) = Some n \<and> in_handler (pcs ! t)}"

lemma finite_users_of [simp]: "finite (users_of calls pcs n)"
  by (simp add: users_of_def)

lemma users_of_update:
  assumes "t < length calls" "length pcs = length calls"
  shows "users_of calls (pcs[t := pc]) n =
    (if file_of (calls ! t) \<noteq> Some n then users_of calls pcs n
     else if in_handler pc then insert t (users_of calls pcs n) else users_of calls pcs n - {t})"
  using assms by (auto simp: users_of_def nth_list_update)

text \<open>The count is right, every device in use exists, and the registry is consistent.\<close>

definition live_ok :: "HWE_IFACE \<Rightarrow> entry_call list \<Rightarrow> entry_pc list \<times> ('d, 'w) live \<Rightarrow> bool" where
  "live_ok i calls = (\<lambda>(pcs, s).
     length pcs = length calls \<and> all_inv (l_sys s) \<and> (\<forall>n. l_users s n = card (users_of calls pcs n)) \<and>
     (\<forall>n. 0 < l_users s n \<longrightarrow> device_there i n (l_sys s)))"

lemma live_ok_user:
  assumes "live_ok i calls (pcs, s)" "t < length calls" "file_of (calls ! t) = Some n" "in_handler (pcs ! t)"
  shows "0 < l_users s n" "device_there i n (l_sys s)"
proof -
  have "t \<in> users_of calls pcs n" using assms by (simp add: users_of_def)
  then have "0 < card (users_of calls pcs n)" by (auto simp: card_gt_0_iff)
  then show "0 < l_users s n" "device_there i n (l_sys s)" using assms(1) by (auto simp: live_ok_def)
qed

text \<open>A thread that stays inside, or outside, leaves the count as it is.\<close>

lemma live_ok_same:
  assumes "live_ok i calls (pcs, s)" "t < length calls" "in_handler pc = in_handler (pcs ! t) \<or> file_of (calls ! t) = None"
    "all_inv st" "\<And>n. 0 < l_users s n \<Longrightarrow> device_there i n st"
  shows "live_ok i calls (pcs[t := pc], s\<lparr>l_sys := st\<rparr>)"
proof -
  have "length pcs = length calls" using assms(1) by (simp add: live_ok_def)
  then have "users_of calls (pcs[t := pc]) n = users_of calls pcs n" for n
    using assms(2,3) unfolding users_of_def by (auto simp: nth_list_update)
  then show ?thesis using assms by (simp add: live_ok_def)
qed

lemma live_ok_enter:
  assumes "live_ok i calls (pcs, s)" "t < length calls" "pcs ! t = Outside"
    "\<And>n. file_of (calls ! t) = Some n \<Longrightarrow> device_there i n (l_sys s)"
  shows "live_ok i calls (pcs[t := Waiting], add_user (file_of (calls ! t)) s)"
proof (cases "file_of (calls ! t)")
  case None
  then show ?thesis using live_ok_same [OF assms(1,2), of Waiting "l_sys s"] assms(1) by (simp add: add_user_def live_ok_def)
next
  case (Some n)
  have "t \<notin> users_of calls pcs n" using assms(3) by (simp add: users_of_def)
  then show ?thesis
    using assms(1,2) assms(4) [OF Some] Some by (simp add: add_user_def live_ok_def users_of_update)
qed

lemma live_ok_exit:
  assumes "live_ok i calls (pcs, s)" "t < length calls" "pcs ! t = Unlocked r"
  shows "live_ok i calls (pcs[t := Finished r'], drop_user (file_of (calls ! t)) s)"
proof (cases "file_of (calls ! t)")
  case None
  then show ?thesis using live_ok_same [OF assms(1,2), of "Finished r'" "l_sys s"] assms(1) by (simp add: drop_user_def live_ok_def)
next
  case (Some n)
  have "t \<in> users_of calls pcs n" using assms(2,3) Some by (simp add: users_of_def)
  then show ?thesis
    using assms(1,2) Some by (auto simp: drop_user_def live_ok_def users_of_update)
qed

lemma all_inv_sem: "all_inv (update_iface i (\<lambda>ifc. ifc\<lparr>sem := f ifc\<rparr>) st) = all_inv st"
proof -
  have "iface_inv j (ifaces (update_iface i (\<lambda>ifc. ifc\<lparr>sem := f ifc\<rparr>) st) j) = iface_inv j (ifaces st j)" for j
    by (cases "j = i") (simp_all add: update_iface_def iface_inv_def)
  then show ?thesis by (simp add: all_inv_def)
qed

lemma device_there_sem [simp]:
  "device_there j n (update_iface i (\<lambda>ifc. ifc\<lparr>sem := f ifc\<rparr>) st) = device_there j n st"
  by (cases "j = i") (simp_all add: device_there_iff update_iface_def)

lemma live_ok_step:
  assumes ok: "live_ok i calls (pcs, s)" and t: "t < length calls"
    and c: "\<forall>c \<in> set calls. entry_ok c" and waits: "removal_drains waits"
  shows "entry_step K ops i waits (calls ! t) (pcs ! t) s = Done (pc, s') \<Longrightarrow> live_ok i calls (pcs[t := pc], s')"
    "entry_step K ops i waits (calls ! t) (pcs ! t) s \<noteq> Oops"
proof -
  have inv: "all_inv (l_sys s)" and there: "\<And>n. 0 < l_users s n \<Longrightarrow> device_there i n (l_sys s)"
    using ok by (simp_all add: live_ok_def)
  have okt: "entry_ok (calls ! t)" using c t by simp
  note same = live_ok_same [OF ok t]
  show "entry_step K ops i waits (calls ! t) (pcs ! t) s \<noteq> Oops"
  proof
    assume "entry_step K ops i waits (calls ! t) (pcs ! t) s = Oops"
    then have "pcs ! t = Within" "entry_body K ops i (calls ! t) (l_sys s) = Oops"
      by (cases "pcs ! t"; auto split: if_splits option.splits run.splits)+
    then show False using entry_body_Oops live_ok_user(2) [OF ok t] by fastforce
  qed
  assume step: "entry_step K ops i waits (calls ! t) (pcs ! t) s = Done (pc, s')"
  show "live_ok i calls (pcs[t := pc], s')"
  proof (cases "pcs ! t")
    case Outside
    then show ?thesis
      using step live_ok_enter [OF ok t Outside] same [of "Finished None" "l_sys s"] inv there
      by (auto split: if_splits option.splits)
  next
    case Waiting
    then show ?thesis
      using step same [of "Unlocked (- EIO)" "l_sys s"] same [of Within] inv there
      by (auto simp: lock_iface_devs_def all_inv_sem split: if_splits)
  next
    case Within
    then obtain r st where b: "entry_body K ops i (calls ! t) (l_sys s) = Done (r, st)" "\<not> held_up i waits (calls ! t) s"
      "pc = Leaving r" "s' = s\<lparr>l_sys := st\<rparr>"
      using step by (auto split: if_splits run.splits)
    have "device_there i n st" if "0 < l_users s n" for n
    proof -
      have "removes (calls ! t) \<noteq> Some n"
        using b(2) that there [OF that] waits by (cases "calls ! t") (auto simp: removal_drains_def)
      then show ?thesis using entry_body_Done [OF inv okt b(1)] there [OF that] by blast
    qed
    then show ?thesis using same [of "Leaving r" st] entry_body_Done [OF inv okt b(1)] Within b(3,4) by simp
  next
    case (Leaving r)
    then show ?thesis
      using step same [of "Unlocked r" "unlock_iface_devs i (l_sys s)"] inv there
      by (auto simp: unlock_iface_devs_def all_inv_sem)
  next
    case (Unlocked r)
    then show ?thesis using step live_ok_exit [OF ok t Unlocked] by auto
  next
    case (Finished r)
    then have "pcs[t := pc] = pcs" "s' = s" using step by (auto simp: list_update_same_conv)
    then show ?thesis using ok by simp
  qed
qed

text \<open>Every schedule returns and keeps the registry consistent.\<close>

lemma writers_are_safe:
  assumes "sysfs_inv (l_sys s)" "l_users s = (\<lambda>n. 0)" "\<forall>c \<in> set calls. entry_ok c" "removal_drains waits"
  shows "\<exists>pcs s'. entry_schedule K ops i waits calls sch (replicate (length calls) Outside, s) = Done (pcs, s') \<and>
    all_inv (l_sys s') \<and> (\<forall>n. 0 < l_users s' n \<longrightarrow> device_there i n (l_sys s'))"
proof -
  have "users_of calls (replicate (length calls) Outside) n = {}" for n by (auto simp: users_of_def)
  then have "live_ok i calls (replicate (length calls) Outside, s)"
    using assms(1,2) by (simp add: live_ok_def sysfs_inv_all_inv)
  then have "\<exists>y. entry_schedule K ops i waits calls sch (replicate (length calls) Outside, s) = Done y \<and> live_ok i calls y"
    unfolding entry_schedule_def
    by (rule interleave_invariant [of "live_ok i calls"]) (use live_ok_step [OF _ _ assms(3,4)] in blast)+
  then show ?thesis by (auto simp: live_ok_def)
qed

section \<open>A deadlock, or a freed device\<close>

text \<open>A writer that waits for the lock, and a removal that has the lock and waits for the writer.\<close>

definition hung ::
  "HWE_IFACE \<Rightarrow> entry_call list \<Rightarrow> nat \<Rightarrow> ('d, 'w) live \<Rightarrow> entry_pc list \<times> ('d, 'w) live \<Rightarrow> bool" where
  "hung i cs n s0 = (\<lambda>(pcs, s).
     s = s0 \<and> sem (ifaces (l_sys s) i) = 0 \<and> device_there i n (l_sys s) \<and> 0 < l_users s n \<and> length pcs = length cs + 2 \<and>
     pcs ! 0 = Waiting \<and> pcs ! 1 = Within \<and> (\<forall>t < length cs. pcs ! (t + 2) \<in> {Outside, Waiting}))"

lemma hung_step:
  assumes h: "hung i cs n s (pcs, s1)" and t: "t < length cs + 2" and cs: "\<forall>c \<in> set cs. file_of c = None"
    and waits: "removal_drains waits" and op: "\<not> fails_early (Store n op)"
  defines "calls \<equiv> Store n op # Uninstall n # cs"
  shows "entry_step K ops i waits (calls ! t) (pcs ! t) s1 = Blocked \<or>
    (\<exists>pc. entry_step K ops i waits (calls ! t) (pcs ! t) s1 = Done (pc, s1) \<and> hung i cs n s (pcs[t := pc], s1))"
proof -
  consider "t = 0" | "t = 1" | u where "t = u + 2" "u < length cs" using t
    by (metis One_nat_def add_2_eq_Suc' less_Suc_eq_0_disj)
  then show ?thesis
  proof cases
    case 1
    then show ?thesis using h op by (auto simp: hung_def calls_def lock_iface_devs_def)
  next
    case 2
    then show ?thesis using h waits by (auto simp: hung_def calls_def removal_drains_def)
  next
    case 3
    have c: "calls ! t = cs ! u" "file_of (cs ! u) = None" using 3 cs by (simp_all add: calls_def)
    then have "\<not> fails_early (cs ! u)" by (cases "cs ! u") auto
    moreover have "pcs ! t = Outside \<or> pcs ! t = Waiting" using h 3 by (auto simp: hung_def)
    ultimately show ?thesis
      using h 3 c by (auto simp: hung_def lock_iface_devs_def add_user_def nth_list_update)
  qed
qed

lemma hung_forever:
  assumes "hung i cs n s (pcs, s)" "\<forall>c \<in> set cs. file_of c = None" "removal_drains waits" "\<not> fails_early (Store n op)"
  shows "\<exists>y. entry_schedule K ops i waits (Store n op # Uninstall n # cs) sch (pcs, s) = Done y \<and> hung i cs n s y"
  unfolding entry_schedule_def
proof (rule interleave_invariant [of "hung i cs n s", OF assms(1)])
  fix t pcs s1
  assume h: "hung i cs n s (pcs, s1)" and t: "t < length (Store n op # Uninstall n # cs)"
  have "t < length cs + 2" using t by simp
  note step = hung_step [OF h this assms(2-4), of K ops]
  then show "entry_step K ops i waits ((Store n op # Uninstall n # cs) ! t) (pcs ! t) s1 \<noteq> Oops" by auto
  show "hung i cs n s (pcs[t := pc], s')"
    if "entry_step K ops i waits ((Store n op # Uninstall n # cs) ! t) (pcs ! t) s1 = Done (pc, s')" for pc s'
    using step that by auto
qed

lemma hung_nobody_ends: "hung i cs n s (pcs, s1) \<Longrightarrow> t < length cs + 2 \<Longrightarrow> pcs ! t \<noteq> Finished r"
proof -
  assume h: "hung i cs n s (pcs, s1)" and t: "t < length cs + 2"
  consider "t = 0" | "t = 1" | u where "t = u + 2" "u < length cs" using t
    by (metis One_nat_def add_2_eq_Suc' less_Suc_eq_0_disj)
  then show "pcs ! t \<noteq> Finished r" using h by cases (auto simp: hung_def)
qed

lemma shutdown_gone:
  assumes "sysfs_inv st" "find_device_by_index i n st = Some dev"
  shows "find_device_by_index i n (shutdown_dev ops dev (locked i st)) = None"
    "sem (ifaces (shutdown_dev ops dev (locked i st)) i) = 0"
proof -
  have inv: "all_inv (locked i st)" and dev: "dev \<in> set (devs (locked i st) i)" "dev_index dev = n"
    using assms find_device_by_index_Some [OF assms(2)] by (simp_all add: sysfs_inv_all_inv)
  then have "dev_ok i dev" by (auto simp: all_inv_def iface_inv_def)
  then obtain d where "iface dev = i" "device dev = Some d" by (auto simp: dev_ok_def)
  then show "find_device_by_index i n (shutdown_dev ops dev (locked i st)) = None"
    "sem (ifaces (shutdown_dev ops dev (locked i st)) i) = 0"
    using dev(2) by (auto simp: shutdown_dev_eq find_device_by_index_None locked_def)
qed

text \<open>C10: removing a device while a file of it is written goes wrong either way. The handler of the file
  has the pointer to the device and waits for the lock, which the removal holds. If the removal of
  the device's files waits for their users, as the kernel's does, there is an interleaving after
  which neither returns, nor any later call on the interface; if it did not wait, there is one in
  which the handler uses the device after it has been freed.\<close>

theorem uninstall_while_writing:
  assumes "sysfs_inv (l_sys s)" "find_device_by_index i n (l_sys s) = Some dev" "\<not> fails_early (Store n op)"
    "\<forall>c \<in> set cs. file_of c = None" "removal_drains waits"
  shows "(\<exists>sch pcs s'. entry_schedule K ops i waits (Store n op # Uninstall n # cs) sch
        (replicate (length cs + 2) Outside, s) = Done (pcs, s') \<and>
      (\<forall>sch'. \<exists>pcs' s''. entry_schedule K ops i waits (Store n op # Uninstall n # cs) sch' (pcs, s') = Done (pcs', s'') \<and>
        (\<forall>t < length cs + 2. \<forall>r. pcs' ! t \<noteq> Finished r))) \<and>
    (\<exists>sch. entry_schedule K ops i (\<lambda>n users. False) (Store n op # Uninstall n # cs) sch
        (replicate (length cs + 2) Outside, s) = Oops)"
proof
  let ?calls = "Store n op # Uninstall n # cs"
  have sem: "sem (ifaces (l_sys s) i) = 1" using assms(1) by (simp add: sysfs_inv_def)
  have lock: "lock_iface_devs i (l_sys s) = Some (locked i (l_sys s))"
    using sem by (simp add: lock_iface_devs_def locked_def update_iface_def)
  have there: "device_there i n (l_sys s)" using assms(2) by (simp add: device_there_def)
  define s' where "s' = (add_user (Some n) s)\<lparr>l_sys := locked i (l_sys s)\<rparr>"
  define pcs where "pcs = Waiting # Within # replicate (length cs) Outside"
  have "entry_schedule K ops i waits ?calls [0, 1, 1] (replicate (length cs + 2) Outside, s) = Done (pcs, s')"
    using there lock by (simp add: entry_schedule_def add_user_def pcs_def s'_def)
  moreover have h: "hung i cs n s' (pcs, s')"
    using there by (simp add: hung_def pcs_def s'_def add_user_def device_there_def) (simp add: locked_def update_iface_def)
  have "\<exists>pcs' s''. entry_schedule K ops i waits ?calls sch' (pcs, s') = Done (pcs', s'') \<and>
        (\<forall>t < length cs + 2. \<forall>r. pcs' ! t \<noteq> Finished r)" for sch'
    using hung_forever [OF h assms(4,5,3), of K ops sch'] hung_nobody_ends by fastforce
  ultimately show "\<exists>sch pcs s'. entry_schedule K ops i waits ?calls sch (replicate (length cs + 2) Outside, s) = Done (pcs, s') \<and>
      (\<forall>sch'. \<exists>pcs' s''. entry_schedule K ops i waits ?calls sch' (pcs, s') = Done (pcs', s'') \<and>
        (\<forall>t < length cs + 2. \<forall>r. pcs' ! t \<noteq> Finished r))" by blast
  define st where "st = shutdown_dev ops dev (locked i (l_sys s))"
  have gone: "find_device_by_index i n st = None" "sem (ifaces st i) = 0"
    using shutdown_gone [OF assms(1,2)] by (simp_all add: st_def)
  have lock': "lock_iface_devs i (unlock_iface_devs i st) = Some st"
  proof -
    have "(ifaces st i)\<lparr>sem := 0\<rparr> = ifaces st i" using gone(2) by (cases "ifaces st i") simp
    then have "st\<lparr>ifaces := (ifaces st)(i := (ifaces st i)\<lparr>sem := 0\<rparr>)\<rparr> = st" by (metis fun_upd_triv sysfs.surjective sysfs.update_convs(1))
    then show ?thesis using gone(2) by (simp add: lock_iface_devs_def unlock_iface_devs_def update_iface_def)
  qed
  have "entry_schedule K ops i (\<lambda>n users. False) ?calls [0, 1, 1, 1, 1, 0, 0] (replicate (length cs + 2) Outside, s) = Oops"
    using there lock lock' gone(1) assms(2,3) by (simp add: entry_schedule_def add_user_def st_def [symmetric])
  then show "\<exists>sch. entry_schedule K ops i (\<lambda>n users. False) ?calls sch (replicate (length cs + 2) Outside, s) = Oops" by blast
qed

definition sample_live :: "(unit, unit) live" where
  "sample_live = \<lparr>l_sys = sample_state, l_users = (\<lambda>n. 0)\<rparr>"

definition idle_ops :: "(unit, unit) hwe_dev_ops" where
  "idle_ops = \<lparr>create = (\<lambda>i n w. (Some (), w)), destroy = (\<lambda>i d w. w)\<rparr>"

definition sample_entries :: "entry_call list" where
  "sample_entries = [Delete_pair 0 0, Create \<lparr>kzalloc_ok = True, kobject_add_err = 0, pairs_kobj_ok = True\<rparr>]"

definition used_file_waits :: "nat \<Rightarrow> (nat \<Rightarrow> nat) \<Rightarrow> bool" where
  "used_file_waits n users \<longleftrightarrow> 0 < users n"

theorem uninstall_while_writing_witness:
  "(\<exists>sch pcs s'. entry_schedule sample_klib idle_ops HWE_TTY used_file_waits
        (Store 0 (Op_add sample_env ''02=03'' 5) # Uninstall 0 # sample_entries) sch
        (replicate (length sample_entries + 2) Outside, sample_live) = Done (pcs, s') \<and>
      (\<forall>sch'. \<exists>pcs' s''. entry_schedule sample_klib idle_ops HWE_TTY used_file_waits
          (Store 0 (Op_add sample_env ''02=03'' 5) # Uninstall 0 # sample_entries) sch' (pcs, s') = Done (pcs', s'') \<and>
        (\<forall>t < length sample_entries + 2. \<forall>r. pcs' ! t \<noteq> Finished r))) \<and>
    (\<exists>sch. entry_schedule sample_klib idle_ops HWE_TTY (\<lambda>n users. False)
        (Store 0 (Op_add sample_env ''02=03'' 5) # Uninstall 0 # sample_entries) sch
        (replicate (length sample_entries + 2) Outside, sample_live) = Oops)"
  by (rule uninstall_while_writing [where dev = sample_dev])
    (simp_all add: sample_live_def sample_state_inv sample_state_dev removal_drains_def used_file_waits_def sample_entries_def)

end
