(* ===== verification/Pair_Parser.thy ===== *)
theory Pair_Parser
  imports Pair
begin

text \<open>
  The test program of the parser (\<open>tests/pair_parser.c\<close>): \<open>rnd\<close>, \<open>create_random_pair\<close>, the self-test
  \<open>pair -> text -> pair -> text\<close>, the check of one text, and \<open>main\<close> with its exit status. What it
  prints is left out. \<open>rand\<close> and the answers of \<open>strdup\<close> and \<open>sscanf\<close> are parameters, and so is what
  the two structures on the stack hold when a round begins: \<open>create_random_pair\<close> does not set all
  their fields. The self-test passes whatever numbers are drawn, if \<open>async_rx\<close> happens to be
  false; it can fail on a correct parser if it happens to be true.
\<close>

section \<open>The program\<close>

record 's test_env =
  rand :: "'s \<Rightarrow> nat \<times> 's"
  RAND_MAX :: nat
  stack1 :: "nat \<Rightarrow> hwe_pair"
  stack2 :: "nat \<Rightarrow> hwe_pair"
  strdup_ok :: "nat \<Rightarrow> bool"
  sscanf_i :: "string \<Rightarrow> int \<times> int"

definition rnd :: "'s test_env \<Rightarrow> int \<Rightarrow> int \<Rightarrow> 's \<Rightarrow> int \<times> 's" where
  "rnd E lo hi s =
     (case rand E s of (r, s) \<Rightarrow> (lo + int r div (int (RAND_MAX E) div (hi - lo + 1) + 1), s))"

function fill_random :: "'s test_env \<Rightarrow> nat \<Rightarrow> nat \<Rightarrow> byte list \<Rightarrow> 's \<Rightarrow> byte list \<times> 's" where
  "fill_random E i n a s =
     (if i < n then (case rnd E 0 255 s of (v, s) \<Rightarrow> fill_random E (i + 1) n (a[i := word_of_int v]) s) else (a, s))"
  by pat_completeness auto
termination by (relation "measure (\<lambda>(E, i, n, a, s). n - i)") auto

declare fill_random.simps [simp del]

definition create_random_pair :: "'s test_env \<Rightarrow> hwe_pair \<Rightarrow> 's \<Rightarrow> hwe_pair \<times> 's" where
  "create_random_pair E pair s =
     (case rnd E 1 (int HWE_MAX_REQUEST) s of (n, s) \<Rightarrow>
      case fill_random E 0 (nat n) (req pair) s of (rq, s) \<Rightarrow>
      case rnd E 1 (int HWE_MAX_RESPONSE) s of (k, s) \<Rightarrow>
      case fill_random E 0 (nat k) (resp pair) s of (rp, s) \<Rightarrow>
        (pair\<lparr>req_size := nat n, req := rq, resp_size := nat k, resp := rp\<rparr>, s))"

definition test_round :: "'s test_env \<Rightarrow> klib \<Rightarrow> nat \<Rightarrow> 's \<Rightarrow> (bool \<times> 's) run" where
  "test_round E K i s =
     (case create_random_pair E (stack1 E i) s of (p1, s) \<Rightarrow>
        let ps1 = pair_to_str p1
        in case str_to_pair K ps1 (length ps1) (stack2 E i) of
             Inl err \<Rightarrow> Done (False, s)
           | Inr p2 \<Rightarrow>
               if \<not> strdup_ok E i then Oops
               else Done (pair_to_str p2 = ps1, s))"

fun test_rounds :: "'s test_env \<Rightarrow> klib \<Rightarrow> nat \<Rightarrow> nat \<Rightarrow> 's \<Rightarrow> (bool \<times> 's) run" where
  "test_rounds E K i 0 s = Done (True, s)"
| "test_rounds E K i (Suc n) s =
     (case test_round E K i s of
        Done (ok, s) \<Rightarrow> if ok then test_rounds E K (i + 1) n s else Done (False, s)
      | Blocked \<Rightarrow> Blocked
      | Oops \<Rightarrow> Oops)"

definition test :: "'s test_env \<Rightarrow> klib \<Rightarrow> int \<Rightarrow> 's \<Rightarrow> (bool \<times> 's) run" where
  "test E K count s = test_rounds E K 0 (nat count) s"

definition check_pair :: "klib \<Rightarrow> string \<Rightarrow> hwe_pair \<Rightarrow> bool" where
  "check_pair K pair_str p =
     (case str_to_pair K pair_str (length pair_str) p of Inl err \<Rightarrow> False | Inr pair \<Rightarrow> True)"

text \<open>The exit status of \<open>main\<close>; \<open>s\<close> is what \<open>srand\<close> makes of the time.\<close>

definition pair_parser_main :: "'s test_env \<Rightarrow> klib \<Rightarrow> string list \<Rightarrow> 's \<Rightarrow> int run" where
  "pair_parser_main E K argv s =
     (let argc = length argv;
          status = (\<lambda>ok. if ok then 0 else 1)
      in if argc < 2 then Done (status False)
         else if argv ! 1 = ''-t'' \<or> argv ! 1 = ''--test'' then
           (if argc > 3 then Done (status False)
            else if argc = 3 \<and> fst (sscanf_i E (argv ! 2)) = 0 then Done (status False)
            else
              (let (count, s) = (if argc = 2 then rnd E 1 0xffff s else (snd (sscanf_i E (argv ! 2)), s))
               in case test E K count s of
                    Done (ok, s) \<Rightarrow> Done (status ok) | Blocked \<Rightarrow> Blocked | Oops \<Rightarrow> Oops))
         else if argv ! 1 = ''-c'' \<or> argv ! 1 = ''--check'' then
           (if argc = 3 then Done (status (check_pair K (argv ! 2) (stack1 E 0))) else Done (status False))
         else Done (status False))"

section \<open>Random pairs\<close>

definition test_env_ok :: "'s test_env \<Rightarrow> bool" where
  "test_env_ok E \<longleftrightarrow> (\<forall>s. fst (rand E s) \<le> RAND_MAX E) \<and>
     (\<forall>i. strdup_ok E i \<and> pair_buf_ok (stack1 E i) \<and> pair_buf_ok (stack2 E i))"

lemma rnd_range:
  assumes "test_env_ok E" "lo \<le> hi"
  shows "lo \<le> fst (rnd E lo hi s)" "fst (rnd E lo hi s) \<le> hi"
proof -
  obtain r s' where r: "rand E s = (r, s')" by (cases "rand E s")
  have le: "int r \<le> int (RAND_MAX E)" using assms(1) r by (metis fst_conv of_nat_le_iff test_env_ok_def)
  let ?n = "hi - lo + 1" and ?q = "int (RAND_MAX E) div (hi - lo + 1) + 1"
  have n: "0 < ?n" using assms(2) by simp
  have q: "0 < ?q" using pos_imp_zdiv_nonneg_iff [OF n, of "int (RAND_MAX E)"] by simp
  have "int (RAND_MAX E) = ?n * (int (RAND_MAX E) div ?n) + int (RAND_MAX E) mod ?n" by (rule mult_div_mod_eq [symmetric])
  also have "\<dots> < ?n * (int (RAND_MAX E) div ?n) + ?n" by (rule add_strict_left_mono [OF pos_mod_bound [OF n]])
  finally have "int (RAND_MAX E) < ?n * ?q" unfolding distrib_left mult_1_right .
  moreover have "int r div ?q * ?q \<le> int r"
    using div_mult_mod_eq [of "int r" ?q] pos_mod_sign [OF q, of "int r"] by linarith
  ultimately have "int r div ?q * ?q < ?n * ?q" using le by linarith
  then have "int r div ?q < ?n" using q mult_less_cancel_right_pos by blast
  then show "fst (rnd E lo hi s) \<le> hi" using r by (simp add: rnd_def)
  show "lo \<le> fst (rnd E lo hi s)" using r pos_imp_zdiv_nonneg_iff [OF q, of "int r"] by (simp add: rnd_def)
qed

lemma length_fill_random [simp]: "length (fst (fill_random E i n a s)) = length a"
  by (induction E i n a s rule: fill_random.induct) (subst fill_random.simps, simp split: prod.split)

text \<open>A random pair has its two sizes and its two arrays; the other fields are those of the stack.\<close>

lemma create_random_pair_fields:
  assumes "test_env_ok E"
  obtains n k rq rp s' where "create_random_pair E p s = (p\<lparr>req_size := n, req := rq, resp_size := k, resp := rp\<rparr>, s')"
    "1 \<le> n" "n \<le> HWE_MAX_REQUEST" "1 \<le> k" "k \<le> HWE_MAX_RESPONSE" "length rq = length (req p)" "length rp = length (resp p)"
proof -
  obtain n s1 where n: "rnd E 1 (int HWE_MAX_REQUEST) s = (n, s1)" by (cases "rnd E 1 (int HWE_MAX_REQUEST) s")
  obtain rq s2 where rq: "fill_random E 0 (nat n) (req p) s1 = (rq, s2)" by (cases "fill_random E 0 (nat n) (req p) s1")
  obtain k s3 where k: "rnd E 1 (int HWE_MAX_RESPONSE) s2 = (k, s3)" by (cases "rnd E 1 (int HWE_MAX_RESPONSE) s2")
  obtain rp s4 where rp: "fill_random E 0 (nat k) (resp p) s3 = (rp, s4)" by (cases "fill_random E 0 (nat k) (resp p) s3")
  have "1 \<le> nat n" "nat n \<le> HWE_MAX_REQUEST" "1 \<le> nat k" "nat k \<le> HWE_MAX_RESPONSE"
    using rnd_range [OF assms, of 1 "int HWE_MAX_REQUEST" s] rnd_range [OF assms, of 1 "int HWE_MAX_RESPONSE" s2] n k
    by (simp_all add: hwe_consts)
  moreover have "length rq = length (req p)" "length rp = length (resp p)"
    using length_fill_random [of E 0 "nat n" "req p" s1] length_fill_random [of E 0 "nat k" "resp p" s3] rq rp by simp_all
  ultimately show ?thesis using n rq k rp that by (simp add: create_random_pair_def)
qed

lemma create_random_pair_wf:
  assumes "test_env_ok E" "pair_buf_ok p" "\<not> async_rx p"
  shows "wf_pair (fst (create_random_pair E p s))"
  by (rule create_random_pair_fields [OF assms(1), of p s])
    (use assms(2,3) in \<open>simp add: wf_pair_def pair_buf_ok_def\<close>)

section \<open>The self-test\<close>

lemma test_round_passes:
  assumes "test_env_ok E" "strtoull_ok (kl_strtoull K)" "\<not> async_rx (stack1 E i)"
  shows "\<exists>s'. test_round E K i s = Done (True, s')"
proof -
  obtain p s' where p: "create_random_pair E (stack1 E i) s = (p, s')" by (cases "create_random_pair E (stack1 E i) s")
  have ok: "pair_buf_ok (stack1 E i)" "pair_buf_ok (stack2 E i)" "strdup_ok E i" using assms(1) by (simp_all add: test_env_ok_def)
  have "wf_pair p" using create_random_pair_wf [OF assms(1) ok(1) assms(3), of s] p by simp
  then obtain q where q: "str_to_pair K (pair_to_str p) (length (pair_to_str p)) (stack2 E i) = Inr q" "view q = view p"
    using str_to_pair_print [OF assms(2) _ ok(2)] by blast
  have "pair_to_str q = pair_to_str p"
    using pair_to_str_view [OF str_to_pair_wf_pair [OF q(1) ok(2)] \<open>wf_pair p\<close> q(2)] .
  then show ?thesis using p q(1) ok(3) by (simp add: test_round_def)
qed

lemma test_rounds_pass:
  assumes "test_env_ok E" "strtoull_ok (kl_strtoull K)" "\<forall>i. \<not> async_rx (stack1 E i)"
  shows "\<exists>s'. test_rounds E K i n s = Done (True, s')"
proof (induction n arbitrary: i s)
  case (Suc n)
  obtain s1 where s1: "test_round E K i s = Done (True, s1)"
    using test_round_passes [OF assms(1,2)] assms(3) by blast
  obtain s' where "test_rounds E K (i + 1) n s1 = Done (True, s')" using Suc.IH by blast
  then show ?case using s1 by simp
qed simp

text \<open>\<open>pair_parser -t\<close> exits with status 0 whatever numbers are drawn.\<close>

lemma self_test_passes:
  assumes "test_env_ok E" "strtoull_ok (kl_strtoull K)" "\<forall>i. \<not> async_rx (stack1 E i)"
  shows "pair_parser_main E K [prog, ''--test''] s = Done 0"
proof -
  obtain count s1 where c: "rnd E 1 0xffff s = (count, s1)" by (cases "rnd E 1 0xffff s")
  obtain s' where "test_rounds E K 0 (nat count) s1 = Done (True, s')" using test_rounds_pass [OF assms] by blast
  then show ?thesis using c by (simp add: pair_parser_main_def test_def Let_def)
qed

text \<open>
  \<open>create_random_pair\<close> leaves \<open>async_rx\<close> and \<open>period_ms\<close> as they are. When the stack holds a true
  \<open>async_rx\<close> and the period 0, the pair is printed as a timer without a duration, which the parser
  rightly refuses: the test reports an error where there is none.
\<close>

lemma self_test_on_stale_stack:
  assumes "test_env_ok E" "async_rx (stack1 E i)" "period_ms (stack1 E i) = 0"
    "\<And>rest. kl_strtoull K (CHR ''='' # rest) = (0, CHR ''='' # rest)"
  shows "\<exists>s'. test_round E K i s = Done (False, s')"
proof -
  obtain p s' where p: "create_random_pair E (stack1 E i) s = (p, s')"
    and stale: "async_rx p" "period_ms p = 0" and "1 \<le> resp_size p" "resp_size p \<le> HWE_MAX_RESPONSE"
    by (rule create_random_pair_fields [OF assms(1), of "stack1 E i" s]) (use assms(2,3) in simp)
  then have printed: "pair_to_str p = ''timer:='' @ bin2hex (take (resp_size p) (resp p))"
    using stale by (simp add: pair_to_str_def hwe_time_to_str_def)
  have time: "hwe_str_to_time K (CHR ''='' # rest) = (0, CHR ''='' # rest)" for rest
    by (simp add: hwe_str_to_time_def str_to_time_loop.simps assms(4))
  have "str_to_pair_request K (pair_to_str p) 6 q = Inl ''invalid data definition''" for q
  proof -
    have "\<not> isxdigit (char_at (pair_to_str p) 0)" by (simp add: printed char_at_def isxdigit_def isdigit_def)
    then have "\<not> is_hex_str (pair_to_str p) 6" unfolding is_hex_str_iff by (metis zero_less_numeral)
    then show ?thesis using time by (simp add: printed str_to_pair_request_def char_at_def)
  qed
  moreover have "strnchr (pair_to_str p) (length (pair_to_str p)) (CHR ''='') = Some 6"
    using strnchr_append [of "CHR ''=''" "''timer:''" _ "bin2hex (take (resp_size p) (resp p))"] by (simp add: printed NUL_def)
  ultimately have "str_to_pair K (pair_to_str p) (length (pair_to_str p)) (stack2 E i) = Inl ''invalid data definition''"
    by (simp add: str_to_pair_def printed)
  then show ?thesis using p by (simp add: test_round_def)
qed

end
