(* ===== verification/Log.thy ===== *)
theory Log
  imports Sysfs
begin

text \<open>
  The log of requests and responses (\<open>hwe_main.c\<close>): the lines \<open>hwe_log_request\<close> and
  \<open>hwe_log_response\<close> print when the module parameters ask for it. \<open>hex_dump\<close> stands for the lines of
  the kernel's \<open>print_hex_dump\<close>. The drivers call these functions after they have computed their
  answers and use no result; the driver models leave the calls out.
\<close>

definition hwe_log_request ::
  "(byte list \<Rightarrow> string list) \<Rightarrow> bool \<Rightarrow> HWE_IFACE \<Rightarrow> int \<Rightarrow> byte list \<Rightarrow> nat \<Rightarrow> bool \<Rightarrow> string list" where
  "hwe_log_request hex_dump log_requests i dev_num rq sz have_response =
     (if \<not> log_requests then []
      else
        (iface_to_str i @ int_str dev_num @ '' <-- '' @ dec_str sz @ '' byte(s) (response '' @
         (if have_response then [] else ''not '') @ ''available):'') #
        hex_dump (take sz rq))"

definition hwe_log_response ::
  "(byte list \<Rightarrow> string list) \<Rightarrow> bool \<Rightarrow> HWE_IFACE \<Rightarrow> int \<Rightarrow> byte list \<Rightarrow> nat \<Rightarrow> string list" where
  "hwe_log_response hex_dump log_responses i dev_num rs sz =
     (if \<not> log_responses then []
      else
        (iface_to_str i @ int_str dev_num @ '' --> '' @ dec_str sz @ '' byte(s):'') #
        hex_dump (take sz rs))"

text \<open>A response is logged as its significant bytes only, whatever else is in the array of the pair.\<close>

lemma log_response_bytes:
  "hwe_log_response hex_dump log i n (resp p) (resp_size p) = hwe_log_response hex_dump log i n (resp_bytes p) (resp_size p)"
  by (simp add: hwe_log_response_def resp_bytes_def)

end
