(* ===== verification/Spec2Isabelle.thy ===== *)
theory Spec2Isabelle
  imports Module_Init Pair_Files Interfaces Removal Pair_Parser Log
begin

text \<open>
  The Linux hardware devices emulator \<open>hwemu\<close>: a kernel module (\<open>src/kernel\<close>) that creates
  emulated terminals, I2C adapters, network devices and SPI controllers. A user configures
  each device with request-response pairs; when a program writes a request to the device, the
  response is what it reads back. A pair may also have a period instead of a request; then its
  response arrives by itself, again and again.

  \<^bold>\<open>Parts.\<close> \<open>hwe_sysfs.c\<close> keeps, for each of the four interfaces, a list of devices under a
  semaphore, and for each device a list of pairs; it is reached through files under \<open>/sys\<close> and,
  by \<open>hwe_ioctl.c\<close>, through a character device. \<open>hwe_utils.c\<close> parses and prints pairs and searches
  them. Creating a device calls the \<open>create\<close> function of its driver (\<open>hwe_tty.c\<close>, \<open>hwe_i2c.c\<close>,
  \<open>hwe_net.c\<close>, \<open>hwe_spi.c\<close>) through the table \<open>dev_ops[]\<close>; the driver keeps private data that point
  back to the device, and asks \<open>find_response\<close> for the answer to every request. \<open>hwe_async.c\<close> walks
  all devices once per jiffy and hands the periodic packets that are due to the drivers through
  the table \<open>async_rx[]\<close>. \<open>hwe_main.c\<close> starts and stops all units.

  \<^bold>\<open>Theories.\<close>
  \<^item> \<open>Prelude\<close>: bytes, C strings, arrays, numerals, error numbers; the outcome \<open>run\<close> of kernel code
    (\<open>Done\<close>, \<open>Blocked\<close> on a semaphore, \<open>Oops\<close>); the record \<open>klib\<close> of kernel functions that are
    parameters.
  \<^item> \<open>Iface\<close> (\<open>hwe_consts.h\<close>, interface names of \<open>hwe_utils.c\<close>), \<open>Kernel_Utils\<close> (\<open>tests/kernel_utils.c\<close>:
    the hexadecimal codec, \<open>strnchr\<close>, \<open>scnprintf\<close>), \<open>Duration\<close> (\<open>hwe_str_to_time\<close>, \<open>hwe_time_to_str\<close>),
    \<open>Pair\<close> (\<open>struct hwe_pair\<close>, \<open>str_to_pair\<close>, \<open>pair_to_str\<close>, \<open>find_pair\<close>): which texts are accepted, that
    every accepted pair is well formed, the round trips, the size of the printed text.
  \<^item> \<open>Bitmap\<close>: the kernel's bitmaps as index pools (locale \<open>index_pool\<close>, interpreted for pairs and for
    devices). \<open>Device\<close>: \<open>struct hwe_dev\<close>, the bodies of its handlers, the invariant \<open>dev_inv\<close>, the
    abstract view (a map from requests to responses and a multiset of timers). \<open>Registry\<close>:
    \<open>struct hwe_iface\<close>, locks, lookups, \<open>new_dev\<close>, \<open>shutdown_dev\<close>, the invariant \<open>sysfs_inv\<close>. \<open>Sysfs\<close>:
    the attribute handlers and the functions for ioctl; the locale \<open>dev_operation\<close> lifts what a
    handler does to a device to what the entry point does to the registry. \<open>Sysfs_Correct\<close> and
    \<open>Lifecycle\<close>: the entry points refine operations on the abstract state, and the life of
    devices.
  \<^item> \<open>Ioctl\<close> (\<open>hwe_ioctl.c\<close>, \<open>hwe_ioctl.h\<close>): identifiers, the seven requests, the copies between kernel
    and user memory.
  \<^item> \<open>Response\<close>, \<open>I2c\<close>, \<open>Spi\<close>, \<open>Tty_Net\<close>: the drivers. The locale \<open>pending_source\<close> says what reading a
    pending response in pieces returns; I2C reads and SPI transfers interpret it.
  \<^item> \<open>Async\<close> (\<open>hwe_async.c\<close>): a tick, and the schedule of a pair over many ticks.
  \<^item> \<open>Drivers\<close>: the tables of \<open>hwe_sysfs.c\<close>; the locale \<open>driver\<close> is the contract between the registry
    and a driver (a successful \<open>create\<close> installs an owner, \<open>destroy\<close> removes it, a failure changes
    nothing), interpreted for the four drivers and for the table. \<open>System\<close>: what the kernel calls
    in the drivers, with locks and search. \<open>Hwemu\<close>: loading, unloading, one step of the running
    module, requests and responses end to end. \<open>Module_Init\<close>: what loading and unloading achieve,
    the reachable states, the invariant of all of them, and that no call, run whole,
    crashes or hangs.
  \<^item> \<open>Linked_List\<close> (\<open>tests/list.h\<close>, which is the kernel's; \<open>list_entry_count\<close> of \<open>hwemu.h\<close>): the list of
    pairs in memory. \<open>Interleave\<close>: threads that make one step each in any order; the locale
    \<open>critical_sections\<close> is the contract of a lock, and gives that every schedule behaves as the
    operations run whole and can be completed. \<open>Threads\<close>, \<open>Threads_Correct\<close>: the handlers on one
    device as small steps on the list in memory; they keep the contract, which justifies the other
    theories; without the lock a search can read a freed pair.
  \<^item> \<open>Pair_Files\<close>: the files of the pairs around these threads. What is read is consistent and no file
    is removed under its reader, but the lock and \<open>sysfs_remove_file\<close>'s wait for readers lead into
    a deadlock. \<open>Interfaces\<close>: the threads of the four interfaces. They are independent as long as
    texts are read on one of them; the static buffer of \<open>pair_to_str\<close> is shared without a lock.
  \<^item> \<open>Removal\<close>: the entry points of an interface as threads that take the lock, run their body and
    release it, and the removal of a device whose files are being written: safe when it waits for
    the writers, but then it can deadlock.
  \<^item> \<open>Log\<close>: the log lines of \<open>hwe_main.c\<close>. \<open>Pair_Parser\<close> (\<open>tests/pair_parser.c\<close>): the test program of the
    parser; its self-test passes whatever random numbers it draws.

  \<^bold>\<open>Correspondence.\<close> A handler is a function from the state to an outcome and the new state, with the
  name of the C function; a function whose name ends in \<open>_locked\<close> is the part between taking and
  releasing the semaphore. Error numbers are negative integers as in C, \<open>NULL\<close> results are
  \<open>None\<close>. \<open>unsigned long\<close> is \<open>64 word\<close>, \<open>u8\<close> is \<open>8 word\<close>; sizes that the code bounds are \<open>nat\<close>.
  Buffers are lists of bytes of fixed length that are written in place; what is beyond the text
  read stays. Linked lists are Isabelle lists in the order of the links (justified by
  \<open>Linked_List\<close>). A pointer to a device is its interface and index; following it when the device
  no longer exists is \<open>Oops\<close>. Private data have addresses, which the allocator chooses.

  \<^bold>\<open>Parameters and hypotheses.\<close> What the kernel decides is an argument: \<open>klib\<close> for its text
  functions (\<open>strtoull_ok\<close> states what \<open>simple_strtoull\<close> does with decimal digits), and records such as
  \<open>add_env\<close>, \<open>new_env\<close>, \<open>bus_env\<close>, \<open>net_env\<close>, \<open>load_env\<close>, \<open>chrdev_env\<close> for the results of allocations and
  registrations. The hypotheses on them say that error numbers are negative, that the allocator
  does not hand out memory that is in use, and that buffers are as long as their lengths say;
  \<open>removal_waits\<close> and \<open>removal_drains\<close> say that \<open>sysfs\<close> does not finish removing a file, or the files
  of a device, while they are being read or written.
  \<open>hwe_get_pair\<close> reads a variable it never sets; its value is an argument too.

  \<^bold>\<open>Loops.\<close> All loops over lists and arrays are structural recursions. The loop of \<open>cleanup_iface\<close> is
  \<open>while\<close>, proved to end; \<open>list_entry_count\<close> is a \<open>partial_function\<close>, which ends on every list. No fuel
  is used. In \<open>Threads\<close> the schedule is a finite list; that every call
  can complete is proved.

  \<^bold>\<open>Not modelled.\<close> Log and debug messages in the drivers; reference counts of kobjects and the
  release functions (the memory of pairs is modelled; a device is freed when it leaves its list);
  waiting inside the kernel's own functions other than the removal of files (\<open>i2c_del_adapter\<close>
  returns at once here);
  header fields of network frames, the random MAC address, the fields of \<open>struct tty_driver\<close>; the
  attribute and file operation tables' boilerplate, permissions and the module parameters'
  declarations. The interleaving models go down to the single memory accesses for the pairs of a
  device; between devices (\<open>Removal\<close>) the body of an entry point is one step, and the private data
  of the drivers are treated with atomic handlers. What the test program prints, the Python and shell tools,
  the installation scripts and the rest of \<open>list.h\<close> (functions the module does not call) are left
  out: other languages, plain output, or code that is not used.
\<close>

end
